(* ===== verification/Prelude.thy ===== *)
theory Prelude
  imports Main "HOL-Library.Word" "HOL-Library.Char_ord" "HOL-Library.List_Lexorder"
begin

text \<open>
  What every component of the development shares.

  \<^item> The machine types of the C++ sources: \<open>u8\<close>, \<open>u32\<close> and \<open>u64\<close> are \<open>uint8_t\<close>,
    \<open>uint32_t\<close> and \<open>uint64_t\<close>/\<open>size_t\<close>; a \<open>std::vector<uint8_t>\<close> is a list of \<open>u8\<close>; a
    \<open>std::string\<close> (and the characters a \<open>std::string_view\<close> shows) is a HOL string, whose
    characters are bytes.
  \<^item> The ways a C++ function can fail. A thrown exception is the value \<open>Inl e\<close>; undefined
    behaviour (a read outside an allocation, a division by zero, the overflow of
    \<open>INT64_MIN % -1\<close>, rethrowing a null \<open>exception_ptr\<close>) is also a value, so that
    "the code never does this" can be stated and proved.
  \<^item> Decimal and hexadecimal notation, as \<open>fmt::format\<close> prints it.
  \<^item> Generic list lemmas.
\<close>

unbundle bit_operations_syntax

named_theorems byte_simps \<open>conversion between characters, bytes and numbers\<close>

named_theorems list_step \<open>how take, drop and append move along a known prefix\<close>

section \<open>Machine types\<close>

type_synonym u8 = "8 word"
type_synonym u32 = "32 word"
type_synonym u64 = "64 word"
type_synonym bytes = "u8 list"

definition byte_of_char :: "char \<Rightarrow> u8" where
  "byte_of_char c = of_nat (of_char c)"

definition char_of_byte :: "u8 \<Rightarrow> char" where
  "char_of_byte b = char_of (unat b)"

abbreviation bytes_of_string :: "string \<Rightarrow> bytes" where
  "bytes_of_string s \<equiv> map byte_of_char s"

abbreviation string_of_bytes :: "bytes \<Rightarrow> string" where
  "string_of_bytes bs \<equiv> map char_of_byte bs"

lemma unat_byte_of_char [byte_simps]: "unat (byte_of_char c) = of_char c"
  by (simp add: byte_of_char_def unat_of_nat take_bit_eq_mod)

lemma char_of_byte_of_char [simp]: "char_of_byte (byte_of_char c) = c"
  by (simp add: char_of_byte_def unat_byte_of_char)

lemma byte_of_char_of_byte [simp]: "byte_of_char (char_of_byte b) = b"
proof -
  have "unat b < 256" using unsigned_less [of b] by simp
  then have "of_char (char_of_byte b) = unat b"
    by (simp add: char_of_byte_def)
  then have "unat (byte_of_char (char_of_byte b)) = unat b"
    by (simp add: unat_byte_of_char)
  then show ?thesis by (simp only: word_unat_eq_iff)
qed

lemma char_byte_comp [simp]:
  "char_of_byte \<circ> byte_of_char = id" "byte_of_char \<circ> char_of_byte = id"
  by (simp_all add: fun_eq_iff)

lemma bytes_of_string_of_bytes [simp]: "bytes_of_string (string_of_bytes bs) = bs"
  by (induction bs) simp_all

lemma string_of_bytes_of_string [simp]: "string_of_bytes (bytes_of_string s) = s"
  by (induction s) simp_all

lemma of_char_eq_iff_nat: "(of_char c :: nat) = of_char d \<longleftrightarrow> c = d"
  by simp

text \<open>\<open>std::vector::resize\<close>: new elements are zero.\<close>

definition resize0 :: "nat \<Rightarrow> bytes \<Rightarrow> bytes" where
  "resize0 n bs = take n bs @ replicate (n - length bs) 0"

lemma length_resize0 [simp]: "length (resize0 n bs) = n"
  by (simp add: resize0_def)

section \<open>Failures\<close>

text \<open>
  \<open>Runtime_error\<close> covers \<open>std::runtime_error\<close> and what derives from it
  (\<open>std::system_error\<close>, \<open>std::filesystem::filesystem_error\<close>, \<open>std::regex_error\<close>), which
  \<open>main\<close> catches. \<open>Invalid_argument\<close> and \<open>Out_of_range\<close> derive from \<open>std::logic_error\<close>,
  and \<open>Json_type_error\<close> (\<open>nlohmann::json::type_error\<close>, with its number) derives from
  \<open>std::exception\<close> directly: \<open>main\<close> catches none of these. \<open>Undefined\<close> is undefined
  behaviour, which is not an exception and cannot be caught. A message is carried by its
  constant part; the formatted arguments are left out.
\<close>

datatype undefined_behaviour =
    Read_past_end
  | Write_past_end
  | Division_by_zero
  | Division_overflow
  | Null_exception

datatype error =
    Runtime_error string
  | Invalid_argument string
  | Out_of_range string
  | Json_type_error nat
  | Undefined undefined_behaviour

type_synonym 'a result = "error + 'a"

definition is_std_exception :: "error \<Rightarrow> bool" where
  "is_std_exception e \<longleftrightarrow> (case e of Undefined _ \<Rightarrow> False | _ \<Rightarrow> True)"

definition is_runtime_error :: "error \<Rightarrow> bool" where
  "is_runtime_error e \<longleftrightarrow> (case e of Runtime_error _ \<Rightarrow> True | _ \<Rightarrow> False)"

lemma is_std_exception_simps [simp]:
  "is_std_exception (Runtime_error m)" "is_std_exception (Invalid_argument m)"
  "is_std_exception (Out_of_range m)" "is_std_exception (Json_type_error n)"
  "\<not> is_std_exception (Undefined u)"
  by (simp_all add: is_std_exception_def)

lemma is_runtime_error_simps [simp]:
  "is_runtime_error (Runtime_error m)" "\<not> is_runtime_error (Invalid_argument m)"
  "\<not> is_runtime_error (Out_of_range m)" "\<not> is_runtime_error (Json_type_error n)"
  "\<not> is_runtime_error (Undefined u)"
  by (simp_all add: is_runtime_error_def)

text \<open>Sequencing of operations that may throw.\<close>

definition result_bind :: "'a result \<Rightarrow> ('a \<Rightarrow> 'b result) \<Rightarrow> 'b result" where
  "result_bind r f = (case r of Inl e \<Rightarrow> Inl e | Inr x \<Rightarrow> f x)"

lemma result_bind_simps [simp]:
  "result_bind (Inl e) f = Inl e" "result_bind (Inr x) f = f x"
  by (simp_all add: result_bind_def)

lemma result_bind_Inr:
  "result_bind r f = Inr y \<longleftrightarrow> (\<exists>x. r = Inr x \<and> f x = Inr y)"
  by (auto simp: result_bind_def split: sum.splits)

lemma result_bind_Inl:
  "result_bind r f = Inl e \<longleftrightarrow> r = Inl e \<or> (\<exists>x. r = Inr x \<and> f x = Inl e)"
  by (auto simp: result_bind_def split: sum.splits)

end
