(* ===== verification/Tcp_Transfer.thy ===== *)
theory Tcp_Transfer
  imports Prelude
begin

text \<open>
  \<open>src/src/misc/tcp_transfer.hpp\<close>: one exchange with a peer, an optional request and an answer of
  a known length, as the event-driven state machine it is. Every handler of the class is a
  definition; \<open>io_step\<close> is one turn of the \<open>io_context\<close>: it takes what the network does next
  to the operation that is pending and calls the handlers the way \<open>asio\<close> does
  (\<open>read_op\<close> and \<open>write_op\<close> of \<open>src/src/lib/asio-1.28.0/include/asio/impl/read.hpp\<close> and
  \<open>write.hpp\<close> are \<open>read_some_done\<close> and \<open>write_some_done\<close>).

  The network is a script. \<open>incoming\<close> says what a read meets, in order: bytes, the end or
  failure of the connection, or nothing until the read timer expires; \<open>writes\<close> says what
  happens to a write: it goes out whole, in part (\<open>Wrote n\<close>, the room the socket has), fails, or
  stalls until the write timer expires. A script that is used up means silence, so that a timer expires. There
  is no clock: a timer may expire at any point where it is armed (the theory \<open>Timed_Transfer\<close> has one). The writes are kept in
  \<open>outgoing\<close>.
\<close>

datatype error_code =
    Operation_aborted
  | Not_connected
  | Eof
  | Broken nat

datatype arrival =
    Chunk bytes
  | Closed error_code
  | Deadline

datatype write_outcome =
    Written
  | Wrote nat
  | Write_fails error_code
  | Write_stalls

record tcp_socket =
  is_open :: bool
  incoming :: "arrival list"
  writes :: "write_outcome list"
  outgoing :: "bytes list"

datatype pending =
    Idle
  | Writing bytes
  | Reading nat

text \<open>An error code is \<open>None\<close> when it says success.\<close>

record tcp_transfer =
  sock :: tcp_socket
  expected :: nat
  tbuffer :: bytes
  write_error :: "error_code option"
  read_error :: "error_code option"
  op_pending :: pending
  op_cancelled :: bool
  write_timer :: bool
  read_timer :: bool

section \<open>The handlers\<close>

definition socket_cancel :: "tcp_transfer \<Rightarrow> tcp_transfer" where
  "socket_cancel t = (if op_pending t = Idle then t else t\<lparr>op_cancelled := True\<rparr>)"

definition on_write_timeout :: "error_code option \<Rightarrow> tcp_transfer \<Rightarrow> tcp_transfer" where
  "on_write_timeout ec t =
     (if ec = Some Operation_aborted then t
      else if ec = None then socket_cancel t
      else t)"

definition on_read_timeout :: "error_code option \<Rightarrow> tcp_transfer \<Rightarrow> tcp_transfer" where
  "on_read_timeout ec t = (if ec = None then socket_cancel t else t)"

definition on_read_partly :: "error_code option \<Rightarrow> nat \<Rightarrow> tcp_transfer \<Rightarrow> tcp_transfer \<times> nat" where
  "on_read_partly ec bytes_read t =
     (let t = t\<lparr>read_timer := False, read_error := ec\<rparr> in
      if ec \<noteq> None then (socket_cancel t, 0)
      else (t\<lparr>read_timer := True\<rparr>, expected t - bytes_read))"

definition on_read_complete :: "error_code option \<Rightarrow> nat \<Rightarrow> tcp_transfer \<Rightarrow> tcp_transfer" where
  "on_read_complete ec bytes_read t =
     (let t = t\<lparr>read_timer := False, read_error := ec\<rparr> in
      if ec \<noteq> None then socket_cancel t else t)"

text \<open>\<open>asio::async_read\<close>: the completion condition is asked before the first read.\<close>

definition async_read :: "tcp_transfer \<Rightarrow> tcp_transfer" where
  "async_read t = fst (on_read_partly None 0 (t\<lparr>op_pending := Reading 0\<rparr>))"

definition read_some_done :: "error_code option \<Rightarrow> bytes \<Rightarrow> nat \<Rightarrow> tcp_transfer \<Rightarrow> tcp_transfer" where
  "read_some_done ec bs consumed t =
     (let t = t\<lparr>tbuffer := take consumed (tbuffer t) @ bs @ drop (consumed + length bs) (tbuffer t),
                op_pending := Idle, op_cancelled := False\<rparr>;
          consumed = consumed + length bs
      in if (ec = None \<and> bs = []) \<or> consumed = expected t then on_read_complete ec consumed t
         else
           (case on_read_partly ec consumed t of
              (t, max_size) \<Rightarrow>
                if max_size = 0 then on_read_complete ec consumed t
                else t\<lparr>op_pending := Reading consumed\<rparr>))"

definition on_write_complete :: "error_code option \<Rightarrow> tcp_transfer \<Rightarrow> tcp_transfer" where
  "on_write_complete ec t =
     (let t = t\<lparr>write_timer := False, write_error := ec\<rparr> in
      if ec \<noteq> None then socket_cancel t
      else async_read (t\<lparr>read_timer := True\<rparr>))"

text \<open>
  A part of the request went out (\<open>write_op\<close>, with the default completion condition
  \<open>transfer_all\<close>): the operation goes on with the rest until there is none or an error.
\<close>

definition MAX_TRANSFER_SIZE :: nat where
  "MAX_TRANSFER_SIZE = 65536"

definition transfer_all :: "error_code option \<Rightarrow> nat" where
  "transfer_all ec = (if ec \<noteq> None then 0 else MAX_TRANSFER_SIZE)"

text \<open>What the socket takes of the rest when it has room for \<open>n\<close> bytes.\<close>

definition write_some :: "nat \<Rightarrow> bytes \<Rightarrow> bytes" where
  "write_some n remaining = take (min n (transfer_all None)) remaining"

definition write_some_done :: "error_code option \<Rightarrow> nat \<Rightarrow> bytes \<Rightarrow> tcp_transfer \<Rightarrow> tcp_transfer" where
  "write_some_done ec bytes_transferred remaining t =
     (let t = t\<lparr>op_pending := Idle, op_cancelled := False\<rparr>;
          remaining = drop bytes_transferred remaining
      in if (ec = None \<and> bytes_transferred = 0) \<or> remaining = [] then on_write_complete ec t
         else if transfer_all ec = 0 then on_write_complete ec t
         else t\<lparr>op_pending := Writing remaining\<rparr>)"

section \<open>Preparing an exchange\<close>

definition new_transfer :: "tcp_socket \<Rightarrow> tcp_transfer" where
  "new_transfer s =
     \<lparr>sock = s, expected = 64, tbuffer = [], write_error = Some Operation_aborted,
      read_error = Some Operation_aborted, op_pending = Idle, op_cancelled = False,
      write_timer = False, read_timer = False\<rparr>"

definition prepare_transfer :: "bytes \<Rightarrow> nat \<Rightarrow> tcp_transfer \<Rightarrow> tcp_transfer" where
  "prepare_transfer request expected_length t =
     t\<lparr>expected := expected_length, tbuffer := resize0 expected_length (tbuffer t),
       write_error := Some Operation_aborted, read_error := Some Operation_aborted,
       op_pending := Writing request, write_timer := True\<rparr>"

definition prepare_read :: "nat \<Rightarrow> tcp_transfer \<Rightarrow> tcp_transfer" where
  "prepare_read expected_length t =
     async_read (t\<lparr>expected := expected_length, tbuffer := resize0 expected_length (tbuffer t),
                   read_error := Some Operation_aborted, read_timer := True\<rparr>)"

section \<open>The event loop\<close>

text \<open>
  What happens next, \<open>None\<close> when nothing is left to wait for. A cancelled operation completes
  with \<open>operation_aborted\<close>; a read into no space completes at once with no bytes.
\<close>

definition io_step :: "tcp_transfer \<Rightarrow> tcp_transfer option" where
  "io_step t =
     (let s = sock t in
      case op_pending t of
        Idle \<Rightarrow>
          if write_timer t then Some (on_write_timeout None (t\<lparr>write_timer := False\<rparr>))
          else if read_timer t then Some (on_read_timeout None (t\<lparr>read_timer := False\<rparr>))
          else None
      | Writing remaining \<Rightarrow>
          if op_cancelled t then Some (write_some_done (Some Operation_aborted) 0 remaining t)
          else (case writes s of
                  Written # ws \<Rightarrow>
                    Some (write_some_done None (length remaining) remaining
                      (t\<lparr>sock := s\<lparr>writes := ws, outgoing := outgoing s @ [remaining]\<rparr>\<rparr>))
                | Wrote n # ws \<Rightarrow>
                    (let sent = write_some n remaining in
                     if sent = [] \<and> remaining \<noteq> [] then Some (t\<lparr>sock := s\<lparr>writes := ws\<rparr>\<rparr>)
                     else Some (write_some_done None (length sent) remaining
                       (t\<lparr>sock := s\<lparr>writes := ws, outgoing := outgoing s @ [sent]\<rparr>\<rparr>)))
                | Write_fails ec # ws \<Rightarrow>
                    Some (write_some_done (Some ec) 0 remaining (t\<lparr>sock := s\<lparr>writes := ws\<rparr>\<rparr>))
                | _ \<Rightarrow>
                    if write_timer t
                    then Some (on_write_timeout None
                      (t\<lparr>write_timer := False, sock := s\<lparr>writes := drop 1 (writes s)\<rparr>\<rparr>))
                    else None)
      | Reading consumed \<Rightarrow>
          if op_cancelled t then Some (read_some_done (Some Operation_aborted) [] consumed t)
          else if expected t \<le> consumed then Some (read_some_done None [] consumed t)
          else (case incoming s of
                  Chunk bs # as \<Rightarrow>
                    (let n = expected t - consumed;
                         as' = (if length bs \<le> n then as else Chunk (drop n bs) # as);
                         t = t\<lparr>sock := s\<lparr>incoming := as'\<rparr>\<rparr>
                     in if bs = [] then Some t
                        else Some (read_some_done None (take n bs) consumed t))
                | Closed ec # as \<Rightarrow> Some (read_some_done (Some ec) [] consumed t)
                | _ \<Rightarrow>
                    if read_timer t
                    then Some (on_read_timeout None
                      (t\<lparr>read_timer := False, sock := s\<lparr>incoming := drop 1 (incoming s)\<rparr>\<rparr>))
                    else None))"

subsection \<open>The loop ends\<close>

text \<open>
  A turn of the loop completes the pending operation, cancels it, or uses up an arrival; a
  timer that expires with nothing pending is used up itself.
\<close>

definition pending_rank :: "tcp_transfer \<Rightarrow> nat" where
  "pending_rank t = (case op_pending t of Writing _ \<Rightarrow> 2 | Reading _ \<Rightarrow> 1 | Idle \<Rightarrow> 0)"

definition timers_armed :: "tcp_transfer \<Rightarrow> nat" where
  "timers_armed t = of_bool (write_timer t) + of_bool (read_timer t)"

definition io_order :: "(tcp_transfer \<times> tcp_transfer) set" where
  "io_order = measures [pending_rank, \<lambda>t. of_bool (\<not> op_cancelled t),
     \<lambda>t. length (incoming (sock t)) + length (writes (sock t)), timers_armed]"

lemma wf_io_order: "wf io_order"
  by (simp add: io_order_def)

lemmas handler_defs =
  socket_cancel_def on_write_timeout_def on_read_timeout_def on_read_partly_def
  on_read_complete_def async_read_def read_some_done_def on_write_complete_def write_some_done_def

lemma io_order_rank: "pending_rank t' < pending_rank t \<Longrightarrow> (t', t) \<in> io_order"
  by (simp add: io_order_def)

lemma io_order_cancel:
  "op_pending t' = op_pending t \<Longrightarrow> \<not> op_cancelled t \<Longrightarrow> op_cancelled t' \<Longrightarrow> (t', t) \<in> io_order"
  by (simp add: io_order_def pending_rank_def)

lemma io_order_script:
  "pending_rank t' \<le> pending_rank t \<Longrightarrow> (op_cancelled t' \<longleftrightarrow> op_cancelled t) \<Longrightarrow>
     length (incoming (sock t')) + length (writes (sock t')) <
       length (incoming (sock t)) + length (writes (sock t)) \<Longrightarrow> (t', t) \<in> io_order"
  by (auto simp: io_order_def)

lemma io_order_timers:
  "op_pending t' = op_pending t \<Longrightarrow> (op_cancelled t' \<longleftrightarrow> op_cancelled t) \<Longrightarrow>
     sock t' = sock t \<Longrightarrow> timers_armed t' < timers_armed t \<Longrightarrow> (t', t) \<in> io_order"
  by (simp add: io_order_def pending_rank_def)

lemma read_some_done_rank:
  "pending_rank (read_some_done ec bs consumed t) =
     (if ec \<noteq> None \<or> bs = [] \<or> consumed + length bs = expected t \<or>
         expected t \<le> consumed + length bs then 0 else 1)"
  by (auto simp: pending_rank_def handler_defs Let_def)

lemma read_some_done_sock [simp]: "sock (read_some_done ec bs consumed t) = sock t"
  by (auto simp: handler_defs Let_def)

lemma read_some_done_not_cancelled [simp]: "\<not> op_cancelled (read_some_done ec bs consumed t)"
  by (auto simp: handler_defs Let_def)

lemma on_write_complete_rank: "op_pending t = Idle \<Longrightarrow> pending_rank (on_write_complete ec t) \<le> 1"
  by (auto simp: pending_rank_def handler_defs Let_def)

lemma transfer_all_0 [simp]: "transfer_all ec = 0 \<longleftrightarrow> ec \<noteq> None"
  by (simp add: transfer_all_def MAX_TRANSFER_SIZE_def)

lemma length_write_some [simp]: "length (write_some n remaining) \<le> length remaining"
  by (simp add: write_some_def)

lemma write_some_append [simp]: "write_some n remaining @ drop (length (write_some n remaining)) remaining = remaining"
  unfolding write_some_def by (metis append_eq_conv_conj append_take_drop_id)

lemma write_some_all: "length (write_some n remaining) = length remaining \<Longrightarrow> write_some n remaining = remaining"
  using write_some_append [of n remaining] by simp

lemma write_some_Nil [simp]: "write_some n [] = []"
  by (simp add: write_some_def)

lemma write_some_done_over:
  "ec \<noteq> None \<or> bytes_transferred = 0 \<or> length remaining \<le> bytes_transferred \<Longrightarrow>
     write_some_done ec bytes_transferred remaining t =
       on_write_complete ec (t\<lparr>op_pending := Idle, op_cancelled := False\<rparr>)"
  by (auto simp: write_some_done_def Let_def)

lemma write_some_done_more:
  "0 < bytes_transferred \<Longrightarrow> bytes_transferred < length remaining \<Longrightarrow>
     write_some_done None bytes_transferred remaining t =
       t\<lparr>op_pending := Writing (drop bytes_transferred remaining), op_cancelled := False\<rparr>"
  by (simp add: write_some_done_def Let_def)

lemma pending_rank_sock [simp]: "pending_rank (t\<lparr>sock := s\<rparr>) = pending_rank t"
  by (simp add: pending_rank_def)

text \<open>A step of a pending write: it is over, goes on with less, meets a full socket, or expires.\<close>

lemma writing_step:
  assumes "io_step t = Some t'" "op_pending t = Writing remaining"
  obtains (over) ec n u where "t' = write_some_done ec n remaining u"
      "ec \<noteq> None \<or> n = 0 \<or> length remaining \<le> n"
  | (more) n u where "t' = write_some_done None n remaining u" "0 < n" "n < length remaining"
      "\<not> op_cancelled t" "incoming (sock u) = incoming (sock t)"
      "length (writes (sock u)) < length (writes (sock t))"
  | (blocked) u where "t' = u" "op_pending u = op_pending t" "op_cancelled u \<longleftrightarrow> op_cancelled t"
      "incoming (sock u) = incoming (sock t)" "length (writes (sock u)) < length (writes (sock t))"
  | (expire) u where "t' = on_write_timeout None u" "op_pending u = op_pending t" "\<not> op_cancelled t"
proof (cases "op_cancelled t")
  case True
  with assms show thesis by (intro over [of "Some Operation_aborted" 0 t]) (simp_all add: io_step_def Let_def)
next
  case live: False
  have silent: thesis if "writes (sock t) = [] \<or> (\<exists>ws. writes (sock t) = Write_stalls # ws)"
    using that assms live
    by (intro expire [of "t\<lparr>write_timer := False, sock := (sock t)\<lparr>writes := drop 1 (writes (sock t))\<rparr>\<rparr>"])
      (auto simp: io_step_def Let_def split: if_splits)
  show thesis
  proof (cases "writes (sock t)")
    case (Cons w ws)
    show thesis
    proof (cases w)
      case (Wrote n)
      let ?sent = "write_some n remaining"
      show thesis
      proof (cases "?sent = [] \<and> remaining \<noteq> []")
        case True
        then have "t' = t\<lparr>sock := (sock t)\<lparr>writes := ws\<rparr>\<rparr>"
          using assms live Cons Wrote by (simp add: io_step_def Let_def)
        then show thesis by (rule blocked) (simp_all add: Cons)
      next
        case False
        let ?u = "t\<lparr>sock := (sock t)\<lparr>writes := ws, outgoing := outgoing (sock t) @ [?sent]\<rparr>\<rparr>"
        have t': "t' = write_some_done None (length ?sent) remaining ?u"
          using assms live Cons Wrote False by (simp add: io_step_def Let_def)
        show thesis
        proof (cases "?sent = [] \<or> length remaining \<le> length ?sent")
          case True
          with t' show thesis by (intro over [of None "length ?sent" ?u]) auto
        next
          case False
          with t' live Cons show thesis by (intro more [of "length ?sent" ?u]) auto
        qed
      qed
    qed (use assms live Cons silent in \<open>auto simp: io_step_def Let_def intro: over\<close>)
  qed (use silent in blast)
qed

lemma io_step_decreases: "io_step t = Some t' \<Longrightarrow> (t', t) \<in> io_order"
proof (cases "op_pending t")
  case Idle
  then show "io_step t = Some t' \<Longrightarrow> ?thesis"
    by (intro io_order_timers)
      (auto simp: io_step_def Let_def handler_defs timers_armed_def split: if_splits)
next
  case (Writing request)
  assume step: "io_step t = Some t'"
  have rank: "pending_rank t = 2" using Writing by (simp add: pending_rank_def)
  consider (over) ec n u where "t' = write_some_done ec n request u"
      "ec \<noteq> None \<or> n = 0 \<or> length request \<le> n"
    | (more) n u where "t' = write_some_done None n request u" "0 < n" "n < length request"
      "\<not> op_cancelled t" "incoming (sock u) = incoming (sock t)"
      "length (writes (sock u)) < length (writes (sock t))"
    | (blocked) u where "t' = u" "op_pending u = op_pending t" "op_cancelled u \<longleftrightarrow> op_cancelled t"
      "incoming (sock u) = incoming (sock t)" "length (writes (sock u)) < length (writes (sock t))"
    | (expire) u where "t' = on_write_timeout None u" "op_pending u = op_pending t" "\<not> op_cancelled t"
    using step Writing by (rule writing_step)
  then show ?thesis
  proof cases
    case over
    then show ?thesis
      using rank on_write_complete_rank [of "u\<lparr>op_pending := Idle, op_cancelled := False\<rparr>" ec]
      by (intro io_order_rank) (simp add: write_some_done_over)
  next
    case more
    then show ?thesis
      using Writing by (intro io_order_script) (simp_all add: write_some_done_more pending_rank_def)
  next
    case blocked
    then show ?thesis
      using Writing by (intro io_order_script) (simp_all add: pending_rank_def)
  next
    case expire
    then show ?thesis
      using Writing by (intro io_order_cancel) (simp_all add: handler_defs)
  qed
next
  case (Reading consumed)
  assume step: "io_step t = Some t'"
  have rank: "pending_rank t = 1" using Reading by (simp add: pending_rank_def)
  show ?thesis
  proof (cases "op_cancelled t \<or> expected t \<le> consumed")
    case True
    then show ?thesis
      using step Reading rank
      by (intro io_order_rank) (auto simp: io_step_def Let_def read_some_done_rank split: if_splits)
  next
    case False
    have silent: ?thesis if "incoming (sock t) = [] \<or> (\<exists>as. incoming (sock t) = Deadline # as)"
      using that step Reading False
      by (intro io_order_cancel)
        (auto simp: io_step_def Let_def handler_defs split: if_splits)
    show ?thesis
    proof (cases "incoming (sock t)")
      case (Cons a as)
      show ?thesis
      proof (cases a)
        case (Chunk bs)
        show ?thesis
        proof (cases "length bs \<le> expected t - consumed")
          case True
          then show ?thesis
            using step Reading False Cons Chunk rank
            by (intro io_order_script)
              (auto simp: io_step_def Let_def read_some_done_rank split: if_splits)
        next
          case long: False
          then show ?thesis
            using step Reading False Cons Chunk rank
            by (intro io_order_rank)
              (auto simp: io_step_def Let_def read_some_done_rank split: if_splits)
        qed
      next
        case (Closed ec)
        then show ?thesis
          using step Reading False Cons rank
          by (intro io_order_rank) (auto simp: io_step_def Let_def read_some_done_rank)
      next
        case Deadline
        then show ?thesis using silent Cons by blast
      qed
    qed (use silent in blast)
  qed
qed

function io_run :: "tcp_transfer \<Rightarrow> tcp_transfer" where
  "io_run t = (case io_step t of None \<Rightarrow> t | Some t' \<Rightarrow> io_run t')"
  by pat_completeness auto
termination
  by (relation io_order) (simp_all add: wf_io_order io_step_decreases)

declare io_run.simps [simp del]

section \<open>The two exchanges\<close>

definition do_transfer :: "bytes \<Rightarrow> nat \<Rightarrow> tcp_socket \<Rightarrow> (error_code + bytes) \<times> tcp_socket" where
  "do_transfer request expected_length s =
     (if \<not> is_open s then (Inl Not_connected, s)
      else
        (let t = io_run (prepare_transfer request expected_length (new_transfer s)) in
         (case write_error t of
            Some ec \<Rightarrow> (Inl ec, sock t)
          | None \<Rightarrow> (case read_error t of Some ec \<Rightarrow> (Inl ec, sock t) | None \<Rightarrow> (Inr (tbuffer t), sock t)))))"

definition do_read :: "nat \<Rightarrow> tcp_socket \<Rightarrow> (error_code + bytes) \<times> tcp_socket" where
  "do_read expected_length s =
     (if \<not> is_open s then (Inl Not_connected, s)
      else
        (let t = io_run (prepare_read expected_length (new_transfer s)) in
         (case read_error t of Some ec \<Rightarrow> (Inl ec, sock t) | None \<Rightarrow> (Inr (tbuffer t), sock t))))"

section \<open>What an exchange promises\<close>

text \<open>
  Receiving a number of bytes from a script, as a function of the script alone: it succeeds
  when the bytes come before the end of the connection and before a deadline.
\<close>

fun receive :: "nat \<Rightarrow> arrival list \<Rightarrow> (error_code + bytes) \<times> arrival list" where
  "receive n as =
     (if n = 0 then (Inr [], as)
      else (case as of
              [] \<Rightarrow> (Inl Operation_aborted, [])
            | Deadline # as' \<Rightarrow> (Inl Operation_aborted, as')
            | Closed ec # as' \<Rightarrow> (Inl ec, as)
            | Chunk bs # as' \<Rightarrow>
                if n < length bs then (Inr (take n bs), Chunk (drop n bs) # as')
                else (case receive (n - length bs) as' of
                        (Inl ec, r) \<Rightarrow> (Inl ec, r)
                      | (Inr xs, r) \<Rightarrow> (Inr (bs @ xs), r))))"

declare receive.simps [simp del]

lemma receive_simps [simp]:
  "receive 0 as = (Inr [], as)"
  "0 < n \<Longrightarrow> receive n [] = (Inl Operation_aborted, [])"
  "0 < n \<Longrightarrow> receive n (Deadline # as) = (Inl Operation_aborted, as)"
  "0 < n \<Longrightarrow> receive n (Closed ec # as) = (Inl ec, Closed ec # as)"
  "n < length bs \<Longrightarrow> 0 < n \<Longrightarrow> receive n (Chunk bs # as) = (Inr (take n bs), Chunk (drop n bs) # as)"
  "length bs \<le> n \<Longrightarrow> 0 < n \<Longrightarrow> receive n (Chunk bs # as) =
     (case receive (n - length bs) as of
        (Inl ec, r) \<Rightarrow> (Inl ec, r) | (Inr xs, r) \<Rightarrow> (Inr (bs @ xs), r))"
  by (subst receive.simps; auto)+

text \<open>
  Sending a request, as a function of the script: the error if there is one, what went out
  piece by piece, and what is left of the script.
\<close>

fun send :: "bytes \<Rightarrow> write_outcome list \<Rightarrow> error_code option \<times> bytes list \<times> write_outcome list" where
  "send remaining [] = (Some Operation_aborted, [], [])"
| "send remaining (Write_stalls # ws) = (Some Operation_aborted, [], ws)"
| "send remaining (Write_fails ec # ws) = (Some ec, [], ws)"
| "send remaining (Written # ws) = (None, [remaining], ws)"
| "send remaining (Wrote n # ws) =
     (let sent = write_some n remaining in
      if sent = [] \<and> remaining \<noteq> [] then send remaining ws
      else if length sent = length remaining then (None, [sent], ws)
      else (case send (drop (length sent) remaining) ws of (r, out, ws') \<Rightarrow> (r, sent # out, ws')))"

text \<open>The three cases of a write that the socket took a part of.\<close>

lemma send_Wrote:
  fixes n :: nat and remaining :: bytes
  defines "sent \<equiv> write_some n remaining"
  shows "sent = [] \<Longrightarrow> remaining \<noteq> [] \<Longrightarrow> send remaining (Wrote n # ws) = send remaining ws"
    and "length sent = length remaining \<Longrightarrow> send remaining (Wrote n # ws) = (None, [remaining], ws)"
    and "sent \<noteq> [] \<Longrightarrow> length sent < length remaining \<Longrightarrow>
      send remaining (Wrote n # ws) =
        (case send (drop (length sent) remaining) ws of (r, out, ws') \<Rightarrow> (r, sent # out, ws'))"
proof -
  have whole: "sent = remaining" if "length sent = length remaining"
    using that unfolding sent_def by (rule write_some_all)
  show "sent = [] \<Longrightarrow> remaining \<noteq> [] \<Longrightarrow> send remaining (Wrote n # ws) = send remaining ws"
    unfolding sent_def by (simp only: send.simps Let_def simp_thms if_True)
  show "length sent = length remaining \<Longrightarrow> send remaining (Wrote n # ws) = (None, [remaining], ws)"
    using whole unfolding send.simps Let_def sent_def [symmetric] by auto
  show "sent \<noteq> [] \<Longrightarrow> length sent < length remaining \<Longrightarrow>
      send remaining (Wrote n # ws) =
        (case send (drop (length sent) remaining) ws of (r, out, ws') \<Rightarrow> (r, sent # out, ws'))"
    unfolding send.simps Let_def sent_def [symmetric] by simp
qed

lemma send_cases:
  obtains (blocked) "write_some n remaining = []" "remaining \<noteq> []"
  | (all) "length (write_some n remaining) = length remaining"
  | (some) "write_some n remaining \<noteq> []" "length (write_some n remaining) < length remaining"
  using length_write_some [of n remaining]
  by (cases "write_some n remaining = []"; cases "length (write_some n remaining) = length remaining")
    (simp_all del: length_write_some)

text \<open>What went out is the request, or a part of its front when the write failed.\<close>

lemma send_prefix:
  "case send request ws of
     (None, out, _) \<Rightarrow> concat out = request
   | (Some _, out, _) \<Rightarrow> \<exists>rest. request = concat out @ rest"
proof (induction request ws rule: send.induct)
  case (5 remaining n ws)
  let ?sent = "write_some n remaining"
  show ?case
  proof (cases rule: send_cases [of n remaining])
    case blocked
    show ?thesis
      unfolding send_Wrote(1) [OF blocked] by (rule "5.IH"(1) [OF refl conjI [OF blocked]])
  next
    case all
    then show ?thesis by (simp add: send_Wrote del: send.simps)
  next
    case some
    have split: "?sent @ drop (length ?sent) remaining = remaining" by simp
    obtain r out ws' where s: "send (drop (length ?sent) remaining) ws = (r, out, ws')"
      by (cases "send (drop (length ?sent) remaining) ws") auto
    have sent: "send remaining (Wrote n # ws) = (r, ?sent # out, ws')"
      unfolding send_Wrote(3) [OF some] s by simp
    have "case send (drop (length ?sent) remaining) ws of
        (None, out, _) \<Rightarrow> concat out = drop (length ?sent) remaining
      | (Some _, out, _) \<Rightarrow> \<exists>rest. drop (length ?sent) remaining = concat out @ rest"
      using "5.IH"(2) [OF refl] some by linarith
    moreover have "concat (?sent # out) @ rest = remaining"
      if "drop (length ?sent) remaining = concat out @ rest" for rest
      using split that by simp
    ultimately show ?thesis
      unfolding s sent by (cases r) (force intro: sym)+
  qed
qed simp_all

lemma receive_length: "receive n as = (Inr bs, r) \<Longrightarrow> length bs = n"
proof (induction n as arbitrary: bs r rule: receive.induct)
  case (1 n as)
  show ?case
  proof (cases "n = 0")
    case False
    then show ?thesis
    proof (cases as)
      case (Cons a as')
      show ?thesis
      proof (cases a)
        case (Chunk xs)
        show ?thesis
        proof (cases "n < length xs")
          case nlt: False
          obtain q r' where q: "receive (n - length xs) as' = (q, r')" by fastforce
          with 1(2) False Cons Chunk nlt obtain ys where "q = Inr ys" "bs = xs @ ys" "r' = r"
            by (auto split: sum.splits)
          with 1(1) [OF False Cons Chunk nlt] q nlt show ?thesis by auto
        qed (use 1(2) False Cons Chunk in auto)
      qed (use 1(2) False Cons in auto)
    qed (use 1(2) False in auto)
  qed (use 1(2) in auto)
qed

section \<open>The machine does what it promises\<close>

lemma io_run_step: "io_step t = Some t' \<Longrightarrow> io_run t = io_run t'"
  by (subst io_run.simps) simp

lemma io_run_done: "op_pending t = Idle \<Longrightarrow> \<not> write_timer t \<Longrightarrow> \<not> read_timer t \<Longrightarrow> io_run t = t"
  by (subst io_run.simps) (simp add: io_step_def Let_def)

text \<open>A read in progress: the timer is armed and \<open>consumed\<close> bytes are in the buffer.\<close>

definition reading :: "nat \<Rightarrow> tcp_transfer \<Rightarrow> bool" where
  "reading consumed t \<longleftrightarrow> op_pending t = Reading consumed \<and> \<not> op_cancelled t \<and> read_timer t \<and>
     \<not> write_timer t \<and> consumed \<le> expected t \<and> length (tbuffer t) = expected t"

text \<open>Its end, given what the script holds: nothing is pending and no timer is armed.\<close>

definition read_ends :: "nat \<Rightarrow> tcp_transfer \<Rightarrow> (error_code + bytes) \<times> arrival list \<Rightarrow> tcp_transfer \<Rightarrow> bool" where
  "read_ends consumed t res t' \<longleftrightarrow>
     sock t' = (sock t)\<lparr>incoming := snd res\<rparr> \<and> write_error t' = write_error t \<and>
     op_pending t' = Idle \<and> \<not> write_timer t' \<and> \<not> read_timer t' \<and>
     (case fst res of
        Inl ec \<Rightarrow> read_error t' = Some ec
      | Inr bs \<Rightarrow> read_error t' = None \<and> tbuffer t' = take consumed (tbuffer t) @ bs)"

lemma read_some_failed:
  assumes "reading consumed t \<or> op_pending t = Reading consumed \<and> \<not> write_timer t"
  shows "io_run (read_some_done (Some ec) [] consumed t) = read_some_done (Some ec) [] consumed t"
    and "read_error (read_some_done (Some ec) [] consumed t) = Some ec"
    and "write_error (read_some_done (Some ec) [] consumed t) = write_error t"
    and "op_pending (read_some_done (Some ec) [] consumed t) = Idle"
    and "\<not> write_timer (read_some_done (Some ec) [] consumed t)"
    and "\<not> read_timer (read_some_done (Some ec) [] consumed t)"
  using assms by (auto simp: handler_defs Let_def reading_def intro!: io_run_done)

lemma read_times_out:
  assumes "reading consumed t" "0 < expected t - consumed"
    and "incoming (sock t) = [] \<or> (\<exists>as. incoming (sock t) = Deadline # as)"
  shows "read_ends consumed t (Inl Operation_aborted, drop 1 (incoming (sock t))) (io_run t)"
proof -
  let ?s = "sock t"
  let ?u = "t\<lparr>read_timer := False, sock := ?s\<lparr>incoming := drop 1 (incoming ?s)\<rparr>, op_cancelled := True\<rparr>"
  have "io_step t = Some ?u"
    using assms by (auto simp: io_step_def Let_def reading_def on_read_timeout_def socket_cancel_def)
  moreover have "io_step ?u = Some (read_some_done (Some Operation_aborted) [] consumed ?u)"
    using assms by (simp add: io_step_def Let_def reading_def)
  ultimately have "io_run t = read_some_done (Some Operation_aborted) [] consumed ?u"
    using read_some_failed(1) [of consumed ?u] assms(1) by (simp add: io_run_step reading_def)
  then show ?thesis
    using read_some_failed [of consumed ?u] assms(1) by (simp add: read_ends_def reading_def)
qed

lemma read_some_last:
  assumes "reading consumed t" "consumed + length bs = expected t"
  shows "read_ends consumed t (Inr bs, incoming (sock t)) (read_some_done None bs consumed t)"
  using assms by (auto simp: read_ends_def reading_def handler_defs Let_def)

lemma read_some_more:
  assumes "reading consumed t" "bs \<noteq> []" "consumed + length bs < expected t"
  shows "reading (consumed + length bs) (read_some_done None bs consumed t)"
    and "expected (read_some_done None bs consumed t) = expected t"
    and "write_error (read_some_done None bs consumed t) = write_error t"
    and "take (consumed + length bs) (tbuffer (read_some_done None bs consumed t)) =
      take consumed (tbuffer t) @ bs"
  using assms by (auto simp: reading_def handler_defs Let_def min_def)

lemma reading_sock [simp]: "reading consumed (t\<lparr>sock := s\<rparr>) = reading consumed t"
  by (simp add: reading_def)

lemma read_ends_done: "read_ends consumed t res t' \<Longrightarrow> io_run t' = t'"
  by (simp add: read_ends_def io_run_done)

lemma reading_run:
  "reading consumed t \<Longrightarrow> incoming (sock t) = as \<Longrightarrow>
     read_ends consumed t (receive (expected t - consumed) as) (io_run t)"
proof (induction as arbitrary: consumed t)
  case Nil
  show ?case
  proof (cases "expected t - consumed")
    case 0
    then have "io_step t = Some (read_some_done None [] consumed t)"
      using Nil by (simp add: io_step_def Let_def reading_def)
    moreover have "read_ends consumed t (Inr [], incoming (sock t)) (read_some_done None [] consumed t)"
      using read_some_last [OF Nil(1), of "[]"] 0 Nil(1) by (simp add: reading_def)
    ultimately show ?thesis
      using 0 Nil(2) by (simp add: io_run_step read_ends_done)
  next
    case (Suc m)
    then show ?thesis using read_times_out [OF Nil(1)] Nil(2) by simp
  qed
next
  case (Cons a as)
  let ?n = "expected t - consumed" and ?s = "sock t"
  note rd = Cons.prems(1) and inc = Cons.prems(2)
  show ?case
  proof (cases "?n = 0")
    case True
    then have "io_step t = Some (read_some_done None [] consumed t)"
      using rd by (simp add: io_step_def Let_def reading_def)
    moreover have "read_ends consumed t (Inr [], incoming ?s) (read_some_done None [] consumed t)"
      using read_some_last [OF rd, of "[]"] True rd by (simp add: reading_def)
    ultimately show ?thesis
      using True inc by (simp add: io_run_step read_ends_done)
  next
    case n: False
    show ?thesis
    proof (cases a)
      case (Closed ec)
      have "io_step t = Some (read_some_done (Some ec) [] consumed t)"
        using rd inc Closed n by (simp add: io_step_def Let_def reading_def)
      then show ?thesis
        using read_some_failed [of consumed t ec] rd inc Closed n
        by (simp add: io_run_step read_ends_def)
    next
      case Deadline
      then show ?thesis using read_times_out [OF rd] inc n by simp
    next
      case (Chunk bs)
      let ?as' = "if length bs \<le> ?n then as else Chunk (drop ?n bs) # as"
      let ?u = "t\<lparr>sock := ?s\<lparr>incoming := ?as'\<rparr>\<rparr>"
      have step: "io_step t = (if bs = [] then Some ?u else Some (read_some_done None (take ?n bs) consumed ?u))"
        using rd inc Chunk n by (simp add: io_step_def Let_def reading_def)
      have ru: "reading consumed ?u" using rd by simp
      have sum: "consumed + ?n = expected t" using rd by (simp add: reading_def)
      consider (empty) "bs = []" | (last) "bs \<noteq> []" "?n \<le> length bs" | (more) "bs \<noteq> []" "length bs < ?n"
        by linarith
      then show ?thesis
      proof cases
        case empty
        then have "io_run t = io_run ?u" using step by (simp add: io_run_step)
        moreover have "read_ends consumed ?u (receive ?n as) (io_run ?u)"
          using Cons.IH [OF ru] empty by simp
        ultimately show ?thesis
          using empty Chunk n by (auto simp: read_ends_def split: sum.splits prod.splits)
      next
        case last
        have "io_run t = io_run (read_some_done None (take ?n bs) consumed ?u)"
          using step last by (simp add: io_run_step)
        moreover have e: "read_ends consumed ?u (Inr (take ?n bs), ?as') (read_some_done None (take ?n bs) consumed ?u)"
          using read_some_last [OF ru, of "take ?n bs"] last sum by simp
        ultimately have "read_ends consumed ?u (Inr (take ?n bs), ?as') (io_run t)"
          by (simp add: read_ends_done)
        moreover have "receive ?n (a # as) = (Inr (take ?n bs), ?as')"
          using last Chunk n by (cases "?n = length bs") auto
        ultimately show ?thesis
          by (simp add: read_ends_def)
      next
        case more
        let ?v = "read_some_done None bs consumed ?u"
        have run: "io_run t = io_run ?v"
          using step more by (simp add: io_run_step)
        have rv: "reading (consumed + length bs) ?v" "expected ?v = expected t"
          "write_error ?v = write_error t"
          "take (consumed + length bs) (tbuffer ?v) = take consumed (tbuffer t) @ bs"
          using read_some_more [OF ru more(1)] more(2) sum by simp_all
        have "read_ends (consumed + length bs) ?v (receive (?n - length bs) as) (io_run ?v)"
          using Cons.IH [OF rv(1)] rv(2) more by simp
        then show ?thesis
          using run rv more Chunk n by (auto simp: read_ends_def split: sum.splits prod.splits)
      qed
    qed
  qed
qed

section \<open>Exchanges as functions of the script\<close>

lemma do_read_receive:
  assumes "is_open s"
  shows "do_read n s =
    (fst (receive n (incoming s)), s\<lparr>incoming := snd (receive n (incoming s))\<rparr>)"
proof -
  let ?t = "prepare_read n (new_transfer s)"
  have "reading 0 ?t" "expected ?t = n" "sock ?t = s"
    by (simp_all add: prepare_read_def new_transfer_def resize0_def handler_defs Let_def reading_def)
  then have "read_ends 0 ?t (receive n (incoming s)) (io_run ?t)" "sock ?t = s"
    using reading_run [of 0 ?t "incoming s"] by simp_all
  then show ?thesis
    using assms by (auto simp: do_read_def read_ends_def Let_def split: sum.splits)
qed

text \<open>A write in progress: its timer is armed. Its end is the end of sending what remains.\<close>

definition writing :: "bytes \<Rightarrow> tcp_transfer \<Rightarrow> bool" where
  "writing remaining t \<longleftrightarrow> op_pending t = Writing remaining \<and> \<not> op_cancelled t \<and> write_timer t \<and>
     \<not> read_timer t"

definition after_send :: "bytes list \<Rightarrow> write_outcome list \<Rightarrow> tcp_socket \<Rightarrow> tcp_socket" where
  "after_send out ws s = s\<lparr>writes := ws, outgoing := outgoing s @ out\<rparr>"

definition write_ends :: "tcp_transfer \<Rightarrow> error_code option \<times> bytes list \<times> write_outcome list \<Rightarrow> bool" where
  "write_ends t res \<longleftrightarrow>
     (\<exists>u. io_run t = io_run (on_write_complete (fst res) u) \<and> op_pending u = Idle \<and> \<not> op_cancelled u \<and>
        \<not> read_timer u \<and> expected u = expected t \<and> tbuffer u = tbuffer t \<and>
        sock u = after_send (fst (snd res)) (snd (snd res)) (sock t))"

lemma write_times_out:
  assumes "writing remaining t" "writes (sock t) = [] \<or> (\<exists>ws. writes (sock t) = Write_stalls # ws)"
  shows "write_ends t (Some Operation_aborted, [], drop 1 (writes (sock t)))"
proof -
  let ?u = "t\<lparr>write_timer := False, sock := (sock t)\<lparr>writes := drop 1 (writes (sock t))\<rparr>, op_cancelled := True\<rparr>"
  have "io_step t = Some ?u"
    using assms by (auto simp: io_step_def Let_def writing_def on_write_timeout_def socket_cancel_def)
  moreover have "io_step ?u = Some (on_write_complete (Some Operation_aborted)
      (?u\<lparr>op_pending := Idle, op_cancelled := False\<rparr>))"
    using assms(1) by (simp add: io_step_def Let_def writing_def write_some_done_over)
  ultimately show ?thesis
    using assms(1) unfolding write_ends_def
    by (intro exI [of _ "?u\<lparr>op_pending := Idle, op_cancelled := False\<rparr>"])
      (simp add: io_run_step writing_def after_send_def)
qed

lemma write_over:
  assumes "io_step t = Some (write_some_done ec n remaining (t\<lparr>sock := after_send out ws (sock t)\<rparr>))"
    and "ec \<noteq> None \<or> n = 0 \<or> length remaining \<le> n" "writing remaining t"
  shows "write_ends t (ec, out, ws)"
  using assms unfolding write_ends_def
  by (intro exI [of _ "t\<lparr>sock := after_send out ws (sock t), op_pending := Idle, op_cancelled := False\<rparr>"])
    (simp add: io_run_step write_some_done_over writing_def)

lemma writing_run:
  "writing remaining t \<Longrightarrow> writes (sock t) = ws \<Longrightarrow> write_ends t (send remaining ws)"
proof (induction remaining ws arbitrary: t rule: send.induct)
  case (5 remaining n ws)
  let ?sent = "write_some n remaining" and ?s = "sock t"
  note wr = "5.prems"(1)
  have step: "io_step t =
    (if ?sent = [] \<and> remaining \<noteq> [] then Some (t\<lparr>sock := after_send [] ws ?s\<rparr>)
     else Some (write_some_done None (length ?sent) remaining (t\<lparr>sock := after_send [?sent] ws ?s\<rparr>)))"
    using wr "5.prems"(2)
    by (cases "?sent = []"; cases "remaining = []") (simp_all add: io_step_def writing_def Let_def after_send_def)
  show ?case
  proof (cases rule: send_cases [of n remaining])
    case blocked
    let ?u = "t\<lparr>sock := after_send [] ws ?s\<rparr>"
    have run: "io_run t = io_run ?u" using step blocked by (simp only: io_run_step simp_thms if_True)
    have "write_ends ?u (send remaining ws)"
      using "5.IH"(1) [OF refl, of ?u] blocked wr by (simp add: writing_def after_send_def)
    then show ?thesis
      unfolding send_Wrote(1) [OF blocked] by (simp add: write_ends_def run after_send_def)
  next
    case all
    have sent: "?sent = remaining" using all by (rule write_some_all)
    have "io_step t = Some (write_some_done None (length ?sent) remaining (t\<lparr>sock := after_send [remaining] ws ?s\<rparr>))"
      using step unfolding sent by simp
    then show ?thesis
      unfolding send_Wrote(2) [OF all] by (rule write_over) (use all wr in simp_all)
  next
    case some
    let ?v = "t\<lparr>sock := after_send [?sent] ws ?s, op_pending := Writing (drop (length ?sent) remaining)\<rparr>"
    have "io_step t = Some ?v"
      using step some wr by (simp only: simp_thms if_False length_greater_0_conv write_some_done_more) (simp add: writing_def)
    then have run: "io_run t = io_run ?v" by (rule io_run_step)
    obtain r out ws' where s: "send (drop (length ?sent) remaining) ws = (r, out, ws')"
      by (cases "send (drop (length ?sent) remaining) ws") auto
    have "write_ends ?v (r, out, ws')"
      using "5.IH"(2) [OF refl, of ?v] some wr s by (simp add: writing_def after_send_def)
    moreover have "send remaining (Wrote n # ws) = (r, ?sent # out, ws')"
      unfolding send_Wrote(3) [OF some] s by simp
    ultimately show ?thesis by (simp add: write_ends_def run after_send_def)
  qed
qed (use write_times_out in \<open>force simp: io_step_def Let_def writing_def after_send_def intro: write_over\<close>)+

lemma do_transfer_send:
  assumes "is_open s" "send request (writes s) = (r, out, ws)"
  shows "do_transfer request n s =
    (case r of
       Some ec \<Rightarrow> (Inl ec, after_send out ws s)
     | None \<Rightarrow>
         (fst (receive n (incoming s)),
          (after_send out ws s)\<lparr>incoming := snd (receive n (incoming s))\<rparr>))"
proof -
  let ?t = "prepare_transfer request n (new_transfer s)"
  have "writing request ?t" "sock ?t = s" "expected ?t = n" "tbuffer ?t = resize0 n []"
    by (simp_all add: prepare_transfer_def new_transfer_def writing_def)
  with writing_run [of request ?t] assms(2) obtain u where u: "io_run ?t = io_run (on_write_complete r u)"
    "op_pending u = Idle" "\<not> op_cancelled u" "\<not> read_timer u" "expected u = n" "tbuffer u = resize0 n []"
    "sock u = after_send out ws s"
    by (auto simp: write_ends_def)
  show ?thesis
  proof (cases r)
    case (Some ec)
    have "io_run (on_write_complete r u) = on_write_complete r u"
      using u(2,4) Some by (intro io_run_done) (simp_all add: handler_defs Let_def)
    then show ?thesis
      using assms(1) u Some by (simp add: do_transfer_def Let_def handler_defs)
  next
    case None
    let ?u = "on_write_complete r u"
    have "reading 0 ?u" "expected ?u = n" "sock ?u = after_send out ws s" "write_error ?u = None"
      using u None by (simp_all add: resize0_def handler_defs Let_def reading_def)
    moreover from this have "read_ends 0 ?u (receive n (incoming s)) (io_run ?u)"
      using reading_run [of 0 ?u "incoming s"] by (simp add: after_send_def)
    ultimately show ?thesis
      using assms(1) u(1) None by (auto simp: do_transfer_def read_ends_def Let_def split: sum.splits)
  qed
qed

text \<open>The socket after a request that went out whole, in the parts the socket took.\<close>

definition after_write :: "bytes \<Rightarrow> tcp_socket \<Rightarrow> tcp_socket" where
  "after_write request s = (case send request (writes s) of (_, out, ws) \<Rightarrow> after_send out ws s)"

lemma do_transfer_written:
  assumes "is_open s" "fst (send request (writes s)) = None"
  shows "do_transfer request n s =
    (fst (receive n (incoming s)),
     (after_write request s)\<lparr>incoming := snd (receive n (incoming s))\<rparr>)"
proof -
  obtain out ws where "send request (writes s) = (None, out, ws)"
    using assms(2) by (cases "send request (writes s)") auto
  then show ?thesis
    using do_transfer_send [OF assms(1)] by (simp add: after_write_def)
qed

text \<open>
  A script of writes that lets requests of given lengths out, one after the other; how far a
  request gets depends on its length only.
\<close>

fun accepts :: "nat list \<Rightarrow> write_outcome list \<Rightarrow> write_outcome list \<Rightarrow> bool" where
  "accepts [] ws rest \<longleftrightarrow> ws = rest"
| "accepts (n # ns) ws rest \<longleftrightarrow>
     (case send (replicate n 0) ws of (r, _, ws') \<Rightarrow> r = None \<and> accepts ns ws' rest)"

declare accepts.simps(2) [simp del]

lemma send_length:
  "length request = length request' \<Longrightarrow>
     fst (send request ws) = fst (send request' ws) \<and>
     snd (snd (send request ws)) = snd (snd (send request' ws))"
proof (induction request ws arbitrary: request' rule: send.induct)
  case (5 remaining n ws)
  have l: "length (write_some n remaining) = length (write_some n request')"
    using 5(3) by (simp add: write_some_def)
  show ?case
  proof (cases rule: send_cases [of n remaining])
    case blocked
    then have "write_some n request' = []" "request' \<noteq> []" using l 5(3) by auto
    with send_Wrote(1) [OF this] send_Wrote(1) [OF blocked] show ?thesis
      using "5.IH"(1) [OF refl conjI [OF blocked] 5(3)] by (simp del: send.simps)
  next
    case all
    then have "length (write_some n request') = length request'" using l 5(3) by simp
    with send_Wrote(2) [OF all] send_Wrote(2) [OF this] show ?thesis by (simp del: send.simps)
  next
    case some
    then have some': "write_some n request' \<noteq> []" "length (write_some n request') < length request'"
      using l 5(3) by auto
    have "length (drop (length (write_some n remaining)) remaining) =
        length (drop (length (write_some n request')) request')"
      using l 5(3) by simp
    from "5.IH"(2) [OF refl _ _ this] some show ?thesis
      unfolding send_Wrote(3) [OF some] send_Wrote(3) [OF some'] by (auto split: prod.splits)
  qed
qed simp_all

lemma accepts_append: "accepts (ms @ ns) ws rest \<longleftrightarrow> (\<exists>ws'. accepts ms ws ws' \<and> accepts ns ws' rest)"
  by (induction ms arbitrary: ws) (auto simp: accepts.simps(2) split: prod.splits)

lemma accepts_Cons: "accepts (n # ns) ws rest \<longleftrightarrow> (\<exists>ws'. accepts [n] ws ws' \<and> accepts ns ws' rest)"
  using accepts_append [of "[n]" ns] by simp

lemma accepts_Written [simp]: "accepts (n # ns) (Written # ws) rest \<longleftrightarrow> accepts ns ws rest"
  by (simp add: accepts.simps(2))

lemma accepts_all_written: "accepts ns (replicate (length ns) Written @ rest) rest"
  by (induction ns) simp_all

lemma accepts_send:
  assumes "accepts [length request] ws rest"
  shows "fst (send request ws) = None" "snd (snd (send request ws)) = rest"
  using assms send_length [of request "replicate (length request) 0" ws]
  by (auto simp: accepts.simps(2) split: prod.splits)

lemma after_write_sel [simp]:
  "is_open (after_write r s) = is_open s" "incoming (after_write r s) = incoming s"
  by (simp_all add: after_write_def after_send_def split: prod.split)

lemma after_write_accepted:
  assumes "accepts [length r] (writes s) ws"
  shows "writes (after_write r s) = ws" "concat (outgoing (after_write r s)) = concat (outgoing s) @ r"
  using accepts_send [OF assms] send_prefix [of r "writes s"]
  by (auto simp: after_write_def after_send_def split: prod.splits)

lemma do_read_closed: "\<not> is_open s \<Longrightarrow> do_read n s = (Inl Not_connected, s)"
  by (simp add: do_read_def)

lemma do_transfer_closed: "\<not> is_open s \<Longrightarrow> do_transfer request n s = (Inl Not_connected, s)"
  by (simp add: do_transfer_def)

section \<open>The interface of a byte source\<close>

text \<open>
  What the client of a connection relies on: a read returns as many bytes as were asked for,
  and two reads in a row take what one read of both sizes would take, so that message
  boundaries do not depend on how the bytes arrive.
\<close>

locale byte_source =
  fixes rd :: "nat \<Rightarrow> 's \<Rightarrow> (error_code + bytes) \<times> 's"
  assumes rd_length: "rd n s = (Inr bs, s') \<Longrightarrow> length bs = n"
    and rd_add: "rd m s = (Inr xs, s1) \<Longrightarrow> rd n s1 = (Inr ys, s2) \<Longrightarrow>
          rd (m + n) s = (Inr (xs @ ys), s2)"
    and rd_split: "rd (m + n) s = (Inr zs, s2) \<Longrightarrow>
          \<exists>s1. rd m s = (Inr (take m zs), s1) \<and> rd n s1 = (Inr (drop m zs), s2)"
begin

fun rd_parts :: "nat list \<Rightarrow> 's \<Rightarrow> (error_code + bytes list) \<times> 's" where
  "rd_parts [] s = (Inr [], s)"
| "rd_parts (n # ns) s =
     (case rd n s of
        (Inl ec, s') \<Rightarrow> (Inl ec, s')
      | (Inr bs, s') \<Rightarrow>
          (case rd_parts ns s' of
             (Inl ec, s'') \<Rightarrow> (Inl ec, s'')
           | (Inr bss, s'') \<Rightarrow> (Inr (bs # bss), s'')))"

lemma rd_parts_lengths: "rd_parts ns s = (Inr bss, s') \<Longrightarrow> map length bss = ns"
  by (induction ns arbitrary: s bss) (auto split: prod.splits sum.splits dest: rd_length)

text \<open>Reading a concatenation, part by part: what a parser of length-prefixed messages does.\<close>

lemma rd_concat: "rd (length (xs @ ys)) s = (Inr (xs @ ys), s2) \<Longrightarrow>
    \<exists>s1. rd (length xs) s = (Inr xs, s1) \<and> rd (length ys) s1 = (Inr ys, s2)"
  using rd_split [of "length xs" "length ys" s "xs @ ys" s2] by simp

lemma rd_parts_whole:
  "rd_parts ns s = (Inr bss, s') \<Longrightarrow> ns \<noteq> [] \<Longrightarrow> rd (sum_list ns) s = (Inr (concat bss), s')"
proof (induction ns arbitrary: s bss)
  case (Cons n ns)
  from Cons.prems(1) obtain bs s1 bss' where r: "rd n s = (Inr bs, s1)"
    "rd_parts ns s1 = (Inr bss', s')" "bss = bs # bss'"
    by (auto split: prod.splits sum.splits)
  show ?case
  proof (cases "ns = []")
    case False
    with r Cons.IH show ?thesis using rd_add [OF r(1)] by simp
  qed (use r in simp)
qed simp

end

lemma receive_add:
  "receive m as = (Inr xs, as1) \<Longrightarrow> receive n as1 = (Inr ys, as2) \<Longrightarrow>
     receive (m + n) as = (Inr (xs @ ys), as2)"
proof (induction m as arbitrary: xs rule: receive.induct)
  case (1 m as)
  show ?case
  proof (cases "m = 0")
    case True
    with "1.prems" show ?thesis by simp
  next
    case m: False
    with "1.prems" obtain bs as' where as: "as = Chunk bs # as'"
      by (cases as) (auto, metis arrival.exhaust prod.inject receive_simps(3,4) gr0I sum.distinct(1))
    show ?thesis
    proof (cases "m < length bs")
      case True
      with "1.prems"(1) m as have xs: "xs = take m bs" "as1 = Chunk (drop m bs) # as'" by simp_all
      show ?thesis
      proof (cases "n < length (drop m bs)")
        case n: True
        then show ?thesis
          using "1.prems"(2) m as xs by (cases "n = 0") (auto simp: take_add add.commute)
      next
        case False
        then have n: "length bs \<le> m + n" "n - length (drop m bs) = m + n - length bs" "0 < n"
          using True by auto
        obtain q r where q: "receive (m + n - length bs) as' = (q, r)" by fastforce
        have "take m bs @ drop m bs @ zs = bs @ zs" for zs by simp
        with False n q "1.prems"(2) m as xs show ?thesis
          by (auto split: sum.splits simp del: append_take_drop_id)
      qed
    next
      case False
      obtain q r where q: "receive (m - length bs) as' = (q, r)" by fastforce
      with "1.prems"(1) m as False obtain zs where z: "q = Inr zs" "xs = bs @ zs" "r = as1"
        by (auto split: sum.splits)
      then have "receive (m - length bs) as' = (Inr zs, as1)" using q by simp
      from "1.IH" [OF m as refl False this "1.prems"(2)]
      have "receive (m - length bs + n) as' = (Inr (zs @ ys), as2)" by simp
      moreover have "m - length bs + n = m + n - length bs" using False by simp
      ultimately show ?thesis using m as False z by simp
    qed
  qed
qed

lemma receive_split:
  "receive (m + n) as = (Inr zs, as2) \<Longrightarrow>
     \<exists>as1. receive m as = (Inr (take m zs), as1) \<and> receive n as1 = (Inr (drop m zs), as2)"
proof (induction m as arbitrary: zs rule: receive.induct)
  case (1 m as)
  show ?case
  proof (cases "m = 0")
    case True
    with "1.prems" show ?thesis by simp
  next
    case m: False
    with "1.prems" obtain bs as' where as: "as = Chunk bs # as'"
      by (cases as) (auto, metis arrival.exhaust prod.inject receive_simps(3,4) add_gr_0 gr0I sum.distinct(1))
    consider (inside) "m + n < length bs" | (first) "m < length bs" "length bs \<le> m + n" | (beyond) "length bs \<le> m"
      by linarith
    then show ?thesis
    proof cases
      case inside
      with "1.prems" m as show ?thesis
        by (cases "n = 0") (auto simp: add.commute take_drop)
    next
      case first
      obtain q r where q: "receive (m + n - length bs) as' = (q, r)" by fastforce
      with "1.prems" m as first obtain ys where ys: "q = Inr ys" "zs = bs @ ys" "r = as2"
        by (auto split: sum.splits)
      have n: "0 < n" "length (drop m bs) \<le> n" "n - length (drop m bs) = m + n - length bs"
        using first by auto
      then have "receive n (Chunk (drop m bs) # as') = (Inr (drop m bs @ ys), as2)"
        using q ys by simp
      with first m as ys show ?thesis by simp
    next
      case beyond
      obtain q r where q: "receive (m + n - length bs) as' = (q, r)" by fastforce
      with "1.prems" m as beyond obtain ys where ys: "q = Inr ys" "zs = bs @ ys" "r = as2"
        by (auto split: sum.splits)
      have "m - length bs + n = m + n - length bs" "\<not> m < length bs" using beyond by auto
      with "1.IH" [OF m as refl, of ys] q ys obtain as1 where
        "receive (m - length bs) as' = (Inr (take (m - length bs) ys), as1)"
        "receive n as1 = (Inr (drop (m - length bs) ys), as2)"
        by auto
      with beyond m as ys show ?thesis by auto
    qed
  qed
qed

text \<open>The script itself is a byte source, and so is a connection that is read.\<close>

interpretation script: byte_source receive
  by unfold_locales (fact receive_length receive_add receive_split)+

lemma do_read_Inr:
  "do_read n s = (Inr bs, s') \<longleftrightarrow>
     is_open s \<and> (\<exists>as. receive n (incoming s) = (Inr bs, as) \<and> s' = s\<lparr>incoming := as\<rparr>)"
  by (cases "is_open s"; cases "receive n (incoming s)") (auto simp: do_read_receive do_read_closed)

interpretation tcp: byte_source do_read
proof unfold_locales
  show "length bs = n" if "do_read n s = (Inr bs, s')" for n s bs s'
    using that script.rd_length by (auto simp: do_read_Inr)
  show "do_read (m + n) s = (Inr (xs @ ys), s2)"
    if "do_read m s = (Inr xs, s1)" "do_read n s1 = (Inr ys, s2)" for m n s xs ys s1 s2
    using that script.rd_add by (auto simp: do_read_Inr)
  show "\<exists>s1. do_read m s = (Inr (take m zs), s1) \<and> do_read n s1 = (Inr (drop m zs), s2)"
    if "do_read (m + n) s = (Inr zs, s2)" for m n s zs s2
    using that script.rd_split [of m n "incoming s" zs] by (auto simp: do_read_Inr)
qed

end
