(* ===== verification/Proto_Types.thy ===== *)
theory Proto_Types
  imports Prelude
begin

text \<open>
  \<open>src/src/proto/types.hpp\<close>: the messages of the peer protocol and their sizes. An
  enumeration over \<open>uint8_t\<close> is a datatype with its code; \<open>msg_id_of_code\<close> is
  \<open>magic_enum::enum_cast\<close>, which succeeds on the codes of the enumerators and nothing else.
\<close>

datatype msg_id =
    Choke | Unchoke | Interested | NotInterested | Have | Bitfield | Request | Piece | Cancel

primrec msg_id_code :: "msg_id \<Rightarrow> u8" where
  "msg_id_code Choke = 0"
| "msg_id_code Unchoke = 1"
| "msg_id_code Interested = 2"
| "msg_id_code NotInterested = 3"
| "msg_id_code Have = 4"
| "msg_id_code Bitfield = 5"
| "msg_id_code Request = 6"
| "msg_id_code Piece = 7"
| "msg_id_code Cancel = 8"

definition msg_id_of_code :: "u8 \<Rightarrow> msg_id option" where
  "msg_id_of_code b =
     (if b < 9
      then Some ([Choke, Unchoke, Interested, NotInterested, Have, Bitfield, Request, Piece,
                  Cancel] ! unat b)
      else None)"

lemma msg_id_of_code_code [simp]: "msg_id_of_code (msg_id_code m) = Some m"
  by (cases m) (simp_all add: msg_id_of_code_def)

lemma u8_below_9: "(b :: u8) < 9 \<Longrightarrow> b \<in> {0, 1, 2, 3, 4, 5, 6, 7, 8}"
proof -
  assume "b < 9"
  then have "unat b < 9" by (simp add: word_less_nat_alt)
  then have "unat b \<in> {0, 1, 2, 3, 4, 5, 6, 7, 8}" by (simp add: numeral_eq_Suc less_Suc_eq)
  then show ?thesis by (auto simp: word_unat_eq_iff)
qed

lemma msg_id_code_of_code: "msg_id_of_code b = Some m \<Longrightarrow> msg_id_code m = b"
  using u8_below_9 [of b] by (auto simp: msg_id_of_code_def split: if_splits)

lemma msg_id_of_code_iff: "msg_id_of_code b = Some m \<longleftrightarrow> b = msg_id_code m"
  using msg_id_code_of_code by auto

lemma msg_id_of_code_None: "msg_id_of_code b = None \<longleftrightarrow> 9 \<le> b"
  by (auto simp: msg_id_of_code_def linorder_not_less)

text \<open>The enumeration is ordered by its codes.\<close>

instantiation msg_id :: linorder
begin

definition less_eq_msg_id :: "msg_id \<Rightarrow> msg_id \<Rightarrow> bool" where
  "a \<le> b \<longleftrightarrow> msg_id_code a \<le> msg_id_code b"

definition less_msg_id :: "msg_id \<Rightarrow> msg_id \<Rightarrow> bool" where
  "a < b \<longleftrightarrow> msg_id_code a < msg_id_code b"

instance
proof
  fix a b :: msg_id
  assume "a \<le> b" "b \<le> a"
  then have "msg_id_of_code (msg_id_code a) = msg_id_of_code (msg_id_code b)"
    by (simp add: less_eq_msg_id_def)
  then show "a = b" by simp
qed (auto simp: less_eq_msg_id_def less_msg_id_def)

end

record msg_header =
  mh_id :: msg_id
  body_length :: u32

datatype proto_error =
    INCOMPLETE_MESSAGE
  | MALFORMED_MESSAGE
  | UNKNOW_MESSAGE_ID

definition MSG_HEADER_SIZE :: nat where
  "MSG_HEADER_SIZE = 5"

record peer_handshake_msg =
  hs_header :: string
  hs_reserved :: bytes
  hs_info_hash :: string
  hs_peer_id :: string

definition PEER_HANDSHAKE_SIZE :: nat where
  "PEER_HANDSHAKE_SIZE = 20 + 8 + 20 + 20"

text \<open>The protocol name and the reserved bytes are constants of the class.\<close>

definition peer_handshake :: "string \<Rightarrow> string \<Rightarrow> peer_handshake_msg" where
  "peer_handshake info_hash peer_id =
     \<lparr>hs_header = ''BitTorrent protocol'', hs_reserved = replicate 8 0,
      hs_info_hash = info_hash, hs_peer_id = peer_id\<rparr>"

record piece_msg =
  pm_index :: u64
  pm_begin :: u64
  pm_block :: bytes

definition PIECE_MIN_SIZE :: nat where
  "PIECE_MIN_SIZE = 4 + 4 + 0"

record have_msg =
  hm_index :: u64

definition HAVE_MIN_SIZE :: nat where
  "HAVE_MIN_SIZE = 4"

end
