(* ===== verification/Proto_Utils.thy ===== *)
theory Proto_Utils
  imports Prelude
begin

text \<open>
  \<open>src/src/proto/utils.hpp\<close>: a 32-bit number as four bytes, most significant first, on the
  little-endian machines the code compiles for (on a big-endian one \<open>pack_u32\<close> asserts).

  A \<open>std::span\<close> is a window on a buffer that other code owns: the model keeps the buffer, the
  offset and the size. Its subscript operator does not compare the index with the size; it
  reads the buffer at the offset plus the index, which is undefined only when that lies
  outside the buffer. So a read past the window and inside the buffer gives the byte there.
\<close>

definition pack_u32 :: "u32 \<Rightarrow> bytes" where
  "pack_u32 value =
     [ucast (drop_bit 24 value AND 0xFF), ucast (drop_bit 16 value AND 0xFF),
      ucast (drop_bit 8 value AND 0xFF), ucast (value AND 0xFF)]"

record span =
  sp_buffer :: bytes
  sp_offset :: nat
  sp_size :: nat

definition span_of :: "bytes \<Rightarrow> span" where
  "span_of bs = \<lparr>sp_buffer = bs, sp_offset = 0, sp_size = length bs\<rparr>"

definition span_at :: "span \<Rightarrow> nat \<Rightarrow> u8 result" where
  "span_at s i =
     (if sp_offset s + i < length (sp_buffer s) then Inr (sp_buffer s ! (sp_offset s + i))
      else Inl (Undefined Read_past_end))"

definition u32_of_bytes :: "u8 \<Rightarrow> u8 \<Rightarrow> u8 \<Rightarrow> u8 \<Rightarrow> u32" where
  "u32_of_bytes b0 b1 b2 b3 =
     push_bit 24 (ucast b0) OR push_bit 16 (ucast b1) OR push_bit 8 (ucast b2) OR ucast b3"

definition unpack_u32 :: "span \<Rightarrow> u32 result" where
  "unpack_u32 msg =
     (case span_at msg 0 of Inl e \<Rightarrow> Inl e | Inr b0 \<Rightarrow>
     (case span_at msg 1 of Inl e \<Rightarrow> Inl e | Inr b1 \<Rightarrow>
     (case span_at msg 2 of Inl e \<Rightarrow> Inl e | Inr b2 \<Rightarrow>
     (case span_at msg 3 of Inl e \<Rightarrow> Inl e | Inr b3 \<Rightarrow>
        Inr (u32_of_bytes b0 b1 b2 b3)))))"

lemma length_pack_u32 [simp]: "length (pack_u32 v) = 4"
  by (simp add: pack_u32_def)

lemma low_byte: "(ucast (w AND 0xFF :: u32) :: u8) = ucast w"
proof -
  have "w AND 0xFF = take_bit 8 w"
    by (simp add: take_bit_eq_mask mask_eq_exp_minus_1)
  then show ?thesis
    by (intro bit_word_eqI) (simp add: bit_simps)
qed

lemma pack_u32_ucast:
  "pack_u32 v = [ucast (drop_bit 24 v), ucast (drop_bit 16 v), ucast (drop_bit 8 v), ucast v]"
  by (simp add: pack_u32_def low_byte)

lemma u32_of_bytes_ucast:
  "u32_of_bytes (ucast (drop_bit 24 v)) (ucast (drop_bit 16 v)) (ucast (drop_bit 8 v)) (ucast v) = v"
proof (rule bit_word_eqI)
  fix n assume "n < LENGTH(32)"
  then have "n < 8 \<or> 8 \<le> n \<and> n < 16 \<or> 16 \<le> n \<and> n < 24 \<or> 24 \<le> n \<and> n < 32" by auto
  then show "bit (u32_of_bytes (ucast (drop_bit 24 v)) (ucast (drop_bit 16 v))
      (ucast (drop_bit 8 v)) (ucast v)) n = bit v n"
    by (elim disjE conjE) (auto simp: u32_of_bytes_def bit_simps)
qed

lemma bit_u8_beyond: "8 \<le> n \<Longrightarrow> \<not> bit (b :: u8) n"
  using bit_imp_le_length [of b n] by auto

lemma u32_of_bytes_parts:
  "ucast (drop_bit 24 (u32_of_bytes b0 b1 b2 b3)) = b0"
  "ucast (drop_bit 16 (u32_of_bytes b0 b1 b2 b3)) = b1"
  "ucast (drop_bit 8 (u32_of_bytes b0 b1 b2 b3)) = b2"
  "ucast (u32_of_bytes b0 b1 b2 b3) = b3"
  by (rule bit_word_eqI, simp add: u32_of_bytes_def bit_simps bit_u8_beyond)+

lemma pack_u32_of_bytes:
  "pack_u32 (u32_of_bytes b0 b1 b2 b3) = [b0, b1, b2, b3]"
  by (simp add: pack_u32_ucast u32_of_bytes_parts)

text \<open>Reading succeeds exactly when four bytes of the buffer are left at the offset.\<close>

lemma unpack_u32_window:
  "unpack_u32 \<lparr>sp_buffer = xs @ [b0, b1, b2, b3] @ ys, sp_offset = length xs, sp_size = n\<rparr> =
     Inr (u32_of_bytes b0 b1 b2 b3)"
  by (simp add: unpack_u32_def span_at_def nth_append)

lemma unpack_u32_pack:
  "unpack_u32 \<lparr>sp_buffer = xs @ pack_u32 v @ ys, sp_offset = length xs, sp_size = n\<rparr> = Inr v"
  using unpack_u32_window [of xs "ucast (drop_bit 24 v)" "ucast (drop_bit 16 v)"
      "ucast (drop_bit 8 v)" "ucast v" ys n]
  by (simp only: pack_u32_ucast u32_of_bytes_ucast)

lemma unpack_u32_ok:
  "sp_offset s + 4 \<le> length (sp_buffer s) \<Longrightarrow>
     unpack_u32 s = Inr (u32_of_bytes (sp_buffer s ! sp_offset s) (sp_buffer s ! (sp_offset s + 1))
       (sp_buffer s ! (sp_offset s + 2)) (sp_buffer s ! (sp_offset s + 3)))"
  by (simp add: unpack_u32_def span_at_def)

lemma pack_u32_inject: "pack_u32 v = pack_u32 w \<longleftrightarrow> v = w"
proof
  assume "pack_u32 v = pack_u32 w"
  then have "(Inr v :: u32 result) = Inr w"
    using unpack_u32_pack [of "[]" v "[]" 4] unpack_u32_pack [of "[]" w "[]" 4] by metis
  then show "v = w" by simp
qed simp

end
