(* ===== verification/Digits.thy ===== *)
theory Digits
  imports Prelude
begin

text \<open>
  Decimal and hexadecimal notation.

  \<open>dec_of_nat\<close> and \<open>dec_of_int\<close> are what \<open>fmt::format("{}", n)\<close> prints for an integer, and the
  reference against which the serializer's own \<open>dump_integer\<close> is proved; \<open>hex_of_bytes\<close> is
  \<open>fmt::format("{:02x}", fmt::join(v, ""))\<close> on a vector of bytes. \<open>isdigit\<close> and
  \<open>digit_value\<close> are shared by every reader of numbers (\<open>std::from_chars\<close>, \<open>std::stoull\<close>, the
  address regex).
\<close>

section \<open>Decimal digits\<close>

definition isdigit :: "char \<Rightarrow> bool" where
  "isdigit c \<longleftrightarrow> CHR ''0'' \<le> c \<and> c \<le> CHR ''9''"

definition digit_value :: "char \<Rightarrow> nat" where
  "digit_value c = of_char c - 48"

definition digit_char :: "nat \<Rightarrow> char" where
  "digit_char d = char_of (48 + d)"

lemma digit_chars:
  "digit_char 0 = CHR ''0''" "digit_char (Suc 0) = CHR ''1''" "digit_char (Suc (Suc 0)) = CHR ''2''"
  "digit_char 2 = CHR ''2''" "digit_char 3 = CHR ''3''" "digit_char 4 = CHR ''4''" "digit_char 5 = CHR ''5''"
  "digit_char 6 = CHR ''6''" "digit_char 7 = CHR ''7''" "digit_char 8 = CHR ''8''" "digit_char 9 = CHR ''9''"
  by code_simp+

lemma isdigit_of_char: "isdigit c \<longleftrightarrow> 48 \<le> (of_char c :: nat) \<and> (of_char c :: nat) \<le> 57"
  by (simp add: isdigit_def less_eq_char_def)

lemma of_char_digit_char: "d < 10 \<Longrightarrow> of_char (digit_char d) = 48 + d"
  by (simp add: digit_char_def)

lemma isdigit_digit_char [simp]: "d < 10 \<Longrightarrow> isdigit (digit_char d)"
  by (simp add: isdigit_of_char of_char_digit_char)

lemma digit_value_digit_char [simp]: "d < 10 \<Longrightarrow> digit_value (digit_char d) = d"
  by (simp add: digit_value_def of_char_digit_char)

lemma digit_value_less [simp]: "isdigit c \<Longrightarrow> digit_value c < 10"
  by (auto simp: isdigit_of_char digit_value_def)

lemma digit_char_digit_value [simp]: "isdigit c \<Longrightarrow> digit_char (digit_value c) = c"
  by (simp add: isdigit_of_char digit_value_def digit_char_def)

text \<open>White space in the C locale.\<close>

definition isspace :: "char \<Rightarrow> bool" where
  "isspace c \<longleftrightarrow> c = CHR '' '' \<or> (9 \<le> (of_char c :: nat) \<and> (of_char c :: nat) \<le> 13)"

text \<open>The value a run of digits denotes, most significant first.\<close>

definition digits_value :: "string \<Rightarrow> nat" where
  "digits_value s = foldl (\<lambda>n c. 10 * n + digit_value c) 0 s"

lemma digits_value_Nil [simp]: "digits_value [] = 0"
  by (simp add: digits_value_def)

lemma digits_value_snoc [simp]: "digits_value (s @ [c]) = 10 * digits_value s + digit_value c"
  by (simp add: digits_value_def)

function dec_of_nat :: "nat \<Rightarrow> string" where
  "dec_of_nat n =
     (if n < 10 then [digit_char n] else dec_of_nat (n div 10) @ [digit_char (n mod 10)])"
  by pat_completeness auto
termination
  by (relation "measure id") auto

declare dec_of_nat.simps [simp del]

lemma dec_of_nat_small: "n < 10 \<Longrightarrow> dec_of_nat n = [digit_char n]"
  by (simp add: dec_of_nat.simps)

lemma dec_of_nat_step: "10 \<le> n \<Longrightarrow> dec_of_nat n = dec_of_nat (n div 10) @ [digit_char (n mod 10)]"
  by (subst dec_of_nat.simps) simp

lemma dec_of_nat_nonempty [simp]: "dec_of_nat n \<noteq> []"
  by (subst dec_of_nat.simps) simp

lemma dec_of_nat_isdigit: "c \<in> set (dec_of_nat n) \<Longrightarrow> isdigit c"
proof (induction n rule: dec_of_nat.induct)
  case (1 n)
  then show ?case
    by (cases "n < 10") (auto simp: dec_of_nat_small dec_of_nat_step)
qed

lemma dec_of_nat_all_digits [simp]: "list_all isdigit (dec_of_nat n)"
  by (simp add: list_all_iff dec_of_nat_isdigit)

lemma digits_value_dec_of_nat [simp]: "digits_value (dec_of_nat n) = n"
proof (induction n rule: dec_of_nat.induct)
  case (1 n)
  show ?case
  proof (cases "n < 10")
    case True
    then show ?thesis
      using digits_value_snoc [of "[]" "digit_char n"] by (simp add: dec_of_nat_small)
  next
    case False
    with "1.IH" show ?thesis by (simp add: dec_of_nat_step)
  qed
qed

lemma dec_of_nat_inject [simp]: "dec_of_nat m = dec_of_nat n \<longleftrightarrow> m = n"
  by (metis digits_value_dec_of_nat)

lemma hd_dec_of_nat_isdigit [simp]: "isdigit (hd (dec_of_nat n))"
  by (rule dec_of_nat_isdigit [of _ n]) simp

definition dec_of_int :: "int \<Rightarrow> string" where
  "dec_of_int i = (if i < 0 then CHR ''-'' # dec_of_nat (nat (- i)) else dec_of_nat (nat i))"

lemma dec_of_int_nonempty [simp]: "dec_of_int i \<noteq> []"
  by (simp add: dec_of_int_def)

section \<open>Hexadecimal\<close>

definition hex_digit :: "nat \<Rightarrow> char" where
  "hex_digit d = (if d < 10 then char_of (48 + d) else char_of (87 + d))"

definition hex_of_byte :: "u8 \<Rightarrow> string" where
  "hex_of_byte b = [hex_digit (unat b div 16), hex_digit (unat b mod 16)]"

definition hex_of_bytes :: "bytes \<Rightarrow> string" where
  "hex_of_bytes bs = concat (map hex_of_byte bs)"

lemma hex_of_bytes_Nil [simp]: "hex_of_bytes [] = []"
  by (simp add: hex_of_bytes_def)

lemma hex_of_bytes_Cons: "hex_of_bytes (b # bs) = hex_of_byte b @ hex_of_bytes bs"
  by (simp add: hex_of_bytes_def)

lemma hex_of_bytes_append: "hex_of_bytes (xs @ ys) = hex_of_bytes xs @ hex_of_bytes ys"
  by (simp add: hex_of_bytes_def)

lemma length_hex_of_bytes [simp]: "length (hex_of_bytes bs) = 2 * length bs"
  by (induction bs) (simp_all add: hex_of_bytes_Cons hex_of_byte_def)

definition is_lower_hex :: "char \<Rightarrow> bool" where
  "is_lower_hex c \<longleftrightarrow> isdigit c \<or> (CHR ''a'' \<le> c \<and> c \<le> CHR ''f'')"

definition lower_hex_value :: "char \<Rightarrow> nat" where
  "lower_hex_value c = (if isdigit c then of_char c - 48 else of_char c - 87)"

lemma is_lower_hex_of_char:
  "is_lower_hex c \<longleftrightarrow>
     (48 \<le> (of_char c :: nat) \<and> (of_char c :: nat) \<le> 57) \<or>
     (97 \<le> (of_char c :: nat) \<and> (of_char c :: nat) \<le> 102)"
  by (simp add: is_lower_hex_def isdigit_of_char less_eq_char_def)

lemma of_char_hex_digit: "d < 16 \<Longrightarrow> of_char (hex_digit d) = (if d < 10 then 48 + d else 87 + d)"
  by (simp add: hex_digit_def)

lemma is_lower_hex_hex_digit [simp]: "d < 16 \<Longrightarrow> is_lower_hex (hex_digit d)"
  by (auto simp: is_lower_hex_of_char of_char_hex_digit)

lemma lower_hex_value_hex_digit [simp]: "d < 16 \<Longrightarrow> lower_hex_value (hex_digit d) = d"
  by (auto simp: lower_hex_value_def isdigit_of_char of_char_hex_digit)

lemma hex_digit_lower_hex_value [simp]: "is_lower_hex c \<Longrightarrow> hex_digit (lower_hex_value c) = c"
  by (auto simp: is_lower_hex_of_char lower_hex_value_def isdigit_of_char hex_digit_def)

lemma lower_hex_value_less [simp]: "is_lower_hex c \<Longrightarrow> lower_hex_value c < 16"
  by (auto simp: is_lower_hex_of_char lower_hex_value_def isdigit_of_char)

lemma unat_u8_less [simp]: "unat (b :: u8) < 256"
  using unsigned_less [of b] by simp

lemma high_nibble_less [simp]: "unat (b :: u8) div 16 < 16"
  using unat_u8_less [of b] by (simp add: div_less_iff_less_mult)

lemma hex_of_byte_lower: "c \<in> set (hex_of_byte b) \<Longrightarrow> is_lower_hex c"
  by (auto simp: hex_of_byte_def)

lemma hex_of_bytes_lower: "c \<in> set (hex_of_bytes bs) \<Longrightarrow> is_lower_hex c"
  by (induction bs) (auto simp: hex_of_bytes_Cons hex_of_byte_lower)

lemma hex_of_byte_inject: "hex_of_byte a = hex_of_byte b \<longleftrightarrow> a = b"
proof
  assume eq: "hex_of_byte a = hex_of_byte b"
  from eq have "lower_hex_value (hex_digit (unat a div 16)) = lower_hex_value (hex_digit (unat b div 16))"
    and "lower_hex_value (hex_digit (unat a mod 16)) = lower_hex_value (hex_digit (unat b mod 16))"
    by (simp_all add: hex_of_byte_def)
  then have "unat a div 16 = unat b div 16" "unat a mod 16 = unat b mod 16"
    by simp_all
  then have "unat a = unat b" by (metis div_mod_decomp)
  then show "a = b" by (simp add: word_unat_eq_iff)
qed simp

lemma hex_of_bytes_inject: "hex_of_bytes xs = hex_of_bytes ys \<longleftrightarrow> xs = ys"
proof
  assume "hex_of_bytes xs = hex_of_bytes ys"
  then show "xs = ys"
  proof (induction xs arbitrary: ys)
    case Nil
    then have "length (hex_of_bytes ys) = 0" by simp
    then show ?case by simp
  next
    case (Cons x xs)
    then have "length (hex_of_bytes ys) \<noteq> 0" by (metis length_hex_of_bytes list.size(4) mult_eq_0_iff nat.simps(3) numeral_2_eq_2 add_is_0 Suc_eq_plus1)
    then obtain z zs where ys: "ys = z # zs" by (cases ys) simp_all
    with Cons.prems have "hex_of_byte x = hex_of_byte z" "hex_of_bytes xs = hex_of_bytes zs"
      by (simp_all add: hex_of_bytes_Cons hex_of_byte_def)
    with Cons.IH ys show ?case by (simp add: hex_of_byte_inject)
  qed
qed simp

end
