(* ===== verification/Sha1.thy ===== *)
theory Sha1
  imports Proto_Utils Digits
begin

text \<open>
  \<open>src/src/misc/sha1.hpp\<close>: the class \<open>SHA1\<close> and its free functions.

  The code keeps a digest of five words, a buffer of at most 64 characters and a count of the
  blocks it has hashed. \<open>transform\<close> is 80 unrolled calls of five round functions on five
  working variables that swap their roles from call to call, over a block of 16 words that
  is overwritten in place. The model keeps that shape: the calls are a literal table,
  \<open>transform_calls\<close>, that names the variables as the code does.

  The reference is the definition of FIPS 180-4: a message schedule of 80 words, the three
  round functions in their textbook form, the variables shifted by one in every round, and
  the message padded as a whole before it is cut into blocks. The lemmas show that
  \<open>transform\<close> is the compression function, that \<open>update\<close> can be called on the pieces of a
  message in turn, and that \<open>final\<close> returns the hash of everything the object was given, in
  lower-case hexadecimal, and leaves it as a fresh object.
\<close>

section \<open>The state\<close>

record sha1 =
  digest :: "u32 list"
  buffer :: string
  transforms :: u64

definition sha1_reset :: "sha1" where
  "sha1_reset =
     \<lparr>digest = [0x67452301, 0xefcdab89, 0x98badcfe, 0x10325476, 0xc3d2e1f0],
      buffer = [], transforms = 0\<rparr>"

section \<open>The round functions\<close>

definition rol :: "u32 \<Rightarrow> nat \<Rightarrow> u32" where
  "rol value bits = push_bit bits value OR drop_bit (32 - bits) value"

definition blk :: "u32 list \<Rightarrow> nat \<Rightarrow> u32" where
  "blk block i =
     rol (block ! ((i + 13) AND 15) XOR block ! ((i + 8) AND 15) XOR block ! ((i + 2) AND 15)
          XOR block ! i) 1"

text \<open>A round function returns what it assigns: the block, \<open>w\<close> and \<open>z\<close>.\<close>

definition R0 :: "u32 list \<Rightarrow> u32 \<Rightarrow> u32 \<Rightarrow> u32 \<Rightarrow> u32 \<Rightarrow> u32 \<Rightarrow> nat \<Rightarrow> u32 list \<times> u32 \<times> u32" where
  "R0 block v w x y z i =
     (block, rol w 30,
      z + (((w AND (x XOR y)) XOR y) + block ! i + 0x5a827999 + rol v 5))"

definition R1 :: "u32 list \<Rightarrow> u32 \<Rightarrow> u32 \<Rightarrow> u32 \<Rightarrow> u32 \<Rightarrow> u32 \<Rightarrow> nat \<Rightarrow> u32 list \<times> u32 \<times> u32" where
  "R1 block v w x y z i =
     (let block = block[i := blk block i] in
      (block, rol w 30,
       z + (((w AND (x XOR y)) XOR y) + block ! i + 0x5a827999 + rol v 5)))"

definition R2 :: "u32 list \<Rightarrow> u32 \<Rightarrow> u32 \<Rightarrow> u32 \<Rightarrow> u32 \<Rightarrow> u32 \<Rightarrow> nat \<Rightarrow> u32 list \<times> u32 \<times> u32" where
  "R2 block v w x y z i =
     (let block = block[i := blk block i] in
      (block, rol w 30, z + ((w XOR x XOR y) + block ! i + 0x6ed9eba1 + rol v 5)))"

definition R3 :: "u32 list \<Rightarrow> u32 \<Rightarrow> u32 \<Rightarrow> u32 \<Rightarrow> u32 \<Rightarrow> u32 \<Rightarrow> nat \<Rightarrow> u32 list \<times> u32 \<times> u32" where
  "R3 block v w x y z i =
     (let block = block[i := blk block i] in
      (block, rol w 30,
       z + ((((w OR x) AND y) OR (w AND x)) + block ! i + 0x8f1bbcdc + rol v 5)))"

definition R4 :: "u32 list \<Rightarrow> u32 \<Rightarrow> u32 \<Rightarrow> u32 \<Rightarrow> u32 \<Rightarrow> u32 \<Rightarrow> nat \<Rightarrow> u32 list \<times> u32 \<times> u32" where
  "R4 block v w x y z i =
     (let block = block[i := blk block i] in
      (block, rol w 30, z + ((w XOR x XOR y) + block ! i + 0xca62c1d6 + rol v 5)))"

section \<open>The transform\<close>

text \<open>The working variables \<open>a\<close> to \<open>e\<close>, and the calls in the order of the code.\<close>

datatype reg = RA | RB | RC | RD | RE

primrec reg_index :: "reg \<Rightarrow> nat" where
  "reg_index RA = 0"
| "reg_index RB = 1"
| "reg_index RC = 2"
| "reg_index RD = 3"
| "reg_index RE = 4"

type_synonym round_call =
  "(u32 list \<Rightarrow> u32 \<Rightarrow> u32 \<Rightarrow> u32 \<Rightarrow> u32 \<Rightarrow> u32 \<Rightarrow> nat \<Rightarrow> u32 list \<times> u32 \<times> u32)
     \<times> reg \<times> reg \<times> reg \<times> reg \<times> reg \<times> nat"

definition transform_calls :: "round_call list" where
  "transform_calls =
    [(R0, RA, RB, RC, RD, RE, 0), (R0, RE, RA, RB, RC, RD, 1),
     (R0, RD, RE, RA, RB, RC, 2), (R0, RC, RD, RE, RA, RB, 3),
     (R0, RB, RC, RD, RE, RA, 4), (R0, RA, RB, RC, RD, RE, 5),
     (R0, RE, RA, RB, RC, RD, 6), (R0, RD, RE, RA, RB, RC, 7),
     (R0, RC, RD, RE, RA, RB, 8), (R0, RB, RC, RD, RE, RA, 9),
     (R0, RA, RB, RC, RD, RE, 10), (R0, RE, RA, RB, RC, RD, 11),
     (R0, RD, RE, RA, RB, RC, 12), (R0, RC, RD, RE, RA, RB, 13),
     (R0, RB, RC, RD, RE, RA, 14), (R0, RA, RB, RC, RD, RE, 15),
     (R1, RE, RA, RB, RC, RD, 0), (R1, RD, RE, RA, RB, RC, 1),
     (R1, RC, RD, RE, RA, RB, 2), (R1, RB, RC, RD, RE, RA, 3),
     (R2, RA, RB, RC, RD, RE, 4), (R2, RE, RA, RB, RC, RD, 5),
     (R2, RD, RE, RA, RB, RC, 6), (R2, RC, RD, RE, RA, RB, 7),
     (R2, RB, RC, RD, RE, RA, 8), (R2, RA, RB, RC, RD, RE, 9),
     (R2, RE, RA, RB, RC, RD, 10), (R2, RD, RE, RA, RB, RC, 11),
     (R2, RC, RD, RE, RA, RB, 12), (R2, RB, RC, RD, RE, RA, 13),
     (R2, RA, RB, RC, RD, RE, 14), (R2, RE, RA, RB, RC, RD, 15),
     (R2, RD, RE, RA, RB, RC, 0), (R2, RC, RD, RE, RA, RB, 1),
     (R2, RB, RC, RD, RE, RA, 2), (R2, RA, RB, RC, RD, RE, 3),
     (R2, RE, RA, RB, RC, RD, 4), (R2, RD, RE, RA, RB, RC, 5),
     (R2, RC, RD, RE, RA, RB, 6), (R2, RB, RC, RD, RE, RA, 7),
     (R3, RA, RB, RC, RD, RE, 8), (R3, RE, RA, RB, RC, RD, 9),
     (R3, RD, RE, RA, RB, RC, 10), (R3, RC, RD, RE, RA, RB, 11),
     (R3, RB, RC, RD, RE, RA, 12), (R3, RA, RB, RC, RD, RE, 13),
     (R3, RE, RA, RB, RC, RD, 14), (R3, RD, RE, RA, RB, RC, 15),
     (R3, RC, RD, RE, RA, RB, 0), (R3, RB, RC, RD, RE, RA, 1),
     (R3, RA, RB, RC, RD, RE, 2), (R3, RE, RA, RB, RC, RD, 3),
     (R3, RD, RE, RA, RB, RC, 4), (R3, RC, RD, RE, RA, RB, 5),
     (R3, RB, RC, RD, RE, RA, 6), (R3, RA, RB, RC, RD, RE, 7),
     (R3, RE, RA, RB, RC, RD, 8), (R3, RD, RE, RA, RB, RC, 9),
     (R3, RC, RD, RE, RA, RB, 10), (R3, RB, RC, RD, RE, RA, 11),
     (R4, RA, RB, RC, RD, RE, 12), (R4, RE, RA, RB, RC, RD, 13),
     (R4, RD, RE, RA, RB, RC, 14), (R4, RC, RD, RE, RA, RB, 15),
     (R4, RB, RC, RD, RE, RA, 0), (R4, RA, RB, RC, RD, RE, 1),
     (R4, RE, RA, RB, RC, RD, 2), (R4, RD, RE, RA, RB, RC, 3),
     (R4, RC, RD, RE, RA, RB, 4), (R4, RB, RC, RD, RE, RA, 5),
     (R4, RA, RB, RC, RD, RE, 6), (R4, RE, RA, RB, RC, RD, 7),
     (R4, RD, RE, RA, RB, RC, 8), (R4, RC, RD, RE, RA, RB, 9),
     (R4, RB, RC, RD, RE, RA, 10), (R4, RA, RB, RC, RD, RE, 11),
     (R4, RE, RA, RB, RC, RD, 12), (R4, RD, RE, RA, RB, RC, 13),
     (R4, RC, RD, RE, RA, RB, 14), (R4, RB, RC, RD, RE, RA, 15)]"

fun run_call :: "u32 list \<times> u32 list \<Rightarrow> round_call \<Rightarrow> u32 list \<times> u32 list" where
  "run_call (block, regs) (R, v, w, x, y, z, i) =
     (let (block', w', z') = R block (regs ! reg_index v) (regs ! reg_index w)
            (regs ! reg_index x) (regs ! reg_index y) (regs ! reg_index z) i
      in (block', regs[reg_index z := z', reg_index w := w']))"

definition transform :: "sha1 \<Rightarrow> u32 list \<Rightarrow> sha1" where
  "transform s block =
     (let (_, regs) = foldl run_call (block, digest s) transform_calls
      in s\<lparr>digest := map2 (+) (digest s) regs, transforms := transforms s + 1\<rparr>)"

section \<open>Feeding a message\<close>

definition buffer_to_block :: "string \<Rightarrow> u32 list" where
  "buffer_to_block buf =
     map (\<lambda>i. ucast (byte_of_char (buf ! (4 * i + 3))) OR
              push_bit 8 (ucast (byte_of_char (buf ! (4 * i + 2)))) OR
              push_bit 16 (ucast (byte_of_char (buf ! (4 * i + 1)))) OR
              push_bit 24 (ucast (byte_of_char (buf ! (4 * i + 0))))) [0..<16]"

text \<open>
  \<open>update\<close> on a stream: \<open>is\<close> is what the stream still holds, and \<open>read\<close> takes at most the
  characters that fill the buffer. The overloads on a string read it as a stream.
\<close>

function update :: "sha1 \<Rightarrow> string \<Rightarrow> sha1" where
  "update s is =
     (let n = 64 - length (buffer s);
          s = s\<lparr>buffer := buffer s @ take n is\<rparr>
      in if length (buffer s) \<noteq> 64 then s
         else update ((transform s (buffer_to_block (buffer s)))\<lparr>buffer := []\<rparr>) (drop n is))"
  by pat_completeness auto
termination
  by (relation "measure (\<lambda>(s, is). 2 * length is + length (buffer s))") auto

declare update.simps [simp del]

section \<open>The result\<close>

function hex_of_nat :: "nat \<Rightarrow> string" where
  "hex_of_nat n = (if n < 16 then [hex_digit n] else hex_of_nat (n div 16) @ [hex_digit (n mod 16)])"
  by pat_completeness auto
termination
  by (relation "measure id") auto

declare hex_of_nat.simps [simp del]

definition setw0 :: "nat \<Rightarrow> string \<Rightarrow> string" where
  "setw0 n s = replicate (n - length s) CHR ''0'' @ s"

definition final :: "sha1 \<Rightarrow> string \<times> sha1" where
  "final s =
     (let total_bits = (transforms s * 64 + of_nat (length (buffer s))) * 8;
          buf = buffer s @ [CHR 0x80];
          orig_size = length buf;
          buf = buf @ replicate (64 - length buf) (CHR 0x00);
          s = s\<lparr>buffer := buf\<rparr>;
          block = buffer_to_block buf;
          (s, block) = (if 56 < orig_size
            then (transform s block, foldl (\<lambda>b i. b[i := 0]) block [0..<14]) else (s, block));
          block = block[15 := ucast total_bits];
          block = block[14 := ucast (drop_bit 32 total_bits :: u64)];
          s = transform s block;
          out = concat (map (\<lambda>d. setw0 8 (hex_of_nat (unat d))) (digest s))
      in (out, sha1_reset))"

text \<open>\<open>from_file\<close>, given what the file holds (an unreadable file reads as empty).\<close>

definition from_file :: "string \<Rightarrow> string" where
  "from_file content = fst (final (update sha1_reset content))"

section \<open>Reference: the compression function of FIPS 180-4\<close>

definition fips_ch :: "u32 \<Rightarrow> u32 \<Rightarrow> u32 \<Rightarrow> u32" where
  "fips_ch x y z = (x AND y) XOR (NOT x AND z)"

definition fips_parity :: "u32 \<Rightarrow> u32 \<Rightarrow> u32 \<Rightarrow> u32" where
  "fips_parity x y z = x XOR y XOR z"

definition fips_maj :: "u32 \<Rightarrow> u32 \<Rightarrow> u32 \<Rightarrow> u32" where
  "fips_maj x y z = (x AND y) XOR (x AND z) XOR (y AND z)"

definition fips_f :: "nat \<Rightarrow> u32 \<Rightarrow> u32 \<Rightarrow> u32 \<Rightarrow> u32" where
  "fips_f t = (if t < 20 then fips_ch else if t < 40 then fips_parity
               else if t < 60 then fips_maj else fips_parity)"

definition fips_K :: "nat \<Rightarrow> u32" where
  "fips_K t = (if t < 20 then 0x5a827999 else if t < 40 then 0x6ed9eba1
               else if t < 60 then 0x8f1bbcdc else 0xca62c1d6)"

definition schedule_step :: "u32 list \<Rightarrow> u32 list" where
  "schedule_step ws =
     (let t = length ws in
      ws @ [rol (ws ! (t - 3) XOR ws ! (t - 8) XOR ws ! (t - 14) XOR ws ! (t - 16)) 1])"

definition fips_schedule :: "u32 list \<Rightarrow> u32 list" where
  "fips_schedule block = (schedule_step ^^ 64) block"

type_synonym working = "u32 \<times> u32 \<times> u32 \<times> u32 \<times> u32"

fun fips_round :: "u32 list \<Rightarrow> working \<Rightarrow> nat \<Rightarrow> working" where
  "fips_round W (a, b, c, d, e) t =
     (rol a 5 + fips_f t b c d + e + fips_K t + W ! t, a, rol b 30, c, d)"

definition fips_compress :: "u32 list \<Rightarrow> u32 list \<Rightarrow> u32 list" where
  "fips_compress H block =
     (let (a, b, c, d, e) = foldl (fips_round (fips_schedule block))
            (H ! 0, H ! 1, H ! 2, H ! 3, H ! 4) [0..<80]
      in [H ! 0 + a, H ! 1 + b, H ! 2 + c, H ! 3 + d, H ! 4 + e])"

subsection \<open>The schedule\<close>

lemma length_schedule_iter [simp]: "length ((schedule_step ^^ n) ws) = length ws + n"
  by (induction n) (simp_all add: schedule_step_def Let_def)

lemma schedule_step_old: "t < length ws \<Longrightarrow> schedule_step ws ! t = ws ! t"
  by (simp add: schedule_step_def Let_def nth_append)

lemma schedule_step_new:
  "schedule_step ws ! length ws =
     rol (ws ! (length ws - 3) XOR ws ! (length ws - 8) XOR ws ! (length ws - 14) XOR
          ws ! (length ws - 16)) 1"
  by (simp add: schedule_step_def Let_def)

lemma schedule_iter_stable:
  "t < length ws + n \<Longrightarrow> (schedule_step ^^ (n + k)) ws ! t = (schedule_step ^^ n) ws ! t"
  by (induction k) (simp_all add: schedule_step_old)

lemma length_fips_schedule [simp]: "length (fips_schedule block) = length block + 64"
  by (simp add: fips_schedule_def)

lemma fips_schedule_start: "t < length block \<Longrightarrow> fips_schedule block ! t = block ! t"
  using schedule_iter_stable [of t block 0 64] by (simp add: fips_schedule_def)

lemma fips_schedule_step:
  assumes "length block = 16" "16 \<le> t" "t < 80"
  shows "fips_schedule block ! t =
    rol (fips_schedule block ! (t - 3) XOR fips_schedule block ! (t - 8) XOR
         fips_schedule block ! (t - 14) XOR fips_schedule block ! (t - 16)) 1"
proof -
  let ?S = "\<lambda>n. (schedule_step ^^ n) block"
  have at: "fips_schedule block ! u = ?S (t - 16) ! u" if "u < t" for u
    using schedule_iter_stable [of u block "t - 16" "80 - t"] that assms
    by (simp add: fips_schedule_def)
  have "fips_schedule block ! t = ?S (Suc (t - 16)) ! t"
    using schedule_iter_stable [of t block "Suc (t - 16)" "79 - t"] assms
    by (simp add: fips_schedule_def)
  also have "\<dots> = rol (?S (t - 16) ! (t - 3) XOR ?S (t - 16) ! (t - 8) XOR
      ?S (t - 16) ! (t - 14) XOR ?S (t - 16) ! (t - 16)) 1"
    using assms schedule_step_new [of "?S (t - 16)"] by simp
  finally show ?thesis
    using assms by (simp add: at)
qed

subsection \<open>The calls follow the rounds\<close>

definition reg_at :: "nat \<Rightarrow> reg" where
  "reg_at n = [RA, RB, RC, RD, RE] ! (n mod 5)"

definition round_at ::
  "nat \<Rightarrow> u32 list \<Rightarrow> u32 \<Rightarrow> u32 \<Rightarrow> u32 \<Rightarrow> u32 \<Rightarrow> u32 \<Rightarrow> nat \<Rightarrow> u32 list \<times> u32 \<times> u32" where
  "round_at t = (if t < 16 then R0 else if t < 20 then R1 else if t < 40 then R2
                 else if t < 60 then R3 else R4)"

definition call_at :: "nat \<Rightarrow> round_call" where
  "call_at t = (round_at t, reg_at (4 * t), reg_at (4 * t + 1), reg_at (4 * t + 2),
                reg_at (4 * t + 3), reg_at (4 * t + 4), t mod 16)"

lemma transform_calls_at: "transform_calls = map call_at [0..<80]"
  by (simp add: transform_calls_def upt_rec call_at_def round_at_def reg_at_def)

lemma nat_and_15: "n AND 15 = n mod (16 :: nat)"
  using take_bit_eq_mask [of 4 n] by (simp add: mask_eq_exp_minus_1 take_bit_eq_mod)

text \<open>The round functions in their cheaper form are the textbook ones.\<close>

lemma ch_cheap: "((w AND (x XOR y)) XOR y) = fips_ch w x y"
  by (rule bit_word_eqI) (auto simp: fips_ch_def bit_simps)

lemma maj_cheap: "(((w OR x) AND y) OR (w AND x)) = fips_maj w x y"
  by (rule bit_word_eqI) (auto simp: fips_maj_def bit_simps)

lemma mod_window_inj:
  "i < j + m \<Longrightarrow> j < i + m \<Longrightarrow> i mod m = j mod m \<longleftrightarrow> i = (j :: nat)"
proof (induction i j rule: linorder_wlog)
  case (le i j)
  then show ?case
    using mod_eq_dvd_iff_nat [of i j m] by (auto dest: dvd_imp_le)
qed auto

lemma mod_back:
  assumes "d + e = m" "m \<le> t"
  shows "(t mod m + e) mod m = (t - d) mod (m :: nat)"
proof -
  have "(t mod m + e) mod m = (t + e) mod m"
    by (rule mod_add_left_eq)
  also have "t + e = (t - d) + m"
    using assms by simp
  finally show ?thesis by simp
qed

lemma mod_shift_ne: "i < m \<Longrightarrow> j < m \<Longrightarrow> i \<noteq> j \<Longrightarrow> (n + i) mod m \<noteq> (n + j) mod (m :: nat)"
  using mod_window_inj [of "n + i" "n + j" m] by simp

lemma mod_shift_ne0: "i < m \<Longrightarrow> i \<noteq> 0 \<Longrightarrow> (n + i) mod m \<noteq> n mod (m :: nat)"
  using mod_shift_ne [of i m 0 n] by simp

text \<open>
  The 16 words of the block are a window on the schedule: before round \<open>t\<close> they hold the
  words \<open>t - 16\<close> to \<open>t - 1\<close> (the first 16, while \<open>t\<close> is below 16).
\<close>

definition window :: "u32 list \<Rightarrow> nat \<Rightarrow> u32 list \<Rightarrow> bool" where
  "window W t block \<longleftrightarrow> length block = 16 \<and>
     (\<forall>u. t \<le> u + 16 \<longrightarrow> u < max t 16 \<longrightarrow> block ! (u mod 16) = W ! u)"

lemma window_at: "window W t block \<Longrightarrow> t \<le> u + 16 \<Longrightarrow> u < max t 16 \<Longrightarrow> block ! (u mod 16) = W ! u"
  by (auto simp: window_def)

lemma window_blk:
  assumes "window (fips_schedule M) t block" "length M = 16" "16 \<le> t" "t < 80"
  shows "blk block (t mod 16) = fips_schedule M ! t"
proof -
  have idx: "(t mod 16 + 13) mod 16 = (t - 3) mod 16" "(t mod 16 + 8) mod 16 = (t - 8) mod 16"
    "(t mod 16 + 2) mod 16 = (t - 14) mod 16"
    by (rule mod_back; use assms(3) in simp)+
  have idx0: "t mod 16 = (t - 16) mod 16"
    by (rule le_mod_geq [OF assms(3)])
  have "block ! ((t - 3) mod 16) = fips_schedule M ! (t - 3)"
    "block ! ((t - 8) mod 16) = fips_schedule M ! (t - 8)"
    "block ! ((t - 14) mod 16) = fips_schedule M ! (t - 14)"
    "block ! ((t - 16) mod 16) = fips_schedule M ! (t - 16)"
    by (rule window_at [OF assms(1)]; use assms(3) in simp)+
  then show ?thesis
    unfolding blk_def nat_and_15 mod_mod_trivial idx using assms idx0
    by (simp add: fips_schedule_step)
qed

lemma window_step:
  assumes "window W t block" "16 \<le> t"
  shows "window W (Suc t) (block[t mod 16 := W ! t])"
  unfolding window_def
proof (intro conjI allI impI)
  show "length (block[t mod 16 := W ! t]) = 16" using assms by (simp add: window_def)
  fix u assume u: "Suc t \<le> u + 16" "u < max (Suc t) 16"
  show "block[t mod 16 := W ! t] ! (u mod 16) = W ! u"
  proof (cases "u = t")
    case True
    then show ?thesis using assms by (simp add: window_def)
  next
    case False
    then have "t mod 16 \<noteq> u mod 16"
      using u assms(2) mod_window_inj [of t u 16] by simp
    then show ?thesis using window_at [OF assms(1), of u] False u assms(2) by simp
  qed
qed

lemma window_early: "window W t block \<Longrightarrow> t < 16 \<Longrightarrow> window W (Suc t) block"
  by (auto simp: window_def)

lemma round_at_fips:
  assumes win: "window (fips_schedule M) t block" and M: "length M = 16" and t: "t < 80"
  shows "\<exists>block'. round_at t block v w x y z (t mod 16) =
      (block', rol w 30, rol v 5 + fips_f t w x y + z + fips_K t + fips_schedule M ! t) \<and>
    window (fips_schedule M) (Suc t) block'"
proof (cases "t < 16")
  case True
  have "block ! t = fips_schedule M ! t"
    using window_at [OF win, of t] True by simp
  then show ?thesis
    using True window_early [OF win]
    by (simp add: round_at_def R0_def ch_cheap fips_f_def fips_K_def algebra_simps)
next
  case False
  let ?b = "block[t mod 16 := fips_schedule M ! t]"
  have blk: "blk block (t mod 16) = fips_schedule M ! t"
    using window_blk [OF win M] False t by simp
  have at: "?b ! (t mod 16) = fips_schedule M ! t"
    using win by (simp add: window_def)
  have "window (fips_schedule M) (Suc t) ?b"
    using window_step [OF win] False by simp
  then show ?thesis
    using False blk at
    by (simp add: round_at_def R1_def R2_def R3_def R4_def Let_def ch_cheap maj_cheap
        fips_f_def fips_K_def fips_parity_def algebra_simps)
qed

definition follows :: "u32 list \<Rightarrow> nat \<Rightarrow> u32 list \<times> u32 list \<Rightarrow> working \<Rightarrow> bool" where
  "follows W t st fips =
     (case (st, fips) of ((block, regs), (a, b, c, d, e)) \<Rightarrow>
        window W t block \<and> length regs = 5 \<and>
        regs ! reg_index (reg_at (4 * t)) = a \<and> regs ! reg_index (reg_at (4 * t + 1)) = b \<and>
        regs ! reg_index (reg_at (4 * t + 2)) = c \<and> regs ! reg_index (reg_at (4 * t + 3)) = d \<and>
        regs ! reg_index (reg_at (4 * t + 4)) = e)"

lemma reg_index_at: "reg_index (reg_at n) = n mod 5"
proof -
  have "n mod 5 = 0 \<or> n mod 5 = 1 \<or> n mod 5 = 2 \<or> n mod 5 = 3 \<or> n mod 5 = 4" by presburger
  then show ?thesis by (auto simp: reg_at_def)
qed

lemma follows_step:
  assumes "follows (fips_schedule M) t st fips" "length M = 16" "t < 80"
  shows "follows (fips_schedule M) (Suc t) (run_call st (call_at t))
    (fips_round (fips_schedule M) fips t)"
proof -
  obtain block regs where st: "st = (block, regs)" by (cases st)
  obtain a b c d e where fips: "fips = (a, b, c, d, e)" by (cases fips)
  from assms(1) have win: "window (fips_schedule M) t block" and len: "length regs = 5"
    and at: "regs ! (4 * t mod 5) = a" "regs ! ((4 * t + 1) mod 5) = b"
      "regs ! ((4 * t + 2) mod 5) = c" "regs ! ((4 * t + 3) mod 5) = d"
      "regs ! ((4 * t + 4) mod 5) = e"
    unfolding follows_def st fips prod.case reg_index_at by blast+
  obtain block' where r: "round_at t block a b c d e (t mod 16) =
      (block', rol b 30, rol a 5 + fips_f t b c d + e + fips_K t + fips_schedule M ! t)"
    and win': "window (fips_schedule M) (Suc t) block'"
    using round_at_fips [OF win assms(2,3)] by blast
  have idx: "4 * Suc t mod 5 = (4 * t + 4) mod 5" "(4 * Suc t + 1) mod 5 = 4 * t mod 5"
    "(4 * Suc t + 2) mod 5 = (4 * t + 1) mod 5" "(4 * Suc t + 3) mod 5 = (4 * t + 2) mod 5"
    "(4 * Suc t + 4) mod 5 = (4 * t + 3) mod 5"
    using mod_add_self2 [of "4 * t" 5] mod_add_self2 [of "4 * t + 1" 5]
      mod_add_self2 [of "4 * t + 2" 5] mod_add_self2 [of "4 * t + 3" 5]
    by (simp_all add: algebra_simps)
  have ne: "(4 * t + 1) mod 5 \<noteq> (4 * t + 4) mod 5" "(4 * t + 1) mod 5 \<noteq> 4 * t mod 5"
    "(4 * t + 4) mod 5 \<noteq> 4 * t mod 5" "(4 * t + 1) mod 5 \<noteq> (4 * t + 2) mod 5"
    "(4 * t + 4) mod 5 \<noteq> (4 * t + 2) mod 5" "(4 * t + 1) mod 5 \<noteq> (4 * t + 3) mod 5"
    "(4 * t + 4) mod 5 \<noteq> (4 * t + 3) mod 5"
    by (rule mod_shift_ne mod_shift_ne0; simp)+
  show ?thesis
    unfolding st fips call_at_def run_call.simps reg_index_at at r Let_def prod.case
      fips_round.simps follows_def idx
    using len win' ne ne [symmetric] at by simp
qed

lemma follows_calls:
  assumes "length M = 16" "length H = 5" "t \<le> 80"
  shows "follows (fips_schedule M) t (foldl run_call (M, H) (map call_at [0..<t]))
    (foldl (fips_round (fips_schedule M)) (H ! 0, H ! 1, H ! 2, H ! 3, H ! 4) [0..<t])"
  using assms(3)
proof (induction t)
  case 0
  show ?case
    using assms(1,2) by (auto simp: follows_def window_def reg_at_def fips_schedule_start)
next
  case (Suc t)
  then show ?case
    using follows_step [OF Suc.IH assms(1)] by simp
qed

lemma list_of_5: "length xs = 5 \<Longrightarrow> xs = [xs ! 0, xs ! 1, xs ! 2, xs ! 3, xs ! 4]"
  by (rule nth_equalityI) (auto simp: less_Suc_eq numeral_eq_Suc)

lemma transform_compress:
  assumes "length block = 16" "length (digest s) = 5"
  shows "transform s block =
    s\<lparr>digest := fips_compress (digest s) block, transforms := transforms s + 1\<rparr>"
proof -
  let ?H = "digest s"
  obtain b regs where run: "foldl run_call (block, ?H) transform_calls = (b, regs)" by fastforce
  obtain a b' c d e where fips: "foldl (fips_round (fips_schedule block))
      (?H ! 0, ?H ! 1, ?H ! 2, ?H ! 3, ?H ! 4) [0..<80] = (a, b', c, d, e)"
    using prod_cases5 by blast
  have "follows (fips_schedule block) 80 (b, regs) (a, b', c, d, e)"
    using follows_calls [OF assms, of 80] run fips by (simp add: transform_calls_at)
  then have "length regs = 5" "regs ! 0 = a" "regs ! 1 = b'" "regs ! 2 = c" "regs ! 3 = d"
    "regs ! 4 = e"
    by (simp_all add: follows_def reg_index_at)
  then have "regs = [a, b', c, d, e]" using list_of_5 [of regs] by simp
  then have "map2 (+) ?H regs = [?H ! 0 + a, ?H ! 1 + b', ?H ! 2 + c, ?H ! 3 + d, ?H ! 4 + e]"
    by (subst list_of_5 [OF assms(2)]) simp
  with run fips show ?thesis
    by (simp only: transform_def fips_compress_def Let_def prod.case)
qed

section \<open>Reference: the hash of a message\<close>

text \<open>
  A message is padded with a one bit, zeros and its length in bits as a 64-bit number, and
  its blocks of 64 bytes are compressed in turn. \<open>fips_process\<close> leaves an incomplete last
  block alone, so that it also describes how far a running computation has come.
\<close>

definition words_of_bytes :: "bytes \<Rightarrow> u32 list" where
  "words_of_bytes bs =
     map (\<lambda>i. u32_of_bytes (bs ! (4 * i)) (bs ! (4 * i + 1)) (bs ! (4 * i + 2)) (bs ! (4 * i + 3)))
       [0..<16]"

function fips_process :: "u32 list \<Rightarrow> bytes \<Rightarrow> u32 list" where
  "fips_process H bs =
     (if length bs < 64 then H
      else fips_process (fips_compress H (words_of_bytes (take 64 bs))) (drop 64 bs))"
  by pat_completeness auto
termination
  by (relation "measure (\<lambda>(H, bs). length bs)") auto

declare fips_process.simps [simp del]

definition pack_u64 :: "u64 \<Rightarrow> bytes" where
  "pack_u64 n = pack_u32 (ucast (drop_bit 32 n)) @ pack_u32 (ucast n)"

definition fips_padding :: "nat \<Rightarrow> bytes" where
  "fips_padding n =
     0x80 # replicate ((119 - n mod 64) mod 64) 0 @ pack_u64 (of_nat n * 8)"

definition fips_H0 :: "u32 list" where
  "fips_H0 = [0x67452301, 0xefcdab89, 0x98badcfe, 0x10325476, 0xc3d2e1f0]"

definition sha1_spec :: "bytes \<Rightarrow> bytes" where
  "sha1_spec bs = concat (map pack_u32 (fips_process fips_H0 (bs @ fips_padding (length bs))))"

lemma length_fips_compress [simp]: "length (fips_compress H block) = 5"
  by (simp add: fips_compress_def split: prod.split)

lemma length_fips_process [simp]: "length H = 5 \<Longrightarrow> length (fips_process H bs) = 5"
proof (induction H bs rule: fips_process.induct)
  case (1 H bs)
  then show ?case by (subst fips_process.simps) simp
qed

lemma length_sha1_spec [simp]: "length (sha1_spec bs) = 20"
proof -
  have "length (concat (map pack_u32 ws)) = 4 * length ws" for ws
    by (induction ws) simp_all
  then show ?thesis by (simp add: sha1_spec_def fips_H0_def)
qed

lemma fips_process_short: "length bs < 64 \<Longrightarrow> fips_process H bs = H"
  by (simp add: fips_process.simps)

lemma fips_process_block:
  "length bs = 64 \<Longrightarrow>
     fips_process H (bs @ cs) = fips_process (fips_compress H (words_of_bytes bs)) cs"
  by (subst fips_process.simps) simp

lemma padding_multiple: "(n + length (fips_padding n)) mod 64 = 0"
proof -
  have "(n + length (fips_padding n)) mod 64 = (n + (9 + (119 - n mod 64) mod 64)) mod 64"
    by (simp add: fips_padding_def pack_u64_def)
  also have "\<dots> = (n mod 64 + (9 + (119 - n mod 64))) mod 64"
    by (metis mod_add_left_eq mod_add_right_eq)
  also have "n mod 64 + (9 + (119 - n mod 64)) = 128"
    using mod_less_divisor [of 64 n] by linarith
  finally show ?thesis by simp
qed

section \<open>update\<close>

lemma buffer_to_block_words:
  "length buf = 64 \<Longrightarrow> buffer_to_block buf = words_of_bytes (bytes_of_string buf)"
  by (auto simp: buffer_to_block_def words_of_bytes_def u32_of_bytes_def ac_simps)

lemma length_buffer_to_block [simp]: "length (buffer_to_block buf) = 16"
  by (simp add: buffer_to_block_def)

definition sha1_ok :: "sha1 \<Rightarrow> bool" where
  "sha1_ok s \<longleftrightarrow> length (digest s) = 5 \<and> length (buffer s) < 64"

text \<open>
  What \<open>update\<close> does, at once: the buffer and the new characters are cut into blocks, the
  whole blocks are hashed and counted, and the rest stays in the buffer.
\<close>

definition absorb :: "sha1 \<Rightarrow> string \<Rightarrow> sha1" where
  "absorb s is =
     (let m = buffer s @ is in
      s\<lparr>digest := fips_process (digest s) (bytes_of_string m),
        buffer := drop (64 * (length m div 64)) m,
        transforms := transforms s + of_nat (length m div 64)\<rparr>)"

lemma absorb_short:
  "length (buffer s) + length is < 64 \<Longrightarrow> absorb s is = s\<lparr>buffer := buffer s @ is\<rparr>"
  by (simp add: absorb_def Let_def fips_process_short)

lemma absorb_block:
  assumes ok: "sha1_ok s" and len: "length (buffer s @ xs) = 64"
  shows "absorb s (xs @ is) =
    absorb ((transform s (buffer_to_block (buffer s @ xs)))\<lparr>buffer := []\<rparr>) is"
proof -
  let ?b = "buffer s @ xs"
  have m: "buffer s @ xs @ is = ?b @ is" by simp
  have n: "length (?b @ is) div 64 = Suc (length is div 64)"
    using len by simp
  have p: "fips_process (digest s) (bytes_of_string (?b @ is)) =
      fips_process (fips_compress (digest s) (words_of_bytes (bytes_of_string ?b))) (bytes_of_string is)"
    using fips_process_block [of "bytes_of_string ?b" "digest s" "bytes_of_string is"] len by simp
  have d: "drop (64 * Suc (length is div 64)) (?b @ is) = drop (64 * (length is div 64)) is"
    using len by (simp add: drop_append)
  have t: "transform s (buffer_to_block ?b) =
      s\<lparr>digest := fips_compress (digest s) (words_of_bytes (bytes_of_string ?b)),
        transforms := transforms s + 1\<rparr>"
    using transform_compress [OF length_buffer_to_block, of s ?b] ok
    by (simp only: sha1_ok_def buffer_to_block_words [OF len])
  show ?thesis
    unfolding absorb_def Let_def m n p d t by (simp add: ac_simps)
qed

lemma update_absorb: "sha1_ok s \<Longrightarrow> update s is = absorb s is"
proof (induction s "is" rule: update.induct)
  case (1 s "is")
  let ?n = "64 - length (buffer s)"
  have b: "length (buffer s) < 64" using 1(2) by (simp add: sha1_ok_def)
  show ?case
  proof (cases "length is < ?n")
    case True
    then show ?thesis
      by (subst update.simps) (simp add: Let_def absorb_short)
  next
    case False
    let ?x = "take ?n is"
    let ?s' = "(transform s (buffer_to_block (buffer s @ ?x)))\<lparr>buffer := []\<rparr>"
    have len: "length (buffer s @ ?x) = 64" using b False by simp
    have tb: "(transform (s\<lparr>buffer := buf\<rparr>) block)\<lparr>buffer := []\<rparr> =
        (transform s block)\<lparr>buffer := []\<rparr>" for buf block
      by (simp add: transform_def split: prod.split)
    have ok: "sha1_ok ?s'"
      using 1(2) transform_compress [of "buffer_to_block (buffer s @ ?x)" s]
      by (simp add: sha1_ok_def)
    have "update s is = update ?s' (drop ?n is)"
      by (subst update.simps) (simp add: Let_def len [simplified] tb)
    also have "\<dots> = absorb ?s' (drop ?n is)"
      using 1(1) [of ?n "s\<lparr>buffer := buffer s @ ?x\<rparr>"] len ok by (simp add: tb)
    also have "\<dots> = absorb s (?x @ drop ?n is)"
      by (rule absorb_block [OF 1(2) len, symmetric])
    finally show ?thesis by simp
  qed
qed

lemma absorb_ok: "sha1_ok s \<Longrightarrow> sha1_ok (absorb s is)"
  by (simp add: sha1_ok_def absorb_def Let_def minus_mult_div_eq_mod)

lemma update_ok: "sha1_ok s \<Longrightarrow> sha1_ok (update s is)"
  by (simp add: update_absorb absorb_ok)

lemma sha1_ok_reset [simp]: "sha1_ok sha1_reset"
  by (simp add: sha1_ok_def sha1_reset_def)

lemma update_append:
  "sha1_ok s \<Longrightarrow> update (update s xs) ys = update s (xs @ ys)"
proof (induction s xs rule: update.induct)
  case (1 s xs)
  let ?n = "64 - length (buffer s)"
  have b: "length (buffer s) < 64" using 1(2) by (simp add: sha1_ok_def)
  show ?case
  proof (cases "length xs < ?n")
    case True
    then have "update s xs = s\<lparr>buffer := buffer s @ xs\<rparr>"
      using 1(2) by (simp add: update_absorb absorb_short)
    moreover have "sha1_ok (s\<lparr>buffer := buffer s @ xs\<rparr>)"
      using 1(2) True by (simp add: sha1_ok_def)
    ultimately show ?thesis
      using 1(2) by (simp add: update_absorb absorb_def)
  next
    case False
    let ?x = "take ?n xs"
    let ?s' = "(transform s (buffer_to_block (buffer s @ ?x)))\<lparr>buffer := []\<rparr>"
    have len: "length (buffer s @ ?x) = 64" using b False by simp
    have ok: "sha1_ok ?s'"
      using 1(2) transform_compress [of "buffer_to_block (buffer s @ ?x)" s]
      by (simp add: sha1_ok_def)
    have tb: "(transform (s\<lparr>buffer := buf\<rparr>) block)\<lparr>buffer := []\<rparr> =
        (transform s block)\<lparr>buffer := []\<rparr>" for buf block
      by (simp add: transform_def split: prod.split)
    have step: "update s (?x @ zs) = update ?s' zs" for zs
      using absorb_block [OF 1(2) len, of zs] 1(2) ok by (simp add: update_absorb)
    have ih: "update (update ?s' (drop ?n xs)) ys = update ?s' (drop ?n xs @ ys)"
      using 1(1) [of ?n "s\<lparr>buffer := buffer s @ ?x\<rparr>"] len ok by (simp add: tb)
    show ?thesis
      using step [of "drop ?n xs"] step [of "drop ?n xs @ ys"] ih
      by (metis append.assoc append_take_drop_id)
  qed
qed

section \<open>final\<close>

lemma fips_process_resume:
  "fips_process H (bs @ cs) =
     fips_process (fips_process H bs) (drop (64 * (length bs div 64)) bs @ cs)"
proof (induction H bs rule: fips_process.induct)
  case (1 H bs)
  show ?case
  proof (cases "length bs < 64")
    case True
    then show ?thesis by (simp add: fips_process_short)
  next
    case False
    let ?H = "fips_compress H (words_of_bytes (take 64 bs))"
    have len: "length (take 64 bs) = 64" using False by simp
    have n: "length bs div 64 = Suc ((length bs - 64) div 64)"
      using False by (simp add: le_div_geq)
    have "fips_process H (bs @ cs) = fips_process ?H (drop 64 bs @ cs)"
      using fips_process_block [OF len, of H "drop 64 bs @ cs"]
      by (simp only: append_assoc [symmetric] append_take_drop_id)
    also have "\<dots> = fips_process (fips_process ?H (drop 64 bs))
        (drop (64 * (length (drop 64 bs) div 64)) (drop 64 bs) @ cs)"
      using "1.IH" False by simp
    also have "fips_process ?H (drop 64 bs) = fips_process H bs"
      using fips_process_block [OF len, of H "drop 64 bs"]
      by (simp only: append_take_drop_id)
    also have "drop (64 * (length (drop 64 bs) div 64)) (drop 64 bs) =
        drop (64 * (length bs div 64)) bs"
      by (simp add: n ac_simps)
    finally show ?thesis .
  qed
qed

lemma length_words_of_bytes [simp]: "length (words_of_bytes bs) = 16"
  by (simp add: words_of_bytes_def)

lemma words_of_bytes_nth:
  "i < 16 \<Longrightarrow> words_of_bytes bs ! i =
     u32_of_bytes (bs ! (4 * i)) (bs ! (4 * i + 1)) (bs ! (4 * i + 2)) (bs ! (4 * i + 3))"
  by (simp add: words_of_bytes_def)

lemma u32_of_bytes_pack_nth:
  "u32_of_bytes (pack_u32 v ! 0) (pack_u32 v ! 1) (pack_u32 v ! 2) (pack_u32 v ! 3) = v"
  by (simp add: pack_u32_ucast u32_of_bytes_ucast)

text \<open>The last two words of a block are its last eight bytes.\<close>

lemma words_of_bytes_tail:
  assumes xs: "length xs = 56" and ys: "length ys = 8"
  shows "words_of_bytes (xs @ pack_u32 a @ pack_u32 b) = (words_of_bytes (xs @ ys))[15 := b, 14 := a]"
proof (rule nth_equalityI)
  fix i assume "i < length (words_of_bytes (xs @ pack_u32 a @ pack_u32 b))"
  then consider "i < 14" | "i = 14" | "i = 15" by fastforce
  then show "words_of_bytes (xs @ pack_u32 a @ pack_u32 b) ! i =
      (words_of_bytes (xs @ ys))[15 := b, 14 := a] ! i"
  proof cases
    case 1
    then show ?thesis
      using xs by (simp add: words_of_bytes_nth nth_append)
  next
    case 2
    then show ?thesis
      using xs u32_of_bytes_pack_nth [of a] by (simp add: words_of_bytes_nth nth_append)
  next
    case 3
    then show ?thesis
      using xs u32_of_bytes_pack_nth [of b] by (simp add: words_of_bytes_nth nth_append)
  qed
qed simp

lemma clear_loop_nth:
  "length b = 16 \<Longrightarrow> n \<le> 16 \<Longrightarrow>
     foldl (\<lambda>b i. b[i := 0]) b [0..<n] = replicate n (0 :: u32) @ drop n b"
proof (induction n)
  case (Suc n)
  then show ?case
    by (simp add: list_update_append Cons_nth_drop_Suc [symmetric] replicate_append_same)
qed simp

lemma cleared_words:
  assumes "length b = 16"
  shows "words_of_bytes (replicate 56 0 @ pack_u32 x @ pack_u32 y) =
    (foldl (\<lambda>b i. b[i := 0]) b [0..<14])[15 := y, 14 := x]" (is "?words = ?block")
proof -
  have clear: "foldl (\<lambda>b i. b[i := 0]) b [0..<14] = replicate 14 0 @ drop 14 b"
    using clear_loop_nth [of b 14] assms by simp
  show ?thesis
  proof (rule nth_equalityI)
    fix i assume "i < length ?words"
    then have i: "i < 16" by simp
    have z: "u32_of_bytes 0 0 0 0 = 0" by (simp add: u32_of_bytes_def)
    have w: "?words = (words_of_bytes (replicate 56 0 @ replicate 8 0))[15 := y, 14 := x]"
      by (rule words_of_bytes_tail) simp_all
    have "words_of_bytes (replicate 56 0 @ replicate 8 0) ! i = 0"
      using i by (simp add: words_of_bytes_nth z nth_append)
    then show "?words ! i = ?block ! i"
      using i assms unfolding w clear by (auto simp: nth_list_update nth_append)
  qed (simp add: clear assms)
qed

subsection \<open>Hexadecimal output\<close>

primrec nibbles :: "nat \<Rightarrow> nat \<Rightarrow> string" where
  "nibbles 0 n = []"
| "nibbles (Suc k) n = nibbles k (n div 16) @ [hex_digit (n mod 16)]"

lemma length_nibbles [simp]: "length (nibbles k n) = k"
  by (induction k arbitrary: n) simp_all

lemma hex_digit_0: "hex_digit 0 = CHR ''0''"
  by code_simp

lemma nibbles_zero: "nibbles k 0 = replicate k CHR ''0''"
  by (induction k) (simp_all add: hex_digit_0 replicate_append_same)

lemma setw0_snoc: "setw0 (Suc k) (xs @ [x]) = setw0 k xs @ [x]"
  by (simp add: setw0_def)

lemma setw0_hex_of_nat:
  "0 < k \<Longrightarrow> n < 16 ^ k \<Longrightarrow> setw0 k (hex_of_nat n) = nibbles k n"
proof (induction k arbitrary: n)
  case (Suc k)
  show ?case
  proof (cases "n < 16")
    case True
    then have "setw0 (Suc k) (hex_of_nat n) = replicate k CHR ''0'' @ [hex_digit n]"
      by (simp add: hex_of_nat.simps [of n] setw0_def)
    with True show ?thesis by (simp add: nibbles_zero)
  next
    case False
    then have "0 < k" using Suc.prems by (cases k) simp_all
    moreover have "n div 16 < 16 ^ k" using Suc.prems by (simp add: div_less_iff_less_mult)
    ultimately have "setw0 k (hex_of_nat (n div 16)) = nibbles k (n div 16)"
      using Suc.IH by blast
    with False show ?thesis
      by (subst hex_of_nat.simps) (simp add: setw0_snoc)
  qed
qed simp

lemma hex_of_byte_nibbles: "unat b = n mod 256 \<Longrightarrow> hex_of_byte b = nibbles 2 n"
proof -
  assume b: "unat b = n mod 256"
  have "n mod 256 = 16 * (n div 16 mod 16) + n mod 16"
    using mod_mult2_eq [of n 16 16] by simp
  then have "n mod 256 div 16 = n div 16 mod 16" "n mod 256 mod 16 = n mod 16"
    by simp_all
  with b show ?thesis by (simp add: hex_of_byte_def numeral_2_eq_2)
qed

lemma nibbles_add: "nibbles (j + k) n = nibbles j (n div 16 ^ k) @ nibbles k n"
proof (induction k arbitrary: n)
  case (Suc k)
  then show ?case by (simp add: div_mult2_eq)
qed simp

lemma unat_ucast_drop: "unat (ucast (drop_bit k (w :: u32)) :: u8) = unat w div 2 ^ k mod 256"
proof -
  have "unat w < 4294967296" using unsigned_less [of w] by simp
  then have "unat w mod 4294967296 = unat w" by simp
  then show ?thesis
    unfolding unsigned_ucast_eq unsigned_drop_bit_eq by (simp add: take_bit_eq_mod drop_bit_eq_div)
qed

lemma hex_of_u32: "setw0 8 (hex_of_nat (unat (w :: u32))) = hex_of_bytes (pack_u32 w)"
proof -
  let ?n = "unat w"
  have lt: "?n < 16 ^ 8" using unsigned_less [of w] by simp
  have bytes: "hex_of_byte (ucast (drop_bit 24 w)) = nibbles 2 (?n div 2 ^ 24)"
    "hex_of_byte (ucast (drop_bit 16 w)) = nibbles 2 (?n div 2 ^ 16)"
    "hex_of_byte (ucast (drop_bit 8 w)) = nibbles 2 (?n div 2 ^ 8)"
    "hex_of_byte (ucast w) = nibbles 2 ?n"
    using unat_ucast_drop [of 24 w] unat_ucast_drop [of 16 w] unat_ucast_drop [of 8 w]
      unat_ucast_drop [of 0 w]
    by (simp_all add: hex_of_byte_nibbles)
  have "nibbles 8 ?n = nibbles 2 (?n div 2 ^ 24) @ nibbles 2 (?n div 2 ^ 16) @
      nibbles 2 (?n div 2 ^ 8) @ nibbles 2 ?n"
    using nibbles_add [of 2 6 ?n] nibbles_add [of 2 4 ?n] nibbles_add [of 2 2 ?n] by simp
  then show ?thesis
    using setw0_hex_of_nat [OF _ lt] bytes by (simp add: pack_u32_ucast hex_of_bytes_Cons)
qed

lemma hex_of_u32s:
  "concat (map (\<lambda>d. setw0 8 (hex_of_nat (unat d))) ds) = hex_of_bytes (concat (map pack_u32 ds))"
  by (induction ds) (simp_all add: hex_of_u32 hex_of_bytes_append)

subsection \<open>Padding in the buffer\<close>

text \<open>
  \<open>pad_blocks\<close> is what \<open>final\<close> does with the buffer and the number of bits: one block when
  the padding fits after the buffer, two when it does not.
\<close>

definition final_digest :: "sha1 \<Rightarrow> u64 \<Rightarrow> u32 list" where
  "final_digest s total_bits =
     (let buf = buffer s @ [CHR 0x80];
          block = buffer_to_block (buf @ replicate (64 - length buf) (CHR 0x00));
          H = (if 56 < length buf then fips_compress (digest s) block else digest s);
          block = (if 56 < length buf then foldl (\<lambda>b i. b[i := 0]) block [0..<14] else block)
      in fips_compress H (block[15 := ucast total_bits, 14 := ucast (drop_bit 32 total_bits)]))"

lemma final_eq:
  assumes "sha1_ok s"
  shows "final s =
    (hex_of_bytes (concat (map pack_u32
       (final_digest s ((transforms s * 64 + of_nat (length (buffer s))) * 8)))), sha1_reset)"
proof -
  have t: "length b = 16 \<Longrightarrow> length (digest s') = 5 \<Longrightarrow>
      digest (transform s' b) = fips_compress (digest s') b" for s' b
    by (simp add: transform_compress)
  have l: "length (foldl (\<lambda>b i. b[i := 0]) (buffer_to_block buf) [0..<14]) = 16" for buf
    using clear_loop_nth [of "buffer_to_block buf" 14] by simp
  show ?thesis
    using assms unfolding final_def final_digest_def Let_def hex_of_u32s sha1_ok_def
    by (simp add: t l)
qed

lemma process_last_block:
  "length bs = 64 \<Longrightarrow> fips_process H bs = fips_compress H (words_of_bytes bs)"
  using fips_process_block [of bs H "[]"] by (simp add: fips_process_short)

lemma byte_80_00 [byte_simps]: "byte_of_char (CHR 0x80) = 0x80" "byte_of_char (CHR 0x00) = 0"
  by code_simp+

lemma final_digest_spec:
  assumes ok: "sha1_ok s"
    and n: "n mod 64 = length (buffer s)"
  shows "final_digest s (of_nat n * 8) =
    fips_process (digest s) (bytes_of_string (buffer s) @ fips_padding n)"
proof -
  let ?r = "length (buffer s)" and ?b = "bytes_of_string (buffer s)"
  let ?L = "of_nat n * 8 :: u64"
  let ?len = "pack_u32 (ucast (drop_bit 32 ?L)) @ pack_u32 (ucast ?L)"
  have r: "?r < 64" using ok by (simp add: sha1_ok_def)
  show ?thesis
  proof (cases "?r < 56")
    case True
    let ?xs = "?b @ 0x80 # replicate (55 - ?r) 0"
    have split: "63 - ?r = (55 - ?r) + 8" using True by simp
    have "(119 - n mod 64) mod 64 = 55 - ?r"
      using True n by (simp add: mod_if)
    then have pad: "?b @ fips_padding n = ?xs @ ?len"
      by (simp add: fips_padding_def pack_u64_def)
    have xs: "length ?xs = 56" using True by simp
    have zeros: "replicate (63 - ?r) (0 :: u8) = replicate (55 - ?r) 0 @ replicate 8 0"
      by (simp only: split replicate_add)
    have "bytes_of_string ((buffer s @ [CHR 0x80]) @ replicate (63 - ?r) (CHR 0x00)) =
        ?xs @ replicate 8 0"
      using zeros by (simp add: byte_simps)
    moreover have "length ((buffer s @ [CHR 0x80]) @ replicate (63 - ?r) (CHR 0x00)) = 64"
      using True by simp
    ultimately have block: "buffer_to_block ((buffer s @ [CHR 0x80]) @ replicate (63 - ?r) (CHR 0x00)) =
        words_of_bytes (?xs @ replicate 8 0)"
      by (simp only: buffer_to_block_words)
    have "fips_process (digest s) (?xs @ ?len) = fips_compress (digest s) (words_of_bytes (?xs @ ?len))"
      by (rule process_last_block) (use xs in simp)
    also have "words_of_bytes (?xs @ ?len) = (words_of_bytes (?xs @ replicate 8 0))
        [15 := ucast ?L, 14 := ucast (drop_bit 32 ?L)]"
      by (rule words_of_bytes_tail [OF xs]) simp
    finally show ?thesis
      using True block unfolding pad by (simp add: final_digest_def)
  next
    case False
    let ?xs = "?b @ 0x80 # replicate (63 - ?r) 0"
    have sum: "(119 - n mod 64) mod 64 = (63 - ?r) + 56"
      using False r n by simp
    have pad: "?b @ fips_padding n = ?xs @ (replicate 56 0 @ ?len)"
      unfolding fips_padding_def sum by (simp add: pack_u64_def replicate_add)
    have xs: "length ?xs = 64" using r by simp
    have block: "buffer_to_block ((buffer s @ [CHR 0x80]) @ replicate (63 - ?r) (CHR 0x00)) =
        words_of_bytes ?xs"
      using r by (subst buffer_to_block_words) (simp_all add: byte_simps)
    have "fips_process (digest s) (?xs @ (replicate 56 0 @ ?len)) =
        fips_process (fips_compress (digest s) (words_of_bytes ?xs)) (replicate 56 0 @ ?len)"
      by (rule fips_process_block [OF xs])
    also have "\<dots> = fips_compress (fips_compress (digest s) (words_of_bytes ?xs))
        (words_of_bytes (replicate 56 0 @ ?len))"
      by (rule process_last_block) simp
    also have "words_of_bytes (replicate 56 0 @ ?len) =
        (foldl (\<lambda>b i. b[i := 0]) (words_of_bytes ?xs) [0..<14])
          [15 := ucast ?L, 14 := ucast (drop_bit 32 ?L)]"
      by (rule cleared_words) simp
    finally show ?thesis
      using False block unfolding pad by (simp add: final_digest_def Let_def)
  qed
qed

text \<open>What the object promises: hash everything it was given since it was fresh.\<close>

definition sha1_hex :: "string \<Rightarrow> string" where
  "sha1_hex msg = hex_of_bytes (sha1_spec (bytes_of_string msg))"

lemma final_update: "final (update sha1_reset msg) = (sha1_hex msg, sha1_reset)"
proof -
  let ?n = "length msg" and ?s = "update sha1_reset msg"
  have s: "?s = \<lparr>digest = fips_process fips_H0 (bytes_of_string msg),
      buffer = drop (64 * (?n div 64)) msg, transforms = of_nat (?n div 64)\<rparr>"
    unfolding update_absorb [OF sha1_ok_reset] absorb_def Let_def
    by (simp add: sha1_reset_def fips_H0_def)
  have bits: "(transforms ?s * 64 + of_nat (length (buffer ?s))) * 8 = (of_nat ?n * 8 :: u64)"
  proof -
    have "of_nat (?n div 64) * 64 + of_nat (length (buffer ?s)) =
        (of_nat (?n div 64 * 64 + (?n - 64 * (?n div 64))) :: u64)"
      by (simp only: s sha1.simps length_drop of_nat_add of_nat_mult of_nat_numeral)
    also have "?n div 64 * 64 + (?n - 64 * (?n div 64)) = ?n" by simp
    finally show ?thesis by (simp only: s sha1.simps)
  qed
  have ok: "sha1_ok ?s" by (simp add: update_ok)
  have len: "?n mod 64 = length (buffer ?s)" by (simp add: s minus_mult_div_eq_mod)
  have "fips_process (digest ?s) (bytes_of_string (buffer ?s) @ fips_padding ?n) =
      fips_process fips_H0 (bytes_of_string msg @ fips_padding ?n)"
    using fips_process_resume [of fips_H0 "bytes_of_string msg" "fips_padding ?n"]
    by (simp add: s drop_map)
  then show ?thesis
    unfolding final_eq [OF ok] bits final_digest_spec [OF ok len]
    by (simp add: sha1_hex_def sha1_spec_def)
qed

lemma from_file_hash: "from_file content = sha1_hex content"
  by (simp add: from_file_def final_update)

lemma sha1_hex_length [simp]: "length (sha1_hex msg) = 40"
  by (simp add: sha1_hex_def)

lemma sha1_hex_lower: "list_all is_lower_hex (sha1_hex msg)"
  by (auto simp: sha1_hex_def list_all_iff hex_of_bytes_lower)

section \<open>The interface of a hash object\<close>

text \<open>
  What the rest of the program uses of \<open>SHA1\<close>: an object that is fresh, takes the pieces of a
  message and returns the hash of all it was given. Nothing else about SHA-1 matters to it.
\<close>

locale hash_stream =
  fixes upd :: "'s \<Rightarrow> string \<Rightarrow> 's"
    and fin :: "'s \<Rightarrow> string \<times> 's"
    and fresh :: "'s"
    and ok :: "'s \<Rightarrow> bool"
    and H :: "string \<Rightarrow> string"
  assumes ok_fresh: "ok fresh"
    and ok_upd: "ok s \<Longrightarrow> ok (upd s m)"
    and upd_Nil: "ok s \<Longrightarrow> upd s [] = s"
    and upd_append: "ok s \<Longrightarrow> upd (upd s m) m' = upd s (m @ m')"
    and fin_upd: "fin (upd fresh m) = (H m, fresh)"
begin

lemma upd_pieces: "ok s \<Longrightarrow> foldl upd s ms = upd s (concat ms)"
  by (induction ms arbitrary: s) (simp_all add: upd_Nil upd_append ok_upd)

lemma fin_pieces: "fin (foldl upd fresh ms) = (H (concat ms), fresh)"
  by (simp add: upd_pieces ok_fresh fin_upd)

lemma pieces_do_not_matter: "concat ms = concat ms' \<Longrightarrow> fin (foldl upd fresh ms) = fin (foldl upd fresh ms')"
  by (simp add: fin_pieces)

lemma reuse: "fin (foldl upd (snd (fin (foldl upd fresh ms))) ms') = (H (concat ms'), fresh)"
  by (simp add: fin_pieces)

end

lemma update_Nil: "sha1_ok s \<Longrightarrow> update s [] = s"
  by (simp add: update_absorb absorb_short sha1_ok_def)

interpretation sha1: hash_stream update final sha1_reset sha1_ok sha1_hex
  by unfold_locales (simp_all add: update_ok update_Nil update_append final_update)

section \<open>From hexadecimal back to bytes\<close>

text \<open>
  \<open>sha1_hash_to_bytes\<close> reads its argument two characters at a time with
  \<open>std::stoi(s, 0, 16)\<close>: white space, a sign and a \<open>0x\<close> prefix are skipped, characters after
  the number are ignored, and a chunk without a number throws \<open>std::invalid_argument\<close>. The
  \<open>int\<close> is narrowed to a byte.
\<close>

definition isxdigit :: "char \<Rightarrow> bool" where
  "isxdigit c \<longleftrightarrow> is_lower_hex c \<or> (CHR ''A'' \<le> c \<and> c \<le> CHR ''F'')"

definition xdigit_value :: "char \<Rightarrow> nat" where
  "xdigit_value c = (if is_lower_hex c then lower_hex_value c else of_char c - 55)"

fun strip_0x :: "string \<Rightarrow> string" where
  "strip_0x (z # x # d # cs) =
     (if z = CHR ''0'' \<and> (x = CHR ''x'' \<or> x = CHR ''X'') \<and> isxdigit d then d # cs
      else z # x # d # cs)"
| "strip_0x cs = cs"

definition stoi_16 :: "string \<Rightarrow> int result" where
  "stoi_16 s =
     (let s = dropWhile isspace s;
          negative = (s \<noteq> [] \<and> hd s = CHR ''-'');
          s = (if s \<noteq> [] \<and> (hd s = CHR ''-'' \<or> hd s = CHR ''+'') then drop 1 s else s);
          ds = takeWhile isxdigit (strip_0x s);
          n = int (foldl (\<lambda>n c. 16 * n + xdigit_value c) 0 ds);
          n = (if negative then - n else n)
      in if ds = [] then Inl (Invalid_argument ''stoi'')
         else if n < - (2 ^ 31) \<or> 2 ^ 31 \<le> n then Inl (Out_of_range ''stoi'')
         else Inr n)"

fun sha1_hash_to_bytes :: "string \<Rightarrow> bytes result" where
  "sha1_hash_to_bytes [] = Inr []"
| "sha1_hash_to_bytes [c] =
     (case stoi_16 [c] of Inl e \<Rightarrow> Inl e | Inr n \<Rightarrow> Inr [of_int n])"
| "sha1_hash_to_bytes (c # d # cs) =
     (case stoi_16 [c, d] of Inl e \<Rightarrow> Inl e
      | Inr n \<Rightarrow> (case sha1_hash_to_bytes cs of Inl e \<Rightarrow> Inl e | Inr bs \<Rightarrow> Inr (of_int n # bs)))"

lemma lower_hex_not_space: "is_lower_hex c \<Longrightarrow> \<not> isspace c"
  by (auto simp: is_lower_hex_of_char isspace_def)

lemma lower_hex_not_sign: "is_lower_hex c \<Longrightarrow> c \<noteq> CHR ''-'' \<and> c \<noteq> CHR ''+''"
  by (auto simp: is_lower_hex_of_char)

lemma stoi_16_pair:
  assumes "is_lower_hex c" "is_lower_hex d"
  shows "stoi_16 [c, d] = Inr (int (16 * lower_hex_value c + lower_hex_value d))"
proof -
  have "int (lower_hex_value c) < 16" "int (lower_hex_value d) < 16"
    using assms by simp_all
  then have "\<not> 2147483648 \<le> 16 * int (lower_hex_value c) + int (lower_hex_value d)"
    by linarith
  then show ?thesis
    using assms lower_hex_not_space [OF assms(1)] lower_hex_not_sign [OF assms(1)]
    by (simp add: stoi_16_def Let_def isxdigit_def xdigit_value_def)
qed

lemma stoi_16_hex_of_byte: "stoi_16 (hex_of_byte b) = Inr (int (unat b))"
proof -
  have "16 * (unat b div 16) + unat b mod 16 = unat b" by simp
  then show ?thesis
    unfolding hex_of_byte_def by (subst stoi_16_pair) simp_all
qed

lemma sha1_hash_to_bytes_hex: "sha1_hash_to_bytes (hex_of_bytes bs) = Inr bs"
proof (induction bs)
  case (Cons b bs)
  have "\<exists>c d. hex_of_byte b = [c, d]" by (simp add: hex_of_byte_def)
  then obtain c d where cd: "hex_of_byte b = [c, d]" by blast
  then show ?case
    using Cons stoi_16_hex_of_byte [of b] by (simp add: hex_of_bytes_Cons)
qed simp

lemma sha1_hash_to_bytes_digest:
  "sha1_hash_to_bytes (sha1_hex msg) = Inr (sha1_spec (bytes_of_string msg))"
  by (simp add: sha1_hex_def sha1_hash_to_bytes_hex)

lemma sha1_hash_to_bytes_length:
  "sha1_hash_to_bytes s = Inr bs \<Longrightarrow> length bs = (length s + 1) div 2"
  by (induction s arbitrary: bs rule: sha1_hash_to_bytes.induct) (auto split: sum.splits)

lemma sha1_hash_to_bytes_error:
  "sha1_hash_to_bytes s = Inl e \<Longrightarrow> e = Invalid_argument ''stoi'' \<or> e = Out_of_range ''stoi''"
  by (induction s rule: sha1_hash_to_bytes.induct)
    (auto simp: stoi_16_def Let_def split: sum.splits if_splits)

section \<open>Properties\<close>




end
