(* ===== verification/Proto_Serialize.thy ===== *)
theory Proto_Serialize
  imports Proto_Types Proto_Utils Sha1
begin

text \<open>
  \<open>src/src/proto/serialize.cpp\<close>: the messages the client sends. A message is its length
  (a 32-bit number that counts the identifier and the body), its identifier and its body;
  the handshake has a form of its own.
\<close>

definition pack_msg_header :: "msg_id \<Rightarrow> nat \<Rightarrow> bytes" where
  "pack_msg_header mid len = pack_u32 (of_nat len) @ [msg_id_code mid]"

definition pack_interested_msg :: bytes where
  "pack_interested_msg = pack_msg_header Interested 1"

definition pack_not_interested_msg :: bytes where
  "pack_not_interested_msg = pack_msg_header NotInterested 1"

definition pack_unchoke_msg :: bytes where
  "pack_unchoke_msg = pack_msg_header Unchoke 1"

definition pack_request_msg :: "u32 \<Rightarrow> u32 \<Rightarrow> u32 \<Rightarrow> bytes" where
  "pack_request_msg piece_idx begin_at len =
     (let msg = pack_u32 piece_idx @ pack_u32 begin_at @ pack_u32 len
      in pack_msg_header Request (length msg + 1) @ msg)"

definition pack_have_msg :: "u32 \<Rightarrow> bytes" where
  "pack_have_msg piece_idx =
     (let msg = pack_u32 piece_idx in pack_msg_header Have (length msg + 1) @ msg)"

definition pack_handshake :: "peer_handshake_msg \<Rightarrow> bytes result" where
  "pack_handshake msg =
     (case sha1_hash_to_bytes (hs_info_hash msg) of
        Inl e \<Rightarrow> Inl e
      | Inr hash \<Rightarrow>
          Inr (of_nat (length (hs_header msg)) # bytes_of_string (hs_header msg)
               @ hs_reserved msg @ hash @ bytes_of_string (hs_peer_id msg)))"

lemma length_pack_msg_header [simp]: "length (pack_msg_header mid n) = 5"
  by (simp add: pack_msg_header_def)

lemma pack_request_msg_eq:
  "pack_request_msg i b n =
     pack_msg_header Request 13 @ pack_u32 i @ pack_u32 b @ pack_u32 n"
  by (simp add: pack_request_msg_def Let_def)

lemma pack_have_msg_eq: "pack_have_msg i = pack_msg_header Have 5 @ pack_u32 i"
  by (simp add: pack_have_msg_def Let_def)

lemma length_pack_request_msg [simp]: "length (pack_request_msg i b n) = 17"
  by (simp add: pack_request_msg_eq)

lemma length_pack_have_msg [simp]: "length (pack_have_msg i) = 9"
  by (simp add: pack_have_msg_eq)

lemma pack_handshake_digest:
  "pack_handshake (peer_handshake (sha1_hex m) peer) =
     Inr (19 # bytes_of_string ''BitTorrent protocol'' @ replicate 8 0
          @ sha1_spec (bytes_of_string m) @ bytes_of_string peer)"
  by (simp add: pack_handshake_def peer_handshake_def sha1_hash_to_bytes_digest)

lemma pack_handshake_hex:
  "pack_handshake (peer_handshake (hex_of_bytes h) peer) =
     Inr (19 # bytes_of_string ''BitTorrent protocol'' @ replicate 8 0
          @ h @ bytes_of_string peer)"
  by (simp add: pack_handshake_def peer_handshake_def sha1_hash_to_bytes_hex)

end
