(* ===== verification/Codec.thy ===== *)
theory Codec
  imports Prelude
begin

text \<open>
  The contract a writer and a reader of a self-delimiting format share, whatever the format:
  the reader, given an encoding and anything after it, returns the value and what is after it.
  Bencoded values, 32-bit numbers and message headers are instances.
\<close>

locale prefix_codec =
  fixes ok :: "'v \<Rightarrow> bool"
    and enc :: "'v \<Rightarrow> 'c list"
    and dec :: "'c list \<Rightarrow> ('v \<times> 'c list) option"
  assumes dec_enc: "ok v \<Longrightarrow> dec (enc v @ rest) = Some (v, rest)"
begin

lemma enc_prefix_free: "ok v \<Longrightarrow> ok w \<Longrightarrow> enc v @ r = enc w @ r' \<Longrightarrow> v = w \<and> r = r'"
  by (metis Pair_inject dec_enc option.inject)

lemma enc_inject: "ok v \<Longrightarrow> ok w \<Longrightarrow> enc v = enc w \<longleftrightarrow> v = w"
  using enc_prefix_free [of v w "[]" "[]"] by auto

lemma dec_enc_exact: "ok v \<Longrightarrow> dec (enc v) = Some (v, [])"
  using dec_enc [of v "[]"] by simp

fun dec_n :: "nat \<Rightarrow> 'c list \<Rightarrow> ('v list \<times> 'c list) option" where
  "dec_n 0 s = Some ([], s)"
| "dec_n (Suc n) s =
     (case dec s of
        None \<Rightarrow> None
      | Some (v, r) \<Rightarrow> map_option (\<lambda>(vs, r'). (v # vs, r')) (dec_n n r))"

lemma dec_n_concat:
  "\<forall>v \<in> set vs. ok v \<Longrightarrow> dec_n (length vs) (concat (map enc vs) @ rest) = Some (vs, rest)"
  by (induction vs) (auto simp: dec_enc)

lemma concat_enc_inject:
  "\<forall>v \<in> set vs. ok v \<Longrightarrow> \<forall>w \<in> set ws. ok w \<Longrightarrow> length vs = length ws \<Longrightarrow>
     concat (map enc vs) = concat (map enc ws) \<longleftrightarrow> vs = ws"
  by (metis Pair_inject dec_n_concat option.inject)

end

end
