(* ===== verification/Proto_Deserialize.thy ===== *)
theory Proto_Deserialize
  imports Proto_Serialize Codec
begin

text \<open>
  \<open>src/src/proto/deserialize.cpp\<close>: the messages the client receives. A function that returns
  \<open>tl::expected\<close> gives \<open>Inr (Inl e)\<close> for an error value and \<open>Inr (Inr m)\<close> for a message;
  \<open>Inl\<close> is left for what is not a value, an exception or undefined behaviour.
\<close>

type_synonym 'm parsed = "(proto_error + 'm) result"

text \<open>\<open>std::span{first, n}\<close> at an offset of another span, and reading one as a whole.\<close>

definition sub_span :: "span \<Rightarrow> nat \<Rightarrow> nat \<Rightarrow> span" where
  "sub_span s off n = s\<lparr>sp_offset := sp_offset s + off, sp_size := n\<rparr>"

definition span_read :: "span \<Rightarrow> bytes result" where
  "span_read s =
     (if sp_offset s + sp_size s \<le> length (sp_buffer s)
      then Inr (take (sp_size s) (drop (sp_offset s) (sp_buffer s)))
      else Inl (Undefined Read_past_end))"

definition unpack_msg_header :: "span \<Rightarrow> msg_header parsed" where
  "unpack_msg_header msg =
     (if sp_size msg < MSG_HEADER_SIZE then Inr (Inl INCOMPLETE_MESSAGE)
      else
        (case unpack_u32 (sub_span msg 0 3) of
           Inl e \<Rightarrow> Inl e
         | Inr len \<Rightarrow>
             if len < 1 then Inr (Inl MALFORMED_MESSAGE)
             else
               (case span_at msg 4 of
                  Inl e \<Rightarrow> Inl e
                | Inr b \<Rightarrow>
                    (case msg_id_of_code b of
                       None \<Rightarrow> Inr (Inl UNKNOW_MESSAGE_ID)
                     | Some mid \<Rightarrow> Inr (Inr \<lparr>mh_id = mid, body_length = len - 1\<rparr>)))))"

definition unpack_piece_msg :: "span \<Rightarrow> piece_msg parsed" where
  "unpack_piece_msg msg =
     (if sp_size msg < PIECE_MIN_SIZE then Inr (Inl INCOMPLETE_MESSAGE)
      else
        (case unpack_u32 (sub_span msg 0 4) of
           Inl e \<Rightarrow> Inl e
         | Inr index \<Rightarrow>
             (case unpack_u32 (sub_span msg 4 4) of
                Inl e \<Rightarrow> Inl e
              | Inr begin_at \<Rightarrow>
                  (case span_read (sub_span msg 8 (sp_size msg - 8)) of
                     Inl e \<Rightarrow> Inl e
                   | Inr block \<Rightarrow>
                       Inr (Inr \<lparr>pm_index = ucast index, pm_begin = ucast begin_at,
                                 pm_block = block\<rparr>)))))"

definition unpack_have_msg :: "span \<Rightarrow> have_msg parsed" where
  "unpack_have_msg msg =
     (if sp_size msg < HAVE_MIN_SIZE then Inr (Inl INCOMPLETE_MESSAGE)
      else
        (case unpack_u32 (sub_span msg 0 4) of
           Inl e \<Rightarrow> Inl e
         | Inr index \<Rightarrow> Inr (Inr \<lparr>hm_index = ucast index\<rparr>)))"

definition unpack_handshake :: "span \<Rightarrow> peer_handshake_msg result" where
  "unpack_handshake msg =
     (if sp_size msg < PEER_HANDSHAKE_SIZE
      then Inl (Runtime_error ''Bad PeerHandshakeMsg size. Message is incomplete!'')
      else
        (case span_at msg 0 of
           Inl e \<Rightarrow> Inl e
         | Inr b \<Rightarrow>
             (let header_len = unat b;
                  hash = sub_span msg (1 + header_len + 8) 20;
                  peer_id = sub_span msg (1 + header_len + 8 + 20) 20
              in (case span_read hash of
                    Inl e \<Rightarrow> Inl e
                  | Inr h \<Rightarrow>
                      (case span_read peer_id of
                         Inl e \<Rightarrow> Inl e
                       | Inr p \<Rightarrow> Inr (peer_handshake (hex_of_bytes h) (hex_of_bytes p)))))))"

section \<open>Reading a whole vector\<close>

text \<open>
  Every caller passes a whole vector, \<open>span_of bs\<close>. On it the parsers are functions of the
  bytes.
\<close>

lemma span_of_sel [simp]:
  "sp_buffer (span_of bs) = bs" "sp_offset (span_of bs) = 0" "sp_size (span_of bs) = length bs"
  by (simp_all add: span_of_def)

lemma sub_span_sel [simp]:
  "sp_buffer (sub_span s off n) = sp_buffer s" "sp_offset (sub_span s off n) = sp_offset s + off"
  "sp_size (sub_span s off n) = n"
  by (simp_all add: sub_span_def)

lemma span_at_of: "i < length bs \<Longrightarrow> span_at (span_of bs) i = Inr (bs ! i)"
  by (simp add: span_at_def)

definition u32_at :: "bytes \<Rightarrow> nat \<Rightarrow> u32" where
  "u32_at bs i = u32_of_bytes (bs ! i) (bs ! (i + 1)) (bs ! (i + 2)) (bs ! (i + 3))"

lemma unpack_u32_at:
  "i + 4 \<le> length bs \<Longrightarrow> unpack_u32 (sub_span (span_of bs) i n) = Inr (u32_at bs i)"
  by (simp add: unpack_u32_ok u32_at_def)

lemma u32_at_pack: "u32_at (xs @ pack_u32 v @ ys) (length xs) = v"
  using unpack_u32_pack [of xs v ys 4] unpack_u32_at [of "length xs" "xs @ pack_u32 v @ ys" 4]
  by (simp add: sub_span_def span_of_def)

lemma take_u32_at:
  assumes "i + 4 \<le> length bs"
  shows "pack_u32 (u32_at bs i) = take 4 (drop i bs)"
proof -
  have "take 4 (drop i bs) = [bs ! i, bs ! (i + 1), bs ! (i + 2), bs ! (i + 3)]"
    using assms by (intro nth_equalityI) (auto simp: less_Suc_eq numeral_eq_Suc)
  then show ?thesis by (simp add: u32_at_def pack_u32_of_bytes)
qed

section \<open>Message headers\<close>

definition header_of_bytes :: "bytes \<Rightarrow> proto_error + msg_header" where
  "header_of_bytes bs =
     (if length bs < 5 then Inl INCOMPLETE_MESSAGE
      else if u32_at bs 0 = 0 then Inl MALFORMED_MESSAGE
      else (case msg_id_of_code (bs ! 4) of
              None \<Rightarrow> Inl UNKNOW_MESSAGE_ID
            | Some mid \<Rightarrow> Inr \<lparr>mh_id = mid, body_length = u32_at bs 0 - 1\<rparr>))"

lemma unpack_msg_header_of: "unpack_msg_header (span_of bs) = Inr (header_of_bytes bs)"
  by (simp add: unpack_msg_header_def header_of_bytes_def MSG_HEADER_SIZE_def unpack_u32_at
      span_at_of split: option.split)

lemma u32_at_0_pack: "u32_at (pack_u32 v @ ys) 0 = v"
  using u32_at_pack [of "[]" v ys] by simp

lemma header_of_packed:
  "of_nat n \<noteq> (0 :: u32) \<Longrightarrow>
     header_of_bytes (pack_msg_header mid n @ rest) = Inr \<lparr>mh_id = mid, body_length = of_nat n - 1\<rparr>"
  by (simp add: header_of_bytes_def pack_msg_header_def u32_at_0_pack nth_append)

lemma header_of_bytes_packed:
  assumes "header_of_bytes bs = Inr h"
  shows "take 5 bs = pack_msg_header (mh_id h) (unat (body_length h + 1))"
proof -
  have len: "5 \<le> length bs" and nz: "u32_at bs 0 \<noteq> 0"
    using assms by (auto simp: header_of_bytes_def split: if_splits)
  from assms len nz obtain mid where mid: "msg_id_of_code (bs ! 4) = Some mid"
    and h: "h = \<lparr>mh_id = mid, body_length = u32_at bs 0 - 1\<rparr>"
    by (auto simp: header_of_bytes_def split: option.splits)
  have "take 5 bs = take 4 bs @ [bs ! 4]"
    using len take_Suc_conv_app_nth [of 4 bs] by simp
  also have "take 4 bs = pack_u32 (u32_at bs 0)"
    using take_u32_at [of 0 bs] len by simp
  also have "bs ! 4 = msg_id_code mid"
    using msg_id_code_of_code [OF mid] by simp
  finally show ?thesis by (simp add: h pack_msg_header_def)
qed

section \<open>Piece and have messages\<close>

definition piece_of_bytes :: "bytes \<Rightarrow> proto_error + piece_msg" where
  "piece_of_bytes bs =
     (if length bs < 8 then Inl INCOMPLETE_MESSAGE
      else Inr \<lparr>pm_index = ucast (u32_at bs 0), pm_begin = ucast (u32_at bs 4),
                pm_block = drop 8 bs\<rparr>)"

lemma unpack_piece_msg_of: "unpack_piece_msg (span_of bs) = Inr (piece_of_bytes bs)"
  by (simp add: unpack_piece_msg_def piece_of_bytes_def PIECE_MIN_SIZE_def unpack_u32_at
      span_read_def)

lemma u32_at_4_pack: "u32_at (pack_u32 v @ pack_u32 w @ ys) 4 = w"
  using u32_at_pack [of "pack_u32 v" w ys] by simp

lemma piece_of_packed:
  "piece_of_bytes (pack_u32 i @ pack_u32 b @ block) =
     Inr \<lparr>pm_index = ucast i, pm_begin = ucast b, pm_block = block\<rparr>"
  by (simp add: piece_of_bytes_def u32_at_0_pack u32_at_4_pack)

definition have_of_bytes :: "bytes \<Rightarrow> proto_error + have_msg" where
  "have_of_bytes bs =
     (if length bs < 4 then Inl INCOMPLETE_MESSAGE else Inr \<lparr>hm_index = ucast (u32_at bs 0)\<rparr>)"

lemma unpack_have_msg_of: "unpack_have_msg (span_of bs) = Inr (have_of_bytes bs)"
  by (simp add: unpack_have_msg_def have_of_bytes_def HAVE_MIN_SIZE_def unpack_u32_at)

lemma have_of_packed: "have_of_bytes (pack_u32 i @ ys) = Inr \<lparr>hm_index = ucast i\<rparr>"
  by (simp add: have_of_bytes_def u32_at_0_pack)

section \<open>Handshakes\<close>

lemma unpack_handshake_of:
  "unpack_handshake (span_of bs) =
     (if length bs < 68
      then Inl (Runtime_error ''Bad PeerHandshakeMsg size. Message is incomplete!'')
      else let n = unat (bs ! 0) in
        if n + 49 \<le> length bs
        then Inr (peer_handshake (hex_of_bytes (take 20 (drop (n + 9) bs)))
                                 (hex_of_bytes (take 20 (drop (n + 29) bs))))
        else Inl (Undefined Read_past_end))"
proof (cases "length bs < 68")
  case False
  then have "0 < length bs" by linarith
  with False show ?thesis
    by (simp add: unpack_handshake_def PEER_HANDSHAKE_SIZE_def span_at_of span_read_def Let_def
        add.commute)
qed (simp add: unpack_handshake_def PEER_HANDSHAKE_SIZE_def)

lemma unpack_handshake_packed:
  assumes "length peer = 20" "length h = 20"
  shows "unpack_handshake (span_of (19 # bytes_of_string ''BitTorrent protocol'' @ replicate 8 0
            @ h @ bytes_of_string peer)) =
    Inr (peer_handshake (hex_of_bytes h) (hex_of_bytes (bytes_of_string peer)))"
proof -
  let ?pre = "19 # bytes_of_string ''BitTorrent protocol'' @ replicate 8 0"
  have pre: "length ?pre = 28" "?pre ! 0 = 19" by simp_all
  have "unpack_handshake (span_of (?pre @ h @ bytes_of_string peer)) =
      Inr (peer_handshake (hex_of_bytes h) (hex_of_bytes (bytes_of_string peer)))"
    using assms pre unfolding unpack_handshake_of by (simp add: Let_def nth_append del: append_Cons)
  then show ?thesis by simp
qed

section \<open>The wire format as a codec\<close>

text \<open>
  32-bit numbers and message headers are self-delimiting like bencoded values, and the
  interface of a prefix codec is theirs too: sequences of them can be read back and no
  encoding is a prefix of another.
\<close>

definition u32_front :: "bytes \<Rightarrow> (u32 \<times> bytes) option" where
  "u32_front bs = (case unpack_u32 (span_of bs) of Inl _ \<Rightarrow> None | Inr v \<Rightarrow> Some (v, drop 4 bs))"

definition header_front :: "bytes \<Rightarrow> (msg_header \<times> bytes) option" where
  "header_front bs =
     (case unpack_msg_header (span_of bs) of Inr (Inr h) \<Rightarrow> Some (h, drop 5 bs) | _ \<Rightarrow> None)"

definition pack_header :: "msg_header \<Rightarrow> bytes" where
  "pack_header h = pack_msg_header (mh_id h) (unat (body_length h) + 1)"

lemma u32_front_pack: "u32_front (pack_u32 v @ rest) = Some (v, rest)"
  using unpack_u32_pack [of "[]" v rest "4 + length rest"] by (simp add: u32_front_def span_of_def)

interpretation u32: prefix_codec "\<lambda>_. True" pack_u32 u32_front
  by unfold_locales (rule u32_front_pack)

lemma header_front_pack:
  assumes "body_length h + 1 \<noteq> 0"
  shows "header_front (pack_header h @ rest) = Some (h, rest)"
proof -
  have n: "(of_nat (unat (body_length h) + 1) :: u32) = body_length h + 1" by simp
  have "header_of_bytes (pack_header h @ rest) =
      Inr \<lparr>mh_id = mh_id h, body_length = body_length h\<rparr>"
    unfolding pack_header_def using assms n
    by (subst header_of_packed) (simp_all only: n add_diff_cancel_right' not_False_eq_True)
  then show ?thesis
    by (simp add: header_front_def unpack_msg_header_of pack_header_def)
qed

interpretation header: prefix_codec "\<lambda>h. body_length h + 1 \<noteq> 0" pack_header header_front
  by unfold_locales (rule header_front_pack)

text \<open>A stream of numbers is read back whatever follows it, by the law of the interface.\<close>

lemma u32_stream: "u32.dec_n (length vs) (concat (map pack_u32 vs) @ rest) = Some (vs, rest)"
  by (rule u32.dec_n_concat) simp

section \<open>Properties\<close>

text \<open>What the header parser makes of any bytes: too few are incomplete, a zero length is
  malformed, a code of no message is unknown, and in every other case the five bytes are the
  packed header that is returned. It never reads outside the buffer.\<close>

theorem msg_header_parser:
  "case unpack_msg_header (span_of bs) of
     Inl _ \<Rightarrow> False
   | Inr (Inl INCOMPLETE_MESSAGE) \<Rightarrow> length bs < 5
   | Inr (Inl MALFORMED_MESSAGE) \<Rightarrow> 5 \<le> length bs \<and> take 4 bs = [0, 0, 0, 0]
   | Inr (Inl UNKNOW_MESSAGE_ID) \<Rightarrow> 5 \<le> length bs \<and> take 4 bs \<noteq> [0, 0, 0, 0] \<and> 9 \<le> bs ! 4
   | Inr (Inr h) \<Rightarrow> 5 \<le> length bs \<and> take 5 bs = pack_msg_header (mh_id h) (unat (body_length h + 1))"
proof -
  have zero: "take 4 bs = [0, 0, 0, 0] \<longleftrightarrow> u32_at bs 0 = 0" if "5 \<le> length bs"
  proof -
    have "pack_u32 0 = [0, 0, 0, 0]" by (simp add: pack_u32_def)
    then show ?thesis using take_u32_at [of 0 bs] that pack_u32_inject [of "u32_at bs 0" 0] by simp
  qed
  have "take 5 bs = pack_msg_header (mh_id h) (unat (body_length h + 1))" if "header_of_bytes bs = Inr h" for h
    using header_of_bytes_packed [OF that] .
  then show ?thesis
    using zero
    by (auto simp: unpack_msg_header_of header_of_bytes_def msg_id_of_code_None split: option.split)
qed

text \<open>The handshake parser trusts the first byte: it answers when the two fields after the announced
  name lie in the buffer, and reads outside the buffer when they do not.\<close>

theorem handshake_parser:
  "unpack_handshake (span_of bs) =
     (if length bs < 68
      then Inl (Runtime_error ''Bad PeerHandshakeMsg size. Message is incomplete!'')
      else let n = unat (bs ! 0) in
        if n + 49 \<le> length bs
        then Inr (peer_handshake (hex_of_bytes (take 20 (drop (n + 9) bs)))
                                 (hex_of_bytes (take 20 (drop (n + 29) bs))))
        else Inl (Undefined Read_past_end))"
  by (rule unpack_handshake_of)

text \<open>A handshake that was packed is parsed to its info hash and, in hexadecimal, its peer id.\<close>

theorem handshake_roundtrip:
  assumes "length peer = 20"
  shows "\<exists>packed. pack_handshake (peer_handshake (sha1_hex m) peer) = Inr packed \<and>
    unpack_handshake (span_of packed) =
      Inr (peer_handshake (sha1_hex m) (hex_of_bytes (bytes_of_string peer)))"
  unfolding pack_handshake_digest
  using unpack_handshake_packed [OF assms, of "sha1_spec (bytes_of_string m)"]
  by (simp add: sha1_hex_def)

theorem handshake_roundtrip_witness:
  "\<exists>packed. pack_handshake (peer_handshake (sha1_hex ''info'') ''00112233445566778899'') = Inr packed \<and>
    unpack_handshake (span_of packed) =
      Inr (peer_handshake (sha1_hex ''info'') (hex_of_bytes (bytes_of_string ''00112233445566778899'')))"
  by (rule handshake_roundtrip) simp

end
