(* ===== verification/Json_Value.thy ===== *)
theory Json_Value
  imports Prelude
begin

text \<open>
  The JSON values the program passes around (\<open>nlohmann::json\<close>, included in the repository as
  \<open>src/src/lib/nlohmann/include/nlohmann/json.hpp\<close>), as far as it uses them: the value
  itself, the object as the \<open>std::map\<close> it is, and the accessors \<open>contains\<close>, \<open>value\<close>, \<open>get\<close>
  and \<open>empty\<close> with the exceptions they throw.

  Floating-point, unsigned and discarded values, which no code of the program creates, have
  no constructor. An object is the list of its bindings in key order; keys are compared
  as \<open>std::string\<close> compares them, byte by byte and unsigned.
\<close>

section \<open>Values\<close>

datatype json =
    Json_null
  | Json_boolean bool
  | Json_integer int
  | Json_string string
  | Json_binary bytes
  | Json_array "json list"
  | Json_object "(string \<times> json) list"

section \<open>Objects: the interface of \<open>std::map::insert\<close> and \<open>find\<close>\<close>

text \<open>
  \<open>insert\<close> never overwrites: when the key is present, the map is unchanged. What a client
  may rely on is stated once, for any implementation; in particular that inserting a
  sequence of bindings keeps the first binding of each key.
\<close>

locale first_wins_map =
  fixes mempty :: "'m"
    and minsert :: "'k \<Rightarrow> 'v \<Rightarrow> 'm \<Rightarrow> 'm"
    and mfind :: "'m \<Rightarrow> 'k \<Rightarrow> 'v option"
    and minvar :: "'m \<Rightarrow> bool"
  assumes invar_empty: "minvar mempty"
    and invar_insert: "minvar m \<Longrightarrow> minvar (minsert k v m)"
    and find_empty: "mfind mempty k = None"
    and find_insert: "minvar m \<Longrightarrow> mfind (minsert k v m) k' =
          (if k' = k \<and> mfind m k = None then Some v else mfind m k')"
begin

definition insert_all :: "('k \<times> 'v) list \<Rightarrow> 'm \<Rightarrow> 'm" where
  "insert_all kvs m = fold (\<lambda>(k, v). minsert k v) kvs m"

lemma insert_all_Nil [simp]: "insert_all [] m = m"
  by (simp add: insert_all_def)

lemma insert_all_Cons [simp]: "insert_all ((k, v) # kvs) m = insert_all kvs (minsert k v m)"
  by (simp add: insert_all_def)

lemma insert_all_append: "insert_all (xs @ ys) m = insert_all ys (insert_all xs m)"
  by (simp add: insert_all_def)

lemma invar_insert_all: "minvar m \<Longrightarrow> minvar (insert_all kvs m)"
  by (induction kvs arbitrary: m) (auto simp: invar_insert)

lemma find_insert_all:
  "minvar m \<Longrightarrow> mfind (insert_all kvs m) k =
     (case mfind m k of Some v \<Rightarrow> Some v | None \<Rightarrow> map_of kvs k)"
proof (induction kvs arbitrary: m)
  case Nil
  then show ?case by (simp split: option.split)
next
  case (Cons kv kvs)
  then show ?case
    by (cases kv) (auto simp: invar_insert find_insert split: option.split)
qed

lemma find_built: "mfind (insert_all kvs mempty) k = map_of kvs k"
  by (simp add: find_insert_all invar_empty find_empty)

end

fun object_insert :: "string \<Rightarrow> 'v \<Rightarrow> (string \<times> 'v) list \<Rightarrow> (string \<times> 'v) list" where
  "object_insert k v [] = [(k, v)]"
| "object_insert k v ((k', v') # m) =
     (if k < k' then (k, v) # (k', v') # m
      else if k = k' then (k', v') # m
      else (k', v') # object_insert k v m)"

definition object_find :: "(string \<times> 'v) list \<Rightarrow> string \<Rightarrow> 'v option" where
  "object_find m k = map_of m k"

definition object_sorted :: "(string \<times> 'v) list \<Rightarrow> bool" where
  "object_sorted m \<longleftrightarrow> sorted_wrt (<) (map fst m)"

lemma object_sorted_Nil [simp]: "object_sorted []"
  by (simp add: object_sorted_def)

lemma object_sorted_Cons:
  "object_sorted ((k, v) # m) \<longleftrightarrow> (\<forall>k' \<in> fst ` set m. k < k') \<and> object_sorted m"
  by (auto simp: object_sorted_def)

lemma fst_set_object_insert: "fst ` set (object_insert k v m) = insert k (fst ` set m)"
  by (induction k v m rule: object_insert.induct) auto

lemma object_sorted_insert: "object_sorted m \<Longrightarrow> object_sorted (object_insert k v m)"
  by (induction k v m rule: object_insert.induct)
    (auto simp: object_sorted_Cons fst_set_object_insert not_less dest: less_trans order_le_neq_trans)

lemma map_of_sorted_fresh: "\<forall>k' \<in> fst ` set m. (k :: string) < k' \<Longrightarrow> map_of m k = None"
  by (auto simp: map_of_eq_None_iff)

lemma object_find_insert:
  "object_sorted m \<Longrightarrow> object_find (object_insert k v m) k' =
     (if k' = k \<and> object_find m k = None then Some v else object_find m k')"
proof (induction k v m rule: object_insert.induct)
  case (1 k v)
  then show ?case by (simp add: object_find_def)
next
  case (2 k v k1 v1 m)
  have fresh: "map_of ((k1, v1) # m) k = None" if "k < k1"
    using 2(2) that by (intro map_of_sorted_fresh) (auto simp: object_sorted_Cons)
  show ?case
    using 2 fresh by (auto simp: object_find_def object_sorted_Cons)
qed

interpretation obj: first_wins_map "[]" object_insert object_find object_sorted
  by unfold_locales (auto simp: object_sorted_insert object_find_insert simp: object_find_def [of "[]"])

text \<open>Inserting bindings whose keys already come in increasing order rebuilds the list.\<close>

lemma object_insert_last:
  "\<forall>k' \<in> fst ` set m. k' < k \<Longrightarrow> object_insert k v m = m @ [(k, v)]"
  by (induction k v m rule: object_insert.induct) auto

lemma set_object_insert: "set (object_insert k v m) \<subseteq> insert (k, v) (set m)"
  by (induction k v m rule: object_insert.induct) auto

section \<open>Accessors\<close>

fun is_object :: "json \<Rightarrow> bool" where
  "is_object (Json_object _) = True"
| "is_object _ = False"

definition contains :: "string \<Rightarrow> json \<Rightarrow> bool" where
  "contains k j = (case j of Json_object m \<Rightarrow> object_find m k \<noteq> None | _ \<Rightarrow> False)"

text \<open>\<open>j.value(key, default)\<close>: \<open>type_error\<close> 306 when \<open>j\<close> is not an object; the conversion
  \<open>get\<close> of the value found may throw \<open>type_error\<close> 302.\<close>

definition json_value :: "(json \<Rightarrow> 'a result) \<Rightarrow> string \<Rightarrow> 'a \<Rightarrow> json \<Rightarrow> 'a result" where
  "json_value get k dflt j =
     (case j of
        Json_object m \<Rightarrow> (case object_find m k of Some v \<Rightarrow> get v | None \<Rightarrow> Inr dflt)
      | _ \<Rightarrow> Inl (Json_type_error 306))"

definition get_json :: "json \<Rightarrow> json result" where
  "get_json j = Inr j"

definition get_string :: "json \<Rightarrow> string result" where
  "get_string j = (case j of Json_string s \<Rightarrow> Inr s | _ \<Rightarrow> Inl (Json_type_error 302))"

definition get_binary :: "json \<Rightarrow> bytes result" where
  "get_binary j = (case j of Json_binary b \<Rightarrow> Inr b | _ \<Rightarrow> Inl (Json_type_error 302))"

text \<open>\<open>bencode::Integer\<close> is \<open>long long\<close>, which is not \<open>number_integer_t\<close> (\<open>int64_t\<close>, a \<open>long\<close>
  on the target): the conversion used is the general arithmetic one, which takes a
  boolean as well.\<close>

definition get_integer :: "json \<Rightarrow> int result" where
  "get_integer j =
     (case j of
        Json_integer i \<Rightarrow> Inr i
      | Json_boolean b \<Rightarrow> Inr (if b then 1 else 0)
      | _ \<Rightarrow> Inl (Json_type_error 302))"

definition json_empty :: "json \<Rightarrow> bool" where
  "json_empty j =
     (case j of Json_null \<Rightarrow> True | Json_array js \<Rightarrow> js = [] | Json_object m \<Rightarrow> m = [] | _ \<Rightarrow> False)"

lemma json_value_object:
  "json_value get k dflt (Json_object m) =
     (case object_find m k of Some v \<Rightarrow> get v | None \<Rightarrow> Inr dflt)"
  by (simp add: json_value_def)

lemma contains_object [simp]: "contains k (Json_object m) \<longleftrightarrow> object_find m k \<noteq> None"
  by (simp add: contains_def)

lemma contains_is_object: "contains k j \<Longrightarrow> \<exists>m. j = Json_object m"
  by (auto simp: contains_def split: json.splits)

end
