(* ===== verification/Utf8.thy ===== *)
theory Utf8
  imports Json_Value Digits
begin

text \<open>
  The UTF-8 automaton of the JSON serializer (\<open>serializer::decode\<close> in \<open>nlohmann/json.hpp\<close>) and
  the text it escapes a code point to. The bencode decoder depends on it: it dumps every decoded
  string once, and takes the string for binary data when the dump throws. The table-driven
  automaton is proved equivalent to a direct statement of well-formed UTF-8. \<open>escaped\<close> is the
  escaping without its buffer, the reference for \<open>dump_escaped\<close> of the theory \<open>Json_Escape\<close>.
\<close>

section \<open>The automaton\<close>

definition utf8d :: "nat list" where
  "utf8d =
     replicate 128 0 @
     (replicate 16 1 @ replicate 16 9) @
     replicate 32 7 @
     ([8, 8] @ replicate 30 2) @
     ([10] @ replicate 12 3 @ [4, 3, 3]) @
     ([11, 6, 6, 6, 5] @ replicate 11 8) @
     [0, 1, 2, 3, 5, 8, 7, 1, 1, 1, 4, 6, 1, 1, 1, 1] @
     [1, 1, 1, 1, 1, 1, 1, 1, 1, 1, 1, 1, 1, 1, 1, 1,
      1, 0, 1, 1, 1, 1, 1, 0, 1, 0, 1, 1, 1, 1, 1, 1] @
     [1, 2, 1, 1, 1, 1, 1, 2, 1, 2, 1, 1, 1, 1, 1, 1,
      1, 1, 1, 1, 1, 1, 1, 2, 1, 1, 1, 1, 1, 1, 1, 1] @
     [1, 2, 1, 1, 1, 1, 1, 1, 1, 2, 1, 1, 1, 1, 1, 1,
      1, 1, 1, 1, 1, 1, 1, 3, 1, 3, 1, 1, 1, 1, 1, 1] @
     [1, 3, 1, 1, 1, 1, 1, 3, 1, 3, 1, 1, 1, 1, 1, 1,
      1, 3, 1, 1, 1, 1, 1, 1, 1, 1, 1, 1, 1, 1, 1, 1]"

definition UTF8_ACCEPT :: nat where "UTF8_ACCEPT = 0"
definition UTF8_REJECT :: nat where "UTF8_REJECT = 1"

definition utf8_decode :: "nat \<Rightarrow> u32 \<Rightarrow> u8 \<Rightarrow> nat \<times> u32" where
  "utf8_decode state codep byte =
     (let type = utf8d ! unat byte;
          codep' = (if state \<noteq> UTF8_ACCEPT
                    then (ucast byte AND 0x3F) OR push_bit 6 codep
                    else drop_bit type 0xFF AND ucast byte)
      in (utf8d ! (256 + state * 16 + type), codep'))"

section \<open>Escaping without a buffer, with the strict error handler\<close>

definition hex4 :: "nat \<Rightarrow> string" where
  "hex4 n = [hex_digit (n div 4096 mod 16), hex_digit (n div 256 mod 16),
             hex_digit (n div 16 mod 16), hex_digit (n mod 16)]"

definition escape_codepoint :: "bool \<Rightarrow> u32 \<Rightarrow> char \<Rightarrow> string" where
  "escape_codepoint ensure_ascii codepoint c =
     (if codepoint = 0x08 then [CHR 0x5C, CHR ''b'']
      else if codepoint = 0x09 then [CHR 0x5C, CHR ''t'']
      else if codepoint = 0x0A then [CHR 0x5C, CHR ''n'']
      else if codepoint = 0x0C then [CHR 0x5C, CHR ''f'']
      else if codepoint = 0x0D then [CHR 0x5C, CHR ''r'']
      else if codepoint = 0x22 then [CHR 0x5C, CHR 0x22]
      else if codepoint = 0x5C then [CHR 0x5C, CHR 0x5C]
      else if codepoint \<le> 0x1F \<or> (ensure_ascii \<and> 0x7F \<le> codepoint) then
        (if codepoint \<le> 0xFFFF
         then [CHR 0x5C, CHR ''u''] @ hex4 (unat (ucast codepoint :: 16 word))
         else [CHR 0x5C, CHR ''u''] @ hex4 (unat (ucast (0xD7C0 + drop_bit 10 codepoint) :: 16 word)) @
              [CHR 0x5C, CHR ''u''] @ hex4 (unat (ucast (0xDC00 + (codepoint AND 0x3FF)) :: 16 word)))
      else [c])"

fun escape_loop :: "bool \<Rightarrow> nat \<Rightarrow> u32 \<Rightarrow> string \<Rightarrow> string \<Rightarrow> string result" where
  "escape_loop ensure_ascii state codepoint out [] =
     (if state = UTF8_ACCEPT then Inr out else Inl (Json_type_error 316))"
| "escape_loop ensure_ascii state codepoint out (c # s) =
     (let (state', codepoint') = utf8_decode state codepoint (byte_of_char c)
      in if state' = UTF8_ACCEPT
         then escape_loop ensure_ascii state' codepoint'
                (out @ escape_codepoint ensure_ascii codepoint' c) s
         else if state' = UTF8_REJECT then Inl (Json_type_error 316)
         else escape_loop ensure_ascii state' codepoint'
                (if ensure_ascii then out else out @ [c]) s)"

definition escaped :: "bool \<Rightarrow> string \<Rightarrow> string result" where
  "escaped ensure_ascii s = escape_loop ensure_ascii UTF8_ACCEPT 0 [] s"

section \<open>Well-formed UTF-8 (Unicode, table 3-7)\<close>

definition in_range :: "nat \<Rightarrow> nat \<Rightarrow> nat \<Rightarrow> bool" where
  "in_range lo hi b \<longleftrightarrow> lo \<le> b \<and> b \<le> hi"

fun well_formed_utf8 :: "nat list \<Rightarrow> bool" where
  "well_formed_utf8 [] = True"
| "well_formed_utf8 (b0 # bs) =
     (if b0 \<le> 0x7F then well_formed_utf8 bs
      else if in_range 0xC2 0xDF b0 then
        (case bs of b1 # r \<Rightarrow> in_range 0x80 0xBF b1 \<and> well_formed_utf8 r | _ \<Rightarrow> False)
      else if in_range 0xE0 0xEF b0 then
        (case bs of b1 # b2 # r \<Rightarrow>
           in_range (if b0 = 0xE0 then 0xA0 else 0x80) (if b0 = 0xED then 0x9F else 0xBF) b1 \<and>
           in_range 0x80 0xBF b2 \<and> well_formed_utf8 r
         | _ \<Rightarrow> False)
      else if in_range 0xF0 0xF4 b0 then
        (case bs of b1 # b2 # b3 # r \<Rightarrow>
           in_range (if b0 = 0xF0 then 0x90 else 0x80) (if b0 = 0xF4 then 0x8F else 0xBF) b1 \<and>
           in_range 0x80 0xBF b2 \<and> in_range 0x80 0xBF b3 \<and> well_formed_utf8 r
         | _ \<Rightarrow> False)
      else False)"

definition utf8_string :: "string \<Rightarrow> bool" where
  "utf8_string s = well_formed_utf8 (map of_char s)"

section \<open>The table computes the ranges\<close>

definition utf8_class :: "nat \<Rightarrow> nat" where
  "utf8_class b =
     (if b < 0x80 then 0 else if b < 0x90 then 1 else if b < 0xA0 then 9
      else if b < 0xC0 then 7 else if b < 0xC2 then 8 else if b < 0xE0 then 2
      else if b = 0xE0 then 10 else if b < 0xED then 3 else if b = 0xED then 4
      else if b < 0xF0 then 3 else if b = 0xF0 then 11 else if b < 0xF4 then 6
      else if b = 0xF4 then 5 else 8)"

definition utf8_next :: "nat \<Rightarrow> nat \<Rightarrow> nat" where
  "utf8_next s t =
     (if s = 0 then
        (if t = 0 then 0 else if t = 2 then 2 else if t = 3 then 3 else if t = 4 then 5
         else if t = 5 then 8 else if t = 6 then 7 else if t = 10 then 4 else if t = 11 then 6 else 1)
      else if s = 2 then (if t = 1 \<or> t = 7 \<or> t = 9 then 0 else 1)
      else if s = 3 then (if t = 1 \<or> t = 7 \<or> t = 9 then 2 else 1)
      else if s = 4 then (if t = 7 then 2 else 1)
      else if s = 5 then (if t = 1 \<or> t = 9 then 2 else 1)
      else if s = 6 then (if t = 7 \<or> t = 9 then 3 else 1)
      else if s = 7 then (if t = 1 \<or> t = 7 \<or> t = 9 then 3 else 1)
      else if s = 8 then (if t = 1 then 3 else 1)
      else 1)"

lemma utf8d_split:
  "utf8d = map utf8_class [0..<256] @ map (\<lambda>i. utf8_next (i div 16) (i mod 16)) [0..<144]"
  by code_simp

lemma utf8d_class: "b < 256 \<Longrightarrow> utf8d ! b = utf8_class b"
  by (simp add: utf8d_split nth_append)

lemma utf8d_next:
  assumes "s < 9" "t < 16"
  shows "utf8d ! (256 + s * 16 + t) = utf8_next s t"
proof -
  have "s * 16 + t < 144" using assms by simp
  moreover have "(s * 16 + t) div 16 = s" "(s * 16 + t) mod 16 = t"
    using assms(2) by simp_all
  ultimately show ?thesis
    by (simp add: utf8d_split nth_append add.assoc)
qed

lemma utf8_class_less: "utf8_class b < 12"
  by (simp add: utf8_class_def)

lemma utf8_decode_state:
  "s < 9 \<Longrightarrow> fst (utf8_decode s codep b) = utf8_next s (utf8_class (unat b))"
  using utf8_class_less [of "unat b"]
  by (simp add: utf8_decode_def utf8d_class utf8d_next Let_def)

lemma utf8_next_less: "utf8_next s t < 9"
  by (simp add: utf8_next_def)

text \<open>What a string must look like for the automaton to accept it from each state.\<close>

definition tail :: "nat \<Rightarrow> nat \<Rightarrow> (nat list \<Rightarrow> bool) \<Rightarrow> nat list \<Rightarrow> bool" where
  "tail lo hi p bs = (case bs of b # r \<Rightarrow> in_range lo hi b \<and> p r | [] \<Rightarrow> False)"

definition accepted_from :: "nat \<Rightarrow> nat list \<Rightarrow> bool" where
  "accepted_from s bs =
     (let one = tail 0x80 0xBF well_formed_utf8; two = tail 0x80 0xBF one in
      if s = 0 then well_formed_utf8 bs
      else if s = 2 then one bs
      else if s = 3 then two bs
      else if s = 4 then tail 0xA0 0xBF one bs
      else if s = 5 then tail 0x80 0x9F one bs
      else if s = 6 then tail 0x90 0xBF two bs
      else if s = 7 then tail 0x80 0xBF two bs
      else if s = 8 then tail 0x80 0x8F two bs
      else False)"

lemma accepted_from_Nil: "accepted_from s [] \<longleftrightarrow> s = 0"
  by (auto simp: accepted_from_def tail_def)

lemma accepted_from_reject: "\<not> accepted_from (Suc 0) bs"
  by (simp add: accepted_from_def)

lemma in_range_class:
  "in_range 0x80 0xBF b \<longleftrightarrow> utf8_class b = 1 \<or> utf8_class b = 7 \<or> utf8_class b = 9"
  "in_range 0xA0 0xBF b \<longleftrightarrow> utf8_class b = 7"
  "in_range 0x80 0x9F b \<longleftrightarrow> utf8_class b = 1 \<or> utf8_class b = 9"
  "in_range 0x90 0xBF b \<longleftrightarrow> utf8_class b = 7 \<or> utf8_class b = 9"
  "in_range 0x80 0x8F b \<longleftrightarrow> utf8_class b = 1"
  by (auto simp: in_range_def utf8_class_def)

lemma well_formed_utf8_Cons:
  "well_formed_utf8 (b # bs) =
     (let one = tail 0x80 0xBF well_formed_utf8; two = tail 0x80 0xBF one in
      if b \<le> 0x7F then well_formed_utf8 bs
      else if in_range 0xC2 0xDF b then one bs
      else if in_range 0xE0 0xEF b then
        tail (if b = 0xE0 then 0xA0 else 0x80) (if b = 0xED then 0x9F else 0xBF) one bs
      else if in_range 0xF0 0xF4 b then
        tail (if b = 0xF0 then 0x90 else 0x80) (if b = 0xF4 then 0x8F else 0xBF) two bs
      else False)"
  by (simp add: tail_def Let_def split: list.split)

lemma lead_byte_cases:
  fixes b :: nat
  obtains "b \<le> 0x7F" | "in_range 0xC2 0xDF b" | "b = 0xE0" | "b = 0xED"
  | "in_range 0xE1 0xEF b" "b \<noteq> 0xED" | "b = 0xF0" | "in_range 0xF1 0xF3 b" | "b = 0xF4"
  | "in_range 0x80 0xC1 b \<or> 0xF5 \<le> b"
  by (auto simp: in_range_def) linarith

lemma accepted_from_lead:
  "accepted_from 0 (b # bs) \<longleftrightarrow> accepted_from (utf8_next 0 (utf8_class b)) bs"
  by (cases b rule: lead_byte_cases)
    (auto simp: accepted_from_def utf8_next_def utf8_class_def in_range_def well_formed_utf8_Cons
       simp del: well_formed_utf8.simps)

lemma accepted_from_trail:
  "s \<noteq> 0 \<Longrightarrow> accepted_from s (b # bs) \<longleftrightarrow> accepted_from (utf8_next s (utf8_class b)) bs"
  by (simp add: accepted_from_def utf8_next_def tail_def in_range_class)

lemma accepted_from_Cons:
  "accepted_from s (b # bs) \<longleftrightarrow> accepted_from (utf8_next s (utf8_class b)) bs"
  using accepted_from_lead accepted_from_trail by (cases "s = 0") blast+

section \<open>The dump succeeds exactly on well-formed UTF-8\<close>

lemma escape_loop_ok:
  "state < 9 \<Longrightarrow>
     (\<exists>out'. escape_loop ea state codep out s = Inr out') \<longleftrightarrow>
     accepted_from state (map of_char s)"
proof (induction s arbitrary: state codep out)
  case Nil
  then show ?case by (simp add: accepted_from_Nil UTF8_ACCEPT_def)
next
  case (Cons c s)
  obtain state' codep' where dec: "utf8_decode state codep (byte_of_char c) = (state', codep')"
    by fastforce
  with Cons.prems have state': "state' = utf8_next state (utf8_class (of_char c))"
    using utf8_decode_state [of state codep "byte_of_char c"] by (simp add: unat_byte_of_char)
  then have "state' < 9" by (simp add: utf8_next_less)
  with Cons.IH dec state' show ?case
    by (auto simp: accepted_from_Cons accepted_from_reject UTF8_ACCEPT_def UTF8_REJECT_def)
qed

lemma escape_loop_error:
  "escape_loop ea state codep out s = Inl e \<Longrightarrow> e = Json_type_error 316"
  by (induction ea state codep out s rule: escape_loop.induct)
    (auto split: if_splits prod.splits)

lemma escaped_cases:
  "escaped ea s = Inl (Json_type_error 316) \<and> \<not> utf8_string s \<or>
   (\<exists>out. escaped ea s = Inr out) \<and> utf8_string s"
proof (cases "escaped ea s")
  case (Inl e)
  then show ?thesis
    using escape_loop_error [of ea UTF8_ACCEPT 0 "[]" s] escape_loop_ok [of 0 ea 0 "[]" s]
    by (simp add: escaped_def utf8_string_def accepted_from_def UTF8_ACCEPT_def)
next
  case (Inr out)
  then show ?thesis
    using escape_loop_ok [of 0 ea 0 "[]" s]
    by (auto simp: escaped_def utf8_string_def accepted_from_def UTF8_ACCEPT_def)
qed

end
