(* ===== verification/Json_Dump.thy ===== *)
theory Json_Dump
  imports Utf8
begin

text \<open>
  The integer printer of the JSON serializer, \<open>dump_integer\<close> with its digit buffer and
  \<open>count_digits\<close>, and \<open>dump\<close>: the compact text of a value as a recursive function, with the
  strict treatment of UTF-8. The serializer of the theory \<open>Json_Serializer\<close> is proved to
  compute it. Shown here: the buffer algorithm prints the decimal notation of every integer of
  64 bits, and \<open>dump\<close> throws exactly when some string or key is not UTF-8.
\<close>

section \<open>\<open>dump_integer\<close>\<close>

function count_digits_loop :: "nat \<Rightarrow> nat \<Rightarrow> nat" where
  "count_digits_loop x n_digits =
     (if x < 10 then n_digits
      else if x < 100 then n_digits + 1
      else if x < 1000 then n_digits + 2
      else if x < 10000 then n_digits + 3
      else count_digits_loop (x div 10000) (n_digits + 4))"
  by pat_completeness auto
termination
  by (relation "measure fst") auto

declare count_digits_loop.simps [simp del]

definition count_digits :: "nat \<Rightarrow> nat" where
  "count_digits x = count_digits_loop x 1"

definition remove_sign :: "int \<Rightarrow> nat" where
  "remove_sign x = nat (- (x + 1)) + 1"

text \<open>The digits are written backwards from position \<open>p\<close> of the buffer, two at a time.\<close>

function write_digits :: "nat \<Rightarrow> char list \<Rightarrow> nat \<Rightarrow> char list" where
  "write_digits v buf p =
     (if 100 \<le> v then
        write_digits (v div 100)
          (buf[p - 1 := digit_char (v mod 100 mod 10), p - 2 := digit_char (v mod 100 div 10)]) (p - 2)
      else if 10 \<le> v then
        buf[p - 1 := digit_char (v mod 10), p - 2 := digit_char (v div 10)]
      else buf[p - 1 := digit_char v])"
  by pat_completeness auto
termination
  by (relation "measure fst") auto

declare write_digits.simps [simp del]

definition dump_integer :: "int \<Rightarrow> string" where
  "dump_integer x =
     (if x = 0 then ''0''
      else let number_buffer = replicate 64 (CHR 0x00);
               (buf, abs_value, n_chars) =
                 (if x < 0 then (number_buffer[0 := CHR ''-''], remove_sign x, 1 + count_digits (remove_sign x))
                  else (number_buffer, nat x, count_digits (nat x)))
           in take n_chars (write_digits abs_value buf n_chars))"

lemma length_dec_of_nat_div:
  "10 \<le> x \<Longrightarrow> length (dec_of_nat x) = length (dec_of_nat (x div 10)) + 1"
  by (simp add: dec_of_nat_step)

lemma length_dec_of_nat_div4:
  assumes "10000 \<le> x"
  shows "length (dec_of_nat x) = length (dec_of_nat (x div 10000)) + 4"
proof -
  have "x div 10 div 10 = x div 100" "x div 100 div 10 = x div 1000" "x div 1000 div 10 = x div 10000"
    by (simp_all add: div_mult2_eq [symmetric])
  moreover have "10 \<le> x div 10" "10 \<le> x div 100" "10 \<le> x div 1000"
    using assms by linarith+
  ultimately show ?thesis
    using assms length_dec_of_nat_div [of x] length_dec_of_nat_div [of "x div 10"]
      length_dec_of_nat_div [of "x div 100"] length_dec_of_nat_div [of "x div 1000"]
    by simp
qed

lemma length_dec_of_nat_bounds:
  "x < 10 \<Longrightarrow> length (dec_of_nat x) = 1"
  "10 \<le> x \<Longrightarrow> x < 100 \<Longrightarrow> length (dec_of_nat x) = 2"
  "100 \<le> x \<Longrightarrow> x < 1000 \<Longrightarrow> length (dec_of_nat x) = 3"
  "1000 \<le> x \<Longrightarrow> x < 10000 \<Longrightarrow> length (dec_of_nat x) = 4"
  by (simp_all add: dec_of_nat_small length_dec_of_nat_div)

lemma count_digits_loop_eq: "count_digits_loop x n = n + length (dec_of_nat x) - 1"
proof (induction x n rule: count_digits_loop.induct)
  case (1 x n)
  show ?case
  proof (cases "x < 10000")
    case True
    then show ?thesis
      using length_dec_of_nat_bounds [of x]
      by (subst count_digits_loop.simps) (auto simp: not_less)
  next
    case False
    with 1 show ?thesis
      by (subst count_digits_loop.simps) (simp add: length_dec_of_nat_div4)
  qed
qed

lemma count_digits_eq: "count_digits x = length (dec_of_nat x)"
  by (simp add: count_digits_def count_digits_loop_eq)

lemma two_updates:
  assumes "2 \<le> p" "p \<le> length buf"
  shows "buf[p - Suc 0 := d, p - 2 := c] = take (p - 2) buf @ [c, d] @ drop p buf"
proof -
  obtain q where q: "p = Suc (Suc q)" using assms(1) by (metis add_2_eq_Suc le_Suc_ex)
  have "Suc q < i \<Longrightarrow> Suc (Suc (i - 2)) = i" for i by simp
  then show ?thesis
    using assms by (auto simp: q nth_append nth_Cons' nth_list_update not_le intro!: nth_equalityI)
qed

lemma take_prefix: "m \<le> q \<Longrightarrow> q \<le> length xs \<Longrightarrow> take m (take q xs @ ys) = take m xs"
  by (simp add: min_def)

lemma drop_prefix: "q \<le> length xs \<Longrightarrow> drop q (take q xs @ ys) = ys"
  by simp

lemma diff_le: "(p :: nat) \<le> n \<Longrightarrow> p - 2 \<le> n"
  by simp

lemma write_digits_eq:
  "length (dec_of_nat v) \<le> p \<Longrightarrow> p \<le> length buf \<Longrightarrow>
     write_digits v buf p = take (p - length (dec_of_nat v)) buf @ dec_of_nat v @ drop p buf"
proof (induction v buf p rule: write_digits.induct)
  case (1 v buf p)
  consider "v < 10" | "10 \<le> v" "v < 100" | "100 \<le> v" by linarith
  then show ?case
  proof cases
    case 1
    with "1.prems" show ?thesis
      by (subst write_digits.simps) (simp add: dec_of_nat_small upd_conv_take_nth_drop)
  next
    case 2
    then have "dec_of_nat v = [digit_char (v div 10), digit_char (v mod 10)]"
      by (simp add: dec_of_nat_step dec_of_nat_small)
    with 2 "1.prems" show ?thesis
      by (subst write_digits.simps) (simp add: two_updates, simp add: numeral_2_eq_2)
  next
    case 3
    have "v div 10 div 10 = v div 100" by (simp add: div_mult2_eq [symmetric])
    moreover have "v div 10 mod 10 = v mod 100 div 10"
      by (simp add: mod_mult2_eq [of v 10 10, simplified])
    moreover have "v mod 10 = v mod 100 mod 10" by (simp add: mod_mod_cancel)
    moreover have "10 \<le> v div 10" using 3 by linarith
    ultimately have dec: "dec_of_nat v =
        dec_of_nat (v div 100) @ [digit_char (v mod 100 div 10), digit_char (v mod 100 mod 10)]"
      using 3 by (simp add: dec_of_nat_step [of v] dec_of_nat_step [of "v div 10"])
    let ?buf = "buf[p - 1 := digit_char (v mod 100 mod 10), p - 2 := digit_char (v mod 100 div 10)]"
    let ?n = "length (dec_of_nat (v div 100))"
    have p: "?n + 2 \<le> p" using "1.prems" dec by simp
    have upd: "?buf = take (p - 2) buf @
        [digit_char (v mod 100 div 10), digit_char (v mod 100 mod 10)] @ drop p buf"
      using p "1.prems" two_updates [of p buf] by simp
    have "write_digits v buf p = write_digits (v div 100) ?buf (p - 2)"
      using 3 by (subst write_digits.simps) simp
    also have "\<dots> = take (p - 2 - ?n) ?buf @ dec_of_nat (v div 100) @ drop (p - 2) ?buf"
      using "1.IH" 3 p "1.prems" by simp
    also have "\<dots> = take (p - 2 - ?n) buf @ dec_of_nat (v div 100) @
        [digit_char (v mod 100 div 10), digit_char (v mod 100 mod 10)] @ drop p buf"
      using "1.prems" by (simp only: upd take_prefix [of _ "p - 2"] drop_prefix diff_le_self diff_le)
    finally show ?thesis using dec by (simp only: diff_diff_left append_assoc length_append) simp
  qed
qed

lemma length_dec_of_nat_le: "n < 10 ^ k \<Longrightarrow> 0 < k \<Longrightarrow> length (dec_of_nat n) \<le> k"
proof (induction k arbitrary: n)
  case (Suc k)
  show ?case
  proof (cases "n < 10")
    case True
    then show ?thesis by (simp add: dec_of_nat_small)
  next
    case False
    with Suc have "n div 10 < 10 ^ k" by (simp add: div_less_iff_less_mult mult.commute)
    moreover have "0 < k" using False Suc.prems by (cases k) simp_all
    ultimately show ?thesis using False Suc.IH by (simp add: dec_of_nat_step)
  qed
qed simp

lemma digit_char_0: "digit_char 0 = CHR ''0''"
  by code_simp

lemma number_buffer_sign: "(replicate 64 (CHR 0x00))[0 := c] = c # replicate 63 (CHR 0x00)"
  by (simp add: numeral_eq_Suc)

lemma dump_integer_eq_dec_of_int:
  assumes "- (2 ^ 63) \<le> x" "x < 2 ^ 63"
  shows "dump_integer x = dec_of_int x"
proof (cases "0 < x")
  case True
  have "nat x < 10 ^ 20" using assms by simp
  then have "length (dec_of_nat (nat x)) \<le> 64"
    using length_dec_of_nat_le [of "nat x" 20] by simp
  with True show ?thesis
    by (simp add: dump_integer_def Let_def count_digits_eq dec_of_int_def write_digits_eq)
next
  case False
  show ?thesis
  proof (cases "x = 0")
    case True
    then show ?thesis by (simp add: dump_integer_def dec_of_int_def dec_of_nat_small digit_char_0)
  next
    case neq: False
    with False have neg: "x < 0" by simp
    then have abs: "remove_sign x = nat (- x)" by (simp add: remove_sign_def nat_diff_distrib)
    have "nat (- x) < 10 ^ 20" using assms by simp
    then have len: "length (dec_of_nat (nat (- x))) \<le> 20"
      using length_dec_of_nat_le [of "nat (- x)" 20] by simp
    with neg show ?thesis
      by (simp add: dump_integer_def Let_def abs count_digits_eq dec_of_int_def number_buffer_sign
          write_digits_eq)
  qed
qed

section \<open>\<open>dump\<close>\<close>

fun dump_bytes :: "bytes \<Rightarrow> string" where
  "dump_bytes [] = []"
| "dump_bytes [b] = dump_integer (uint b)"
| "dump_bytes (b # bs) = dump_integer (uint b) @ '','' @ dump_bytes bs"

definition quoted :: "bool \<Rightarrow> string \<Rightarrow> string result" where
  "quoted ensure_ascii s =
     (case escaped ensure_ascii s of Inl e \<Rightarrow> Inl e | Inr t \<Rightarrow> Inr ([CHR 0x22] @ t @ [CHR 0x22]))"

fun dump :: "bool \<Rightarrow> json \<Rightarrow> string result"
  and dump_elements :: "bool \<Rightarrow> json list \<Rightarrow> string result"
  and dump_members :: "bool \<Rightarrow> (string \<times> json) list \<Rightarrow> string result" where
  "dump ea (Json_object m) =
     (if m = [] then Inr ''{}''
      else case dump_members ea m of Inl e \<Rightarrow> Inl e | Inr t \<Rightarrow> Inr (''{'' @ t @ ''}''))"
| "dump ea (Json_array js) =
     (if js = [] then Inr ''[]''
      else case dump_elements ea js of Inl e \<Rightarrow> Inl e | Inr t \<Rightarrow> Inr (''['' @ t @ '']''))"
| "dump ea (Json_string s) = quoted ea s"
| "dump ea (Json_binary bs) =
     Inr (''{'' @ [CHR 0x22] @ ''bytes'' @ [CHR 0x22] @ '':['' @ dump_bytes bs @ ''],'' @
          [CHR 0x22] @ ''subtype'' @ [CHR 0x22] @ '':null}'')"
| "dump ea (Json_boolean b) = Inr (if b then ''true'' else ''false'')"
| "dump ea (Json_integer i) = Inr (dump_integer i)"
| "dump ea Json_null = Inr ''null''"
| "dump_elements ea [] = Inr []"
| "dump_elements ea (j # js) =
     (case dump ea j of
        Inl e \<Rightarrow> Inl e
      | Inr t \<Rightarrow>
          (if js = [] then Inr t
           else case dump_elements ea js of Inl e \<Rightarrow> Inl e | Inr ts \<Rightarrow> Inr (t @ '','' @ ts)))"
| "dump_members ea [] = Inr []"
| "dump_members ea ((k, j) # m) =
     (case quoted ea k of
        Inl e \<Rightarrow> Inl e
      | Inr q \<Rightarrow>
          (case dump ea j of
             Inl e \<Rightarrow> Inl e
           | Inr t \<Rightarrow>
               (if m = [] then Inr (q @ '':'' @ t)
                else case dump_members ea m of Inl e \<Rightarrow> Inl e | Inr ts \<Rightarrow> Inr (q @ '':'' @ t @ '','' @ ts))))"

text \<open>Every string and every key of the value is UTF-8.\<close>

fun json_utf8 :: "json \<Rightarrow> bool" where
  "json_utf8 (Json_string s) = utf8_string s"
| "json_utf8 (Json_array js) = (\<forall>j \<in> set js. json_utf8 j)"
| "json_utf8 (Json_object m) = (\<forall>(k, j) \<in> set m. utf8_string k \<and> json_utf8 j)"
| "json_utf8 _ = True"

lemma quoted_cases:
  "quoted ea s = Inl (Json_type_error 316) \<and> \<not> utf8_string s \<or>
   (\<exists>out. quoted ea s = Inr out) \<and> utf8_string s"
  using escaped_cases [of ea s] by (auto simp: quoted_def)

lemma dump_ok_iff:
  "(\<exists>out. dump ea j = Inr out) \<longleftrightarrow> json_utf8 j"
  "(\<exists>out. dump_elements ea js = Inr out) \<longleftrightarrow> (\<forall>j \<in> set js. json_utf8 j)"
  "(\<exists>out. dump_members ea m = Inr out) \<longleftrightarrow> (\<forall>(k, j) \<in> set m. utf8_string k \<and> json_utf8 j)"
proof (induction ea j and ea js and ea m rule: dump_dump_elements_dump_members.induct)
  case (3 ea s)
  then show ?case using quoted_cases [of ea s] by auto
next
  case (11 ea k j m)
  then show ?case using quoted_cases [of ea k] by (fastforce split: sum.splits if_splits)
qed (auto split: sum.splits if_splits)

lemma quoted_error: "quoted ea s = Inl e \<Longrightarrow> e = Json_type_error 316"
  using quoted_cases [of ea s] by auto

lemma dump_error:
  "dump ea j = Inl e \<Longrightarrow> e = Json_type_error 316"
  "dump_elements ea js = Inl e \<Longrightarrow> e = Json_type_error 316"
  "dump_members ea m = Inl e \<Longrightarrow> e = Json_type_error 316"
  by (induction ea j and ea js and ea m rule: dump_dump_elements_dump_members.induct)
    (auto split: sum.splits if_splits dest: quoted_error)

section \<open>Properties\<close>

text \<open>The integer printer, which counts the digits by powers of 10000 and fills a buffer from
  behind two digits at a time, prints the decimal notation of every 64-bit integer, the
  smallest one included.\<close>

theorem dump_integer_decimal:
  assumes "- (2 ^ 63) \<le> x" "x < 2 ^ 63"
  shows "dump_integer x = dec_of_int x"
  by (rule dump_integer_eq_dec_of_int [OF assms])

theorem dump_integer_decimal_witness: "dump_integer (- (2 ^ 63)) = dec_of_int (- (2 ^ 63))"
  by (rule dump_integer_decimal) simp_all

end
