(* ===== verification/Json_Escape.thy ===== *)
theory Json_Escape
  imports Utf8
begin

text \<open>
  \<open>serializer::dump_escaped\<close> of \<open>nlohmann/json.hpp\<close> as it is written: a buffer of 512
  characters that is written out when fewer than 13 are left, the position of the last
  accepted character in it, and the three ways of dealing with a byte that is not UTF-8. A write
  outside the buffer is a value of the model. The lemmas show that it never happens, that the
  strict handler produces what the unbuffered \<open>escaped\<close> produces, and that the others
  never throw.
\<close>

datatype error_handler = Strict | Ignore | Replace

record escaping =
  es_out :: string
  es_buffer :: string
  es_accepted :: nat

definition STRING_BUFFER_SIZE :: nat where
  "STRING_BUFFER_SIZE = 512"

text \<open>The characters \<open>t\<close> behind those in the buffer; \<open>room\<close> positions are touched.\<close>

definition buffer_put :: "nat \<Rightarrow> string \<Rightarrow> escaping \<Rightarrow> escaping result" where
  "buffer_put room t e =
     (if length (es_buffer e) + room \<le> STRING_BUFFER_SIZE
      then Inr (e\<lparr>es_buffer := es_buffer e @ t\<rparr>) else Inl (Undefined Write_past_end))"

text \<open>\<open>snprintf\<close>, which prints the six or twelve characters of an escape, adds a zero.\<close>

definition escape_room :: "string \<Rightarrow> nat" where
  "escape_room t = (if 6 \<le> length t then length t + 1 else length t)"

definition flush_if_full :: "escaping \<Rightarrow> escaping" where
  "flush_if_full e =
     (if STRING_BUFFER_SIZE - length (es_buffer e) < 13
      then e\<lparr>es_out := es_out e @ es_buffer e, es_buffer := []\<rparr> else e)"

definition remember_accept :: "escaping \<Rightarrow> escaping" where
  "remember_accept e = (flush_if_full e)\<lparr>es_accepted := length (es_buffer (flush_if_full e))\<rparr>"

definition replacement :: "bool \<Rightarrow> string" where
  "replacement ensure_ascii =
     (if ensure_ascii then [CHR 0x5C, CHR ''u'', CHR ''f'', CHR ''f'', CHR ''f'', CHR ''d'']
      else [CHR 0xEF, CHR 0xBF, CHR 0xBD])"

definition drop_unaccepted :: "escaping \<Rightarrow> escaping" where
  "drop_unaccepted e = e\<lparr>es_buffer := take (es_accepted e) (es_buffer e)\<rparr>"

text \<open>
  The loop over the characters. The step back \<open>--i\<close>, taken when the rejected byte did not
  begin its sequence, reads the byte again from the initial state.
\<close>

function (sequential) escape_run ::
  "error_handler \<Rightarrow> bool \<Rightarrow> nat \<Rightarrow> u32 \<Rightarrow> nat \<Rightarrow> escaping \<Rightarrow> string \<Rightarrow> (nat \<times> escaping) result" where
  "escape_run handler ensure_ascii state codepoint undumped_chars e [] = Inr (state, e)"
| "escape_run handler ensure_ascii state codepoint undumped_chars e (c # s) =
     (let (state', codepoint') = utf8_decode state codepoint (byte_of_char c) in
      if state' = UTF8_ACCEPT then
        (let t = escape_codepoint ensure_ascii codepoint' c in
         result_bind (buffer_put (escape_room t) t e)
           (\<lambda>e. escape_run handler ensure_ascii state' codepoint' 0 (remember_accept e) s))
      else if state' = UTF8_REJECT then
        (if handler = Strict then Inl (Json_type_error 316)
         else
           result_bind
             (if handler = Replace
              then map_sum id remember_accept
                     (buffer_put (length (replacement ensure_ascii)) (replacement ensure_ascii)
                       (drop_unaccepted e))
              else Inr (drop_unaccepted e))
             (\<lambda>e. escape_run handler ensure_ascii UTF8_ACCEPT codepoint' 0 e
                    (if 0 < undumped_chars then c # s else s)))
      else
        result_bind (if ensure_ascii then Inr e else buffer_put 1 [c] e)
          (\<lambda>e. escape_run handler ensure_ascii state' codepoint' (undumped_chars + 1) e s))"
  by pat_completeness auto

termination escape_run
  by (relation "measures [\<lambda>(h, ea, state, cp, u, e, s). length s, \<lambda>(h, ea, state, cp, u, e, s). u]")
    auto

declare escape_run.simps(2) [simp del]

text \<open>What is left in the buffer is written at the end; an incomplete last character is not.\<close>

definition dump_escaped :: "error_handler \<Rightarrow> bool \<Rightarrow> string \<Rightarrow> string \<Rightarrow> string result" where
  "dump_escaped handler ensure_ascii s out =
     (case escape_run handler ensure_ascii UTF8_ACCEPT 0 0
             \<lparr>es_out = out, es_buffer = [], es_accepted = 0\<rparr> s of
        Inl e \<Rightarrow> Inl e
      | Inr (state, e) \<Rightarrow>
          if state = UTF8_ACCEPT then Inr (es_out e @ es_buffer e)
          else
            (case handler of
               Strict \<Rightarrow> Inl (Json_type_error 316)
             | Ignore \<Rightarrow> Inr (es_out e @ es_buffer (drop_unaccepted e))
             | Replace \<Rightarrow> Inr (es_out e @ es_buffer (drop_unaccepted e) @ replacement ensure_ascii)))"

section \<open>The buffer is large enough\<close>

text \<open>How many bytes of a character are in the buffer in a state of the automaton, at most.\<close>

definition pending_chars :: "nat \<Rightarrow> nat" where
  "pending_chars state =
     (if state = 2 then 3 else if state = 3 then 2 else if 4 \<le> state then 1 else 0)"

lemma UTF8_states [simp]: "UTF8_ACCEPT < 9" "UTF8_ACCEPT \<noteq> UTF8_REJECT" "UTF8_REJECT \<noteq> UTF8_ACCEPT"
  by (simp_all add: UTF8_ACCEPT_def UTF8_REJECT_def)

lemma pending_chars_next:
  "utf8_next state t \<noteq> 0 \<Longrightarrow> utf8_next state t \<noteq> 1 \<Longrightarrow>
     pending_chars state + 1 \<le> pending_chars (utf8_next state t)"
  by (auto simp: utf8_next_def pending_chars_def split: if_splits)

lemma pending_chars_le: "pending_chars state \<le> 3"
  by (simp add: pending_chars_def)

definition buffer_ok :: "bool \<Rightarrow> nat \<Rightarrow> escaping \<Rightarrow> bool" where
  "buffer_ok ensure_ascii state e \<longleftrightarrow>
     es_accepted e \<le> 499 \<and> es_accepted e \<le> length (es_buffer e) \<and>
     length (es_buffer e) \<le> es_accepted e + (if ensure_ascii then 0 else pending_chars state)"

lemma length_escape_codepoint:
  "length (escape_codepoint ea cp c) \<le> (if ea then 12 else 6)"
proof -
  have "cp \<le> 0xFFFF" if "cp \<le> 0x1F"
    using that by (rule order_trans) simp
  then show ?thesis by (simp add: escape_codepoint_def hex4_def)
qed

lemma buffer_ok_put_escape:
  assumes "buffer_ok ea state e"
  shows "buffer_put (escape_room (escape_codepoint ea cp c)) (escape_codepoint ea cp c) e =
    Inr (e\<lparr>es_buffer := es_buffer e @ escape_codepoint ea cp c\<rparr>)"
proof -
  have "escape_room (escape_codepoint ea cp c) \<le> (if ea then 13 else 7)"
    using length_escape_codepoint [of ea cp c] by (auto simp: escape_room_def split: if_splits)
  with assms pending_chars_le [of state] show ?thesis
    by (auto simp: buffer_put_def buffer_ok_def STRING_BUFFER_SIZE_def split: if_splits)
qed

lemma buffer_ok_put_raw:
  "buffer_ok False state e \<Longrightarrow> buffer_put 1 [c] e = Inr (e\<lparr>es_buffer := es_buffer e @ [c]\<rparr>)"
  using pending_chars_le [of state]
  by (auto simp: buffer_put_def buffer_ok_def STRING_BUFFER_SIZE_def)

lemma buffer_ok_put_replacement:
  "buffer_ok ea state e \<Longrightarrow>
     buffer_put (length (replacement ea)) (replacement ea) (drop_unaccepted e) =
       Inr (e\<lparr>es_buffer := take (es_accepted e) (es_buffer e) @ replacement ea\<rparr>)"
  by (auto simp: buffer_put_def buffer_ok_def STRING_BUFFER_SIZE_def drop_unaccepted_def replacement_def)

lemma buffer_ok_remember [simp]: "buffer_ok ea UTF8_ACCEPT (remember_accept e)"
  by (auto simp: buffer_ok_def remember_accept_def flush_if_full_def STRING_BUFFER_SIZE_def)

lemma remember_accept_written [simp]:
  "es_out (remember_accept e) @ es_buffer (remember_accept e) = es_out e @ es_buffer e"
  by (simp add: remember_accept_def flush_if_full_def)

lemma buffer_ok_drop: "buffer_ok ea state e \<Longrightarrow> buffer_ok ea UTF8_ACCEPT (drop_unaccepted e)"
  by (auto simp: buffer_ok_def drop_unaccepted_def)

lemma buffer_ok_pending:
  "buffer_ok ea state e \<Longrightarrow> utf8_next state t \<noteq> 0 \<Longrightarrow> utf8_next state t \<noteq> 1 \<Longrightarrow>
     buffer_ok ea (utf8_next state t) (if ea then e else e\<lparr>es_buffer := es_buffer e @ [c]\<rparr>)"
  using pending_chars_next [of state t] by (auto simp: buffer_ok_def)

lemma utf8_decode_next:
  "state < 9 \<Longrightarrow> utf8_decode state cp (byte_of_char c) = (state', cp') \<Longrightarrow>
     state' = utf8_next state (utf8_class (of_char c)) \<and> state' < 9"
  using utf8_decode_state [of state cp "byte_of_char c"] utf8_next_less [of state]
  by (simp add: unat_byte_of_char)


section \<open>One step of the loop\<close>

definition rejected :: "error_handler \<Rightarrow> bool \<Rightarrow> escaping \<Rightarrow> escaping" where
  "rejected handler ea e =
     (if handler = Replace
      then remember_accept (e\<lparr>es_buffer := take (es_accepted e) (es_buffer e) @ replacement ea\<rparr>)
      else drop_unaccepted e)"

lemma buffer_ok_rejected: "buffer_ok ea state e \<Longrightarrow> buffer_ok ea UTF8_ACCEPT (rejected handler ea e)"
  by (simp add: rejected_def buffer_ok_drop)

lemma escape_run_Cons:
  assumes dec: "utf8_decode state cp (byte_of_char c) = (state', cp')" and ok: "buffer_ok ea state e"
  shows "escape_run h ea state cp u e (c # s) =
    (if state' = UTF8_ACCEPT
     then escape_run h ea state' cp' 0
            (remember_accept (e\<lparr>es_buffer := es_buffer e @ escape_codepoint ea cp' c\<rparr>)) s
     else if state' = UTF8_REJECT
     then (if h = Strict then Inl (Json_type_error 316)
           else escape_run h ea UTF8_ACCEPT cp' 0 (rejected h ea e) (if 0 < u then c # s else s))
     else escape_run h ea state' cp' (u + 1) (if ea then e else e\<lparr>es_buffer := es_buffer e @ [c]\<rparr>) s)"
proof -
  have raw: "buffer_put (Suc 0) [c] e = Inr (e\<lparr>es_buffer := es_buffer e @ [c]\<rparr>)" if "\<not> ea"
    using buffer_ok_put_raw [of state e c] ok that by simp
  show ?thesis
    by (subst escape_run.simps(2))
      (simp add: dec Let_def buffer_ok_put_escape [OF ok] raw buffer_ok_put_replacement [OF ok] rejected_def)
qed

text \<open>A rejected byte that is read again is then the first of its sequence.\<close>

lemma escape_induct [case_names Nil Cons]:
  fixes P :: "nat \<Rightarrow> u32 \<Rightarrow> nat \<Rightarrow> escaping \<Rightarrow> string \<Rightarrow> bool"
  assumes "\<And>state cp u e. P state cp u e []"
    and step: "\<And>state cp u e c s. (\<And>state cp u e. P state cp u e s) \<Longrightarrow>
      (\<And>cp e. 0 < u \<Longrightarrow> P UTF8_ACCEPT cp 0 e (c # s)) \<Longrightarrow> P state cp u e (c # s)"
  shows "P state cp u e s"
proof (induction s arbitrary: state cp u e)
  case Nil
  show ?case by (rule assms)
next
  case (Cons c s)
  have "P UTF8_ACCEPT cp 0 e (c # s)" for cp e
    by (rule step) (use Cons in auto)
  with Cons show ?case by (blast intro: step)
qed

section \<open>The other handlers never fail\<close>

lemma escape_run_total:
  "state < 9 \<Longrightarrow> buffer_ok ea state e \<Longrightarrow> h \<noteq> Strict \<Longrightarrow>
     \<exists>state' e'. escape_run h ea state cp u e s = Inr (state', e') \<and> buffer_ok ea state' e'"
proof (induction state cp u e s rule: escape_induct)
  case (Nil state cp u e)
  then show ?case by simp
next
  case (Cons state cp u e c s)
  obtain state' cp' where dec: "utf8_decode state cp (byte_of_char c) = (state', cp')" by fastforce
  note st = utf8_decode_next [OF Cons.prems(1) dec]
  have "buffer_ok ea state' (if ea then e else e\<lparr>es_buffer := es_buffer e @ [c]\<rparr>)"
    if "state' \<noteq> UTF8_ACCEPT" "state' \<noteq> UTF8_REJECT"
    using buffer_ok_pending [OF Cons.prems(2)] that st by (simp add: UTF8_ACCEPT_def UTF8_REJECT_def)
  with Cons st show ?case
    by (auto simp: escape_run_Cons [OF dec Cons.prems(2)] buffer_ok_rejected)
qed

lemma dump_escaped_total:
  assumes "h \<noteq> Strict"
  shows "\<exists>t. dump_escaped h ea s out = Inr t"
proof -
  have "buffer_ok ea UTF8_ACCEPT \<lparr>es_out = out, es_buffer = [], es_accepted = 0\<rparr>"
    by (simp add: buffer_ok_def)
  from escape_run_total [OF _ this assms, of 0 0 s] obtain state' e' where
    "escape_run h ea UTF8_ACCEPT 0 0 \<lparr>es_out = out, es_buffer = [], es_accepted = 0\<rparr> s = Inr (state', e')"
    by auto
  with assms show ?thesis by (cases h) (simp_all add: dump_escaped_def)
qed

section \<open>The strict handler\<close>

lemma escape_run_strict:
  "state < 9 \<Longrightarrow> buffer_ok ea state e \<Longrightarrow>
     escape_loop ea state cp (es_out e @ es_buffer e) s =
       (case escape_run Strict ea state cp u e s of
          Inl err \<Rightarrow> Inl err
        | Inr (state', e') \<Rightarrow>
            if state' = UTF8_ACCEPT then Inr (es_out e' @ es_buffer e') else Inl (Json_type_error 316))"
proof (induction state cp u e s rule: escape_induct)
  case (Nil state cp u e)
  then show ?case by simp
next
  case (Cons state cp u e c s)
  obtain state' cp' where dec: "utf8_decode state cp (byte_of_char c) = (state', cp')" by fastforce
  note st = utf8_decode_next [OF Cons.prems(1) dec]
  show ?case
  proof (cases "state' = UTF8_ACCEPT \<or> state' = UTF8_REJECT")
    case True
    with Cons.IH(1) [of UTF8_ACCEPT "remember_accept (e\<lparr>es_buffer := es_buffer e @ escape_codepoint ea cp' c\<rparr>)"
        cp' 0] dec show ?thesis
      by (auto simp: escape_run_Cons [OF dec Cons.prems(2)])
  next
    case False
    then have "buffer_ok ea state' (if ea then e else e\<lparr>es_buffer := es_buffer e @ [c]\<rparr>)"
      using buffer_ok_pending [OF Cons.prems(2)] st by (simp add: UTF8_ACCEPT_def UTF8_REJECT_def)
    from Cons.IH(1) [OF _ this, of cp' "u + 1"] st False dec show ?thesis
      by (auto simp: escape_run_Cons [OF dec Cons.prems(2)])
  qed
qed

text \<open>The buffered loop with the strict handler writes what the unbuffered one returns.\<close>

lemma escape_loop_out:
  "escape_loop ea state cp (xs @ ys) s = map_sum id ((@) xs) (escape_loop ea state cp ys s)"
  by (induction ea state cp ys s rule: escape_loop.induct) (auto split: prod.splits)

lemma dump_escaped_strict:
  "dump_escaped Strict ea s out = map_sum id ((@) out) (escaped ea s)"
proof -
  let ?e = "\<lparr>es_out = out, es_buffer = [], es_accepted = 0\<rparr>"
  have "buffer_ok ea UTF8_ACCEPT ?e" by (simp add: buffer_ok_def)
  from escape_run_strict [OF _ this, of 0 s 0] have
    "dump_escaped Strict ea s out = escape_loop ea UTF8_ACCEPT 0 (out @ []) s"
    by (auto simp: dump_escaped_def split: sum.splits)
  then show ?thesis by (simp only: escape_loop_out escaped_def)
qed

section \<open>On UTF-8 the handlers agree\<close>

lemma escape_run_agree:
  "state < 9 \<Longrightarrow> buffer_ok ea state e \<Longrightarrow> escape_run Strict ea state cp u e s = Inr r \<Longrightarrow>
     escape_run h ea state cp u e s = Inr r"
proof (induction state cp u e s rule: escape_induct)
  case (Nil state cp u e)
  then show ?case by simp
next
  case (Cons state cp u e c s)
  obtain state' cp' where dec: "utf8_decode state cp (byte_of_char c) = (state', cp')" by fastforce
  note st = utf8_decode_next [OF Cons.prems(1) dec]
  have "buffer_ok ea state' (if ea then e else e\<lparr>es_buffer := es_buffer e @ [c]\<rparr>)"
    if "state' \<noteq> UTF8_ACCEPT" "state' \<noteq> UTF8_REJECT"
    using buffer_ok_pending [OF Cons.prems(2)] that st by (simp add: UTF8_ACCEPT_def UTF8_REJECT_def)
  with Cons st show ?case
    by (auto simp: escape_run_Cons [OF dec Cons.prems(2)] split: if_splits)
qed

lemma dump_escaped_agree:
  assumes "utf8_string s"
  shows "dump_escaped h ea s out = dump_escaped Strict ea s out"
proof -
  let ?e = "\<lparr>es_out = out, es_buffer = [], es_accepted = 0\<rparr>"
  have ok: "buffer_ok ea UTF8_ACCEPT ?e" by (simp add: buffer_ok_def)
  from assms obtain t where "dump_escaped Strict ea s out = Inr t"
    using escaped_cases [of ea s] by (auto simp: dump_escaped_strict)
  then obtain e' where "escape_run Strict ea UTF8_ACCEPT 0 0 ?e s = Inr (UTF8_ACCEPT, e')"
    by (auto simp: dump_escaped_def split: sum.splits if_splits)
  with escape_run_agree [OF _ ok this] show ?thesis by (simp add: dump_escaped_def)
qed

end
