(* ===== verification/Json_Serializer.thy ===== *)
theory Json_Serializer
  imports Json_Dump Json_Escape
begin

text \<open>
  The serializer of \<open>nlohmann/json.hpp\<close> with all the options the program uses: \<open>serializer::dump\<close>,
  pretty or compact, with its output and its indentation string as state, and the member
  function \<open>basic_json::dump\<close> that runs it. The serializer with the default options is
  proved to return what the compact \<open>dump\<close> of the theory \<open>Json_Dump\<close> returns, and the
  one with the handler \<open>Replace\<close> to return something for every value.
\<close>

section \<open>The serializer\<close>

record serializer =
  sr_out :: string
  sr_indent :: string

definition write_chars :: "string \<Rightarrow> serializer \<Rightarrow> serializer" where
  "write_chars t s = s\<lparr>sr_out := sr_out s @ t\<rparr>"

text \<open>\<open>write_characters(indent_string.c_str(), n)\<close> may read up to the terminating zero.\<close>

definition write_indent :: "nat \<Rightarrow> serializer \<Rightarrow> serializer result" where
  "write_indent n s =
     (if n \<le> length (sr_indent s) + 1 then Inr (write_chars (take n (sr_indent s @ [CHR 0x00])) s)
      else Inl (Undefined Read_past_end))"

definition grow_indent :: "nat \<Rightarrow> serializer \<Rightarrow> serializer" where
  "grow_indent new_indent s =
     (if length (sr_indent s) < new_indent
      then s\<lparr>sr_indent := sr_indent s @ replicate (length (sr_indent s)) (CHR '' '')\<rparr> else s)"

definition write_escaped :: "error_handler \<Rightarrow> bool \<Rightarrow> string \<Rightarrow> serializer \<Rightarrow> serializer result" where
  "write_escaped handler ensure_ascii str s =
     map_sum id (\<lambda>out. s\<lparr>sr_out := out\<rparr>) (dump_escaped handler ensure_ascii str (sr_out s))"

definition quote :: string where "quote = [CHR 0x22]"
definition line_end :: string where "line_end = [CHR 0x0A]"

fun write_byte_list :: "string \<Rightarrow> bytes \<Rightarrow> serializer \<Rightarrow> serializer" where
  "write_byte_list separator [] s = s"
| "write_byte_list separator [b] s = write_chars (dump_integer (uint b)) s"
| "write_byte_list separator (b # bs) s =
     write_byte_list separator bs (write_chars (dump_integer (uint b) @ separator) s)"

text \<open>Binary values have no subtype here: the decoder never sets one.\<close>

definition serialize_binary :: "bool \<Rightarrow> nat \<Rightarrow> nat \<Rightarrow> bytes \<Rightarrow> serializer \<Rightarrow> serializer result" where
  "serialize_binary pretty_print indent_step current_indent bs s =
     (if pretty_print then
        (let new_indent = current_indent + indent_step in
         result_bind (write_indent new_indent (grow_indent new_indent (write_chars (''{'' @ line_end) s))) (\<lambda>s.
         result_bind (write_indent new_indent (write_chars (''],'' @ line_end)
             (write_byte_list '', '' bs (write_chars (quote @ ''bytes'' @ quote @ '': ['') s)))) (\<lambda>s.
         result_bind (write_indent current_indent
             (write_chars (quote @ ''subtype'' @ quote @ '': '' @ ''null'' @ line_end) s)) (\<lambda>s.
         Inr (write_chars ''}'' s)))))
      else
        Inr (write_chars (''],'' @ quote @ ''subtype'' @ quote @ '':'' @ ''null}'')
          (write_byte_list '','' bs (write_chars (''{'' @ quote @ ''bytes'' @ quote @ '':['') s))))"

text \<open>The entries of objects and arrays are written at indent \<open>ind\<close>.\<close>

fun serialize :: "error_handler \<Rightarrow> bool \<Rightarrow> bool \<Rightarrow> nat \<Rightarrow> nat \<Rightarrow> json \<Rightarrow> serializer \<Rightarrow> serializer result"
  and serialize_members ::
    "error_handler \<Rightarrow> bool \<Rightarrow> bool \<Rightarrow> nat \<Rightarrow> nat \<Rightarrow> (string \<times> json) list \<Rightarrow> serializer \<Rightarrow> serializer result"
  and serialize_elements ::
    "error_handler \<Rightarrow> bool \<Rightarrow> bool \<Rightarrow> nat \<Rightarrow> nat \<Rightarrow> json list \<Rightarrow> serializer \<Rightarrow> serializer result" where
  "serialize h pretty ea step cur (Json_object m) s =
     (if m = [] then Inr (write_chars ''{}'' s)
      else if pretty then
        (let new_indent = cur + step in
         result_bind (serialize_members h pretty ea step new_indent m
             (grow_indent new_indent (write_chars (''{'' @ line_end) s))) (\<lambda>s.
         result_bind (write_indent cur (write_chars line_end s)) (\<lambda>s.
         Inr (write_chars ''}'' s))))
      else
        result_bind (serialize_members h pretty ea step cur m (write_chars ''{'' s)) (\<lambda>s.
        Inr (write_chars ''}'' s)))"
| "serialize h pretty ea step cur (Json_array js) s =
     (if js = [] then Inr (write_chars ''[]'' s)
      else if pretty then
        (let new_indent = cur + step in
         result_bind (serialize_elements h pretty ea step new_indent js
             (grow_indent new_indent (write_chars (''['' @ line_end) s))) (\<lambda>s.
         result_bind (write_indent cur (write_chars line_end s)) (\<lambda>s.
         Inr (write_chars '']'' s))))
      else
        result_bind (serialize_elements h pretty ea step cur js (write_chars ''['' s)) (\<lambda>s.
        Inr (write_chars '']'' s)))"
| "serialize h pretty ea step cur (Json_string str) s =
     result_bind (write_escaped h ea str (write_chars quote s)) (\<lambda>s. Inr (write_chars quote s))"
| "serialize h pretty ea step cur (Json_binary bs) s = serialize_binary pretty step cur bs s"
| "serialize h pretty ea step cur (Json_boolean b) s =
     Inr (write_chars (if b then ''true'' else ''false'') s)"
| "serialize h pretty ea step cur (Json_integer i) s = Inr (write_chars (dump_integer i) s)"
| "serialize h pretty ea step cur Json_null s = Inr (write_chars ''null'' s)"
| "serialize_members h pretty ea step ind [] s = Inr s"
| "serialize_members h pretty ea step ind ((k, v) # m) s =
     result_bind (if pretty then write_indent ind s else Inr s) (\<lambda>s.
     result_bind (write_escaped h ea k (write_chars quote s)) (\<lambda>s.
     result_bind (serialize h pretty ea step ind v
         (write_chars (quote @ (if pretty then '': '' else '':'')) s)) (\<lambda>s.
     if m = [] then Inr s
     else serialize_members h pretty ea step ind m
            (write_chars (if pretty then '','' @ line_end else '','') s))))"
| "serialize_elements h pretty ea step ind [] s = Inr s"
| "serialize_elements h pretty ea step ind (v # js) s =
     result_bind (if pretty then write_indent ind s else Inr s) (\<lambda>s.
     result_bind (serialize h pretty ea step ind v s) (\<lambda>s.
     if js = [] then Inr s
     else serialize_elements h pretty ea step ind js
            (write_chars (if pretty then '','' @ line_end else '','') s)))"

definition json_dump :: "int \<Rightarrow> char \<Rightarrow> bool \<Rightarrow> error_handler \<Rightarrow> json \<Rightarrow> string result" where
  "json_dump indent indent_char ensure_ascii handler j =
     (let s = \<lparr>sr_out = [], sr_indent = replicate 512 indent_char\<rparr> in
      map_sum id sr_out
        (if 0 \<le> indent then serialize handler True ensure_ascii (nat indent) 0 j s
         else serialize handler False ensure_ascii 0 0 j s))"

section \<open>Compact and strict\<close>

text \<open>Whatever way the output is cut into writes, it is written character by character.\<close>

definition put_char :: "char \<Rightarrow> serializer \<Rightarrow> serializer" where
  "put_char c s = s\<lparr>sr_out := sr_out s @ [c]\<rparr>"

lemma write_chars_simps [simp]:
  "write_chars [] s = s" "write_chars (c # t) s = write_chars t (put_char c s)"
  "write_chars (t @ u) s = write_chars u (write_chars t s)"
  by (simp_all add: write_chars_def put_char_def)

lemma write_byte_list_compact: "write_byte_list '','' bs s = write_chars (dump_bytes bs) s"
  by (induction bs arbitrary: s rule: dump_bytes.induct) simp_all

lemma write_escaped_strict:
  "write_escaped Strict ea str s = map_sum id (\<lambda>t. write_chars t s) (escaped ea str)"
  by (simp add: write_escaped_def dump_escaped_strict write_chars_def sum.map_comp comp_def id_def)

lemma serialize_strict:
  "serialize Strict False ea step cur j s = map_sum id (\<lambda>t. write_chars t s) (dump ea j)"
  "serialize_members Strict False ea step cur m s = map_sum id (\<lambda>t. write_chars t s) (dump_members ea m)"
  "serialize_elements Strict False ea step cur js s = map_sum id (\<lambda>t. write_chars t s) (dump_elements ea js)"
proof (induction Strict False ea step cur j s and Strict False ea step cur m s and Strict False ea step cur js s
    rule: serialize_serialize_members_serialize_elements.induct)
qed (auto simp: write_byte_list_compact write_escaped_strict serialize_binary_def quoted_def quote_def
    split: sum.splits)

lemma json_dump_strict [simp]: "json_dump (- 1) c ea Strict j = dump ea j"
  by (cases "dump ea j") (simp_all add: json_dump_def serialize_strict, simp add: write_chars_def)

declare write_chars_simps [simp del]

section \<open>Pretty and total\<close>

text \<open>
  With a step of at most 512 the indentation string is long enough when a level is written,
  because it is doubled whenever a level needs more than it has.
\<close>

lemma length_grow_indent:
  "cur \<le> length (sr_indent s) \<Longrightarrow> 512 \<le> length (sr_indent s) \<Longrightarrow> step \<le> 512 \<Longrightarrow>
     cur + step \<le> length (sr_indent (grow_indent (cur + step) s)) \<and>
     length (sr_indent s) \<le> length (sr_indent (grow_indent (cur + step) s))"
  by (auto simp: grow_indent_def)

lemma put_char_indent [simp]: "sr_indent (put_char c s) = sr_indent s"
  by (simp add: put_char_def)

lemma write_chars_indent [simp]: "sr_indent (write_chars t s) = sr_indent s"
  by (simp add: write_chars_def)

lemma write_byte_list_indent [simp]: "sr_indent (write_byte_list sep bs s) = sr_indent s"
  by (induction sep bs s rule: write_byte_list.induct) simp_all

lemma write_indent_ok:
  "n \<le> length (sr_indent s) \<Longrightarrow> write_indent n s = Inr (write_chars (take n (sr_indent s)) s)"
  by (simp add: write_indent_def)

lemma write_escaped_ok:
  assumes "h \<noteq> Strict"
  shows "\<exists>s'. write_escaped h ea str s = Inr s' \<and> sr_indent s' = sr_indent s"
  using dump_escaped_total [OF assms, of ea str "sr_out s"] by (auto simp: write_escaped_def)

definition room_for :: "nat \<Rightarrow> serializer \<Rightarrow> bool" where
  "room_for ind s \<longleftrightarrow> ind \<le> length (sr_indent s) \<and> 512 \<le> length (sr_indent s)"

text \<open>\<open>r\<close> is a result, not an exception, and the indentation string has not become shorter.\<close>

definition writes_ok :: "serializer \<Rightarrow> serializer result \<Rightarrow> bool" where
  "writes_ok s r \<longleftrightarrow> (\<exists>s'. r = Inr s' \<and> length (sr_indent s) \<le> length (sr_indent s'))"

lemma writes_Inr [simp]: "writes_ok s (Inr s') \<longleftrightarrow> length (sr_indent s) \<le> length (sr_indent s')"
  by (simp add: writes_ok_def)

lemma writes_bind:
  assumes "writes_ok s r" and "\<And>s'. length (sr_indent s) \<le> length (sr_indent s') \<Longrightarrow> writes_ok s' (f s')"
  shows "writes_ok s (result_bind r f)"
  using assms unfolding writes_ok_def by fastforce

lemma writes_trans: "length (sr_indent s) \<le> length (sr_indent s') \<Longrightarrow> writes_ok s' r \<Longrightarrow> writes_ok s r"
  by (auto simp: writes_ok_def)

lemma room_for_more:
  "room_for n s \<Longrightarrow> length (sr_indent s) \<le> length (sr_indent s') \<Longrightarrow> room_for n s'"
  by (simp add: room_for_def)

lemma writes_indent:
  "room_for n x \<Longrightarrow> length (sr_indent s) \<le> length (sr_indent x) \<Longrightarrow> writes_ok s (write_indent n x)"
  by (simp add: room_for_def write_indent_ok)

lemma writes_escaped:
  "h \<noteq> Strict \<Longrightarrow> length (sr_indent s) \<le> length (sr_indent x) \<Longrightarrow> writes_ok s (write_escaped h ea str x)"
  using write_escaped_ok [of h ea str x] by (auto simp: writes_ok_def)

lemma room_for_grow:
  "room_for cur s \<Longrightarrow> step \<le> 512 \<Longrightarrow>
     room_for (cur + step) (grow_indent (cur + step) s) \<and>
     length (sr_indent s) \<le> length (sr_indent (grow_indent (cur + step) s))"
  using length_grow_indent [of cur s step] by (auto simp: room_for_def)

lemma room_for_write [simp]: "room_for n (write_chars t s) \<longleftrightarrow> room_for n s"
  by (simp add: room_for_def)

lemma room_for_byte_list [simp]: "room_for n (write_byte_list sep bs s) \<longleftrightarrow> room_for n s"
  by (simp add: room_for_def)

text \<open>A nested level: what is written at the deeper indent, then a line at the old one.\<close>

lemma writes_nested:
  assumes "room_for cur s" "step \<le> 512"
    and x: "x = grow_indent (cur + step) (write_chars t s)"
    and body: "room_for (cur + step) x \<Longrightarrow> writes_ok x r"
    and rest: "\<And>s'. room_for cur s' \<Longrightarrow> writes_ok s' (g s')"
  shows "writes_ok s (result_bind r g)"
proof -
  have grown: "room_for (cur + step) x" "length (sr_indent s) \<le> length (sr_indent x)"
    using room_for_grow [of cur "write_chars t s" step] assms(1,2) by (simp_all add: x)
  have "writes_ok x (result_bind r g)"
  proof (rule writes_bind [OF body [OF grown(1)]])
    fix s' :: serializer assume "length (sr_indent x) \<le> length (sr_indent s')"
    with grown(2) have "room_for cur s'" by (intro room_for_more [OF assms(1)]) simp
    then show "writes_ok s' (g s')" by (rule rest)
  qed
  with grown(2) show ?thesis by (rule writes_trans)
qed

lemma writes_line: "room_for n s \<Longrightarrow>
  writes_ok s (result_bind (write_indent n (write_chars t s)) (\<lambda>s. Inr (write_chars u s)))"
  by (rule writes_bind) (simp_all add: writes_indent)

lemma result_bind_assoc: "result_bind (result_bind r f) g = result_bind r (\<lambda>x. result_bind (f x) g)"
  by (cases r) simp_all

lemma writes_binary:
  assumes "room_for cur s" "step \<le> 512"
  shows "writes_ok s (serialize_binary pretty step cur bs s)"
proof (cases pretty)
  case True
  let ?x = "grow_indent (cur + step) (write_chars (''{'' @ line_end) s)"
  let ?lines = "result_bind (write_indent (cur + step) ?x) (\<lambda>s. write_indent (cur + step)
    (write_chars (''],'' @ line_end) (write_byte_list '', '' bs (write_chars (quote @ ''bytes'' @ quote @ '': ['') s))))"
  have "writes_ok ?x ?lines" if "room_for (cur + step) ?x"
    by (rule writes_bind [OF writes_indent]) (use that in \<open>auto intro!: writes_indent intro: room_for_more\<close>)
  from writes_nested [OF assms refl this, of "\<lambda>s. result_bind (write_indent cur
      (write_chars (quote @ ''subtype'' @ quote @ '': '' @ ''null'' @ line_end) s)) (\<lambda>s. Inr (write_chars ''}'' s))"]
  show ?thesis
    using True by (simp add: serialize_binary_def Let_def result_bind_assoc writes_line)
qed (simp add: serialize_binary_def)

lemma serialize_writes:
  "h \<noteq> Strict \<Longrightarrow> step \<le> 512 \<Longrightarrow> room_for cur s \<Longrightarrow> writes_ok s (serialize h pretty ea step cur j s)"
  "h \<noteq> Strict \<Longrightarrow> step \<le> 512 \<Longrightarrow> room_for ind s \<Longrightarrow> writes_ok s (serialize_members h pretty ea step ind m s)"
  "h \<noteq> Strict \<Longrightarrow> step \<le> 512 \<Longrightarrow> room_for ind s \<Longrightarrow> writes_ok s (serialize_elements h pretty ea step ind js s)"
proof (induction h pretty ea step cur j s and h pretty ea step ind m s and h pretty ea step ind js s
    rule: serialize_serialize_members_serialize_elements.induct)
  case (1 h pretty ea step cur m s)
  have "writes_ok s (serialize h pretty ea step cur (Json_object m) s)" if "m \<noteq> []" pretty
    using writes_nested [OF 1(5,4) refl 1(1) [OF that refl 1(3,4)] writes_line] that
    by (simp add: Let_def)
  moreover have "writes_ok s (serialize h pretty ea step cur (Json_object m) s)" if "m \<noteq> []" "\<not> pretty"
    using writes_bind [OF writes_trans [OF _ 1(2) [OF that 1(3,4)]]] that 1(5) by simp
  ultimately show ?case by (cases "m = []"; cases pretty) simp_all
next
  case (2 h pretty ea step cur js s)
  have "writes_ok s (serialize h pretty ea step cur (Json_array js) s)" if "js \<noteq> []" pretty
    using writes_nested [OF 2(5,4) refl 2(1) [OF that refl 2(3,4)] writes_line] that
    by (simp add: Let_def)
  moreover have "writes_ok s (serialize h pretty ea step cur (Json_array js) s)" if "js \<noteq> []" "\<not> pretty"
    using writes_bind [OF writes_trans [OF _ 2(2) [OF that 2(3,4)]]] that 2(5) by simp
  ultimately show ?case by (cases "js = []"; cases pretty) simp_all
next
  case (9 h pretty ea step ind k v m s)
  have first: "writes_ok s (if pretty then write_indent ind s else Inr s)"
    using 9(5) by (auto intro: writes_indent)
  have val: "writes_ok x (serialize h pretty ea step ind v
      (write_chars (quote @ (if pretty then '': '' else '':'')) x))"
    if "length (sr_indent s) \<le> length (sr_indent x)" for x
    using writes_trans [OF _ 9(1) [of x]] 9(3-5) room_for_more [OF 9(5) that] by simp
  have more: "writes_ok x (serialize_members h pretty ea step ind m
      (write_chars (if pretty then '','' @ line_end else '','') x))"
    if "m \<noteq> []" "length (sr_indent s) \<le> length (sr_indent x)" for x
    using writes_trans [OF _ 9(2) [OF that(1), of x]] 9(3-5) room_for_more [OF 9(5) that(2)] by simp
  show ?case
    unfolding serialize_members.simps
  proof (rule writes_bind [OF first], rule writes_bind [OF writes_escaped], rule 9, simp,
      rule writes_bind [OF val])
    fix s1 s2 s3 :: serializer
    assume le: "length (sr_indent s) \<le> length (sr_indent s1)"
      "length (sr_indent s1) \<le> length (sr_indent s2)" "length (sr_indent s2) \<le> length (sr_indent s3)"
    then have "length (sr_indent s) \<le> length (sr_indent s3)" by linarith
    from more [OF _ this] show "writes_ok s3 (if m = [] then Inr s3 else serialize_members h pretty ea step ind m
        (write_chars (if pretty then '','' @ line_end else '','') s3))" by simp
  qed linarith
next
  case (11 h pretty ea step ind v js s)
  have first: "writes_ok s (if pretty then write_indent ind s else Inr s)"
    using 11(5) by (auto intro: writes_indent)
  have val: "writes_ok x (serialize h pretty ea step ind v x)"
    if "length (sr_indent s) \<le> length (sr_indent x)" for x
    using 11(1) [of x] 11(3-5) room_for_more [OF 11(5) that] by simp
  have more: "writes_ok x (serialize_elements h pretty ea step ind js
      (write_chars (if pretty then '','' @ line_end else '','') x))"
    if "js \<noteq> []" "length (sr_indent s) \<le> length (sr_indent x)" for x
    using writes_trans [OF _ 11(2) [OF that(1), of x]] 11(3-5) room_for_more [OF 11(5) that(2)] by simp
  show ?case
    unfolding serialize_elements.simps
    by (rule writes_bind [OF first], rule writes_bind [OF val], assumption) (use more in simp)
qed (auto intro!: writes_bind writes_escaped writes_binary)

text \<open>With the handler \<open>Replace\<close> or \<open>Ignore\<close> a value can always be dumped.\<close>

lemma json_dump_total:
  assumes "h \<noteq> Strict" "indent \<le> 512"
  shows "\<exists>t. json_dump indent c ea h j = Inr t"
proof -
  let ?s = "\<lparr>sr_out = [], sr_indent = replicate 512 c\<rparr>"
  have "room_for 0 ?s" by (simp add: room_for_def)
  with assms have "writes_ok ?s (serialize h True ea (nat indent) 0 j ?s)"
    and "writes_ok ?s (serialize h False ea 0 0 j ?s)"
    by (auto intro!: serialize_writes)
  then show ?thesis by (auto simp: json_dump_def Let_def writes_ok_def)
qed

section \<open>Properties\<close>


text \<open>With a handler other than the strict one and an indentation of at most 512, dumping a value
  never throws and never reads past the indentation string, whatever its strings hold and
  however deep it is.\<close>

theorem json_dump_lenient_total:
  assumes "handler \<noteq> Strict" "indent \<le> 512"
  shows "\<exists>t. json_dump indent c ea handler j = Inr t"
  by (rule json_dump_total [OF assms])

theorem json_dump_lenient_total_witness:
  "\<exists>t. json_dump 4 (CHR '' '') False Replace (Json_array [Json_string [CHR 0xFF], Json_null]) = Inr t"
  by (rule json_dump_lenient_total) simp_all

end
