(* ===== verification/Bencode_Decoders.thy ===== *)
theory Bencode_Decoders
  imports Json_Serializer
begin

text \<open>
  The bencode decoder: \<open>src/src/bencode/consts.hpp\<close>, \<open>types.hpp\<close>, \<open>tools.hpp\<close>,
  \<open>decoders.hpp\<close> and \<open>decoders.cpp\<close>.

  A \<open>std::string_view\<close> is the string it shows; \<open>remove_prefix n\<close> is \<open>drop n\<close> and
  \<open>substr(pos, n)\<close> is \<open>take n (drop pos s)\<close> (every call has \<open>pos\<close> within the view). Sizes are
  natural numbers; where the code adds a signed length to a \<open>size_t\<close> the wrap-around is
  written out. The decoding functions call one another; their termination rests on the fact
  that a decoded value consumes at least one character, proved before termination from the
  domain predicate.
\<close>

section \<open>Constants and types\<close>

definition END_SYMBOL :: char where "END_SYMBOL = CHR ''e''"
definition LIST_START_SYMBOL :: char where "LIST_START_SYMBOL = CHR ''l''"
definition DICT_START_SYMBOL :: char where "DICT_START_SYMBOL = CHR ''d''"
definition INTEGER_START_SYMBOL :: char where "INTEGER_START_SYMBOL = CHR ''i''"
definition STRING_DELIMITER_SYMBOL :: char where "STRING_DELIMITER_SYMBOL = CHR '':''"

lemmas bencode_symbols =
  END_SYMBOL_def LIST_START_SYMBOL_def DICT_START_SYMBOL_def INTEGER_START_SYMBOL_def
  STRING_DELIMITER_SYMBOL_def

datatype encoded_value_type = Ev_Integer | Ev_String | Ev_List | Ev_Dictionary | Ev_Unknown

record encoded_value =
  ev_type :: encoded_value_type
  ev_value :: string

type_synonym decoded_value = "encoded_value \<times> json"

section \<open>\<open>to_integer\<close>\<close>

text \<open>
  \<open>std::from_chars\<close> for \<open>long long\<close>, base 10: an optional minus sign, then as many digits as
  there are; the error code, the value and how many characters were read. A plus sign or
  white space is not accepted.
\<close>

datatype errc = Errc_ok | Errc_invalid_argument | Errc_result_out_of_range

definition from_chars :: "string \<Rightarrow> errc \<times> int \<times> nat" where
  "from_chars s =
     (let neg = (s \<noteq> [] \<and> hd s = CHR ''-'');
          digits = takeWhile isdigit (if neg then tl s else s);
          v = (if neg then - int (digits_value digits) else int (digits_value digits));
          n = length digits + (if neg then 1 else 0)
      in if digits = [] then (Errc_invalid_argument, 0, 0)
         else if v < - (2 ^ 63) \<or> 2 ^ 63 \<le> v then (Errc_result_out_of_range, 0, n)
         else (Errc_ok, v, n))"

definition to_integer :: "string \<Rightarrow> int option" where
  "to_integer s =
     (case from_chars s of (ec, v, n) \<Rightarrow> if ec \<noteq> Errc_ok \<or> n \<noteq> length s then None else Some v)"

section \<open>What lies ahead\<close>

definition starts_with :: "char \<Rightarrow> string \<Rightarrow> bool" where
  "starts_with c s \<longleftrightarrow> (case s of [] \<Rightarrow> False | x # _ \<Rightarrow> x = c)"

text \<open>\<open>encoded_value[0]\<close> is read without a check. On an empty view this is the character
  behind its end: the terminating zero of the \<open>std::string\<close> every caller views to its end.\<close>

definition view_front :: "string \<Rightarrow> char" where
  "view_front s = (case s of [] \<Rightarrow> CHR 0x00 | c # _ \<Rightarrow> c)"

definition is_encoded_string_ahead :: "string \<Rightarrow> bool" where
  "is_encoded_string_ahead s \<longleftrightarrow> isdigit (view_front s)"

definition is_encoded_integer_ahead :: "string \<Rightarrow> bool" where
  "is_encoded_integer_ahead s \<longleftrightarrow> starts_with INTEGER_START_SYMBOL s"

definition is_encoded_list_ahead :: "string \<Rightarrow> bool" where
  "is_encoded_list_ahead s \<longleftrightarrow> starts_with LIST_START_SYMBOL s"

definition is_encoded_dict_ahead :: "string \<Rightarrow> bool" where
  "is_encoded_dict_ahead s \<longleftrightarrow> starts_with DICT_START_SYMBOL s"

definition detect_bencoded_value_type :: "string \<Rightarrow> encoded_value_type" where
  "detect_bencoded_value_type s =
     (if is_encoded_integer_ahead s then Ev_Integer
      else if is_encoded_string_ahead s then Ev_String
      else if is_encoded_list_ahead s then Ev_List
      else if is_encoded_dict_ahead s then Ev_Dictionary
      else Ev_Unknown)"

section \<open>Strings and integers\<close>

fun view_find :: "char \<Rightarrow> string \<Rightarrow> nat option" where
  "view_find c [] = None"
| "view_find c (x # s) = (if x = c then Some 0 else map_option Suc (view_find c s))"

text \<open>
  \<open>delimiter_index + 1 + *len\<close>: a \<open>size_t\<close> plus a \<open>long long\<close> is computed modulo \<open>2 ^ 64\<close>, so
  a negative length wraps to just below the delimiter, or to a huge position.
\<close>

definition last_symbol_pos :: "nat \<Rightarrow> int \<Rightarrow> nat" where
  "last_symbol_pos delimiter_index len =
     (if 0 \<le> len then delimiter_index + 1 + nat len
      else if nat (- len) \<le> delimiter_index + 1 then delimiter_index + 1 - nat (- len)
      else 2 ^ 64 + (delimiter_index + 1) - nat (- len))"

text \<open>The count argument of \<open>substr\<close> is a \<open>size_t\<close> as well.\<close>

definition size_of_integer :: "int \<Rightarrow> nat" where
  "size_of_integer len = nat (len mod 2 ^ 64)"

definition decode_string :: "string \<Rightarrow> decoded_value option" where
  "decode_string s =
     (case view_find STRING_DELIMITER_SYMBOL s of
        None \<Rightarrow> None
      | Some delimiter_index \<Rightarrow>
          (case to_integer (take delimiter_index s) of
             None \<Rightarrow> None
           | Some len \<Rightarrow>
               (let last = last_symbol_pos delimiter_index len in
                if length s < last then None
                else
                  (let decoded_str = take (size_of_integer len) (drop (delimiter_index + 1) s);
                       encoded = \<lparr>ev_type = Ev_String, ev_value = take last s\<rparr>
                   in case json_dump (- 1) (CHR '' '') True Strict (Json_string decoded_str) of
                        Inr _ \<Rightarrow> Some (encoded, Json_string decoded_str)
                      | Inl _ \<Rightarrow> Some (encoded, Json_binary (bytes_of_string decoded_str))))))"

definition decode_integer :: "string \<Rightarrow> decoded_value option" where
  "decode_integer s =
     (case view_find END_SYMBOL s of
        None \<Rightarrow> None
      | Some end_index \<Rightarrow>
          (let encoded_integer = take (end_index + 1) s;
               integer_str = butlast (drop 1 encoded_integer)
           in case to_integer integer_str of
                None \<Rightarrow> None
              | Some decoded_int \<Rightarrow>
                  Some (\<lparr>ev_type = Ev_Integer, ev_value = encoded_integer\<rparr>, Json_integer decoded_int)))"

section \<open>Lemmas about the pieces\<close>

lemma view_find_Some:
  "view_find c s = Some i \<Longrightarrow> i < length s \<and> s ! i = c \<and> c \<notin> set (take i s)"
proof (induction s arbitrary: i)
  case (Cons x s)
  then show ?case by (cases i) (auto split: if_splits)
qed simp

lemma view_find_append: "c \<notin> set xs \<Longrightarrow> view_find c (xs @ c # ys) = Some (length xs)"
  by (induction xs) auto

lemma view_find_None: "view_find c s = None \<longleftrightarrow> c \<notin> set s"
  by (induction s) auto

lemma to_integer_bounds: "to_integer s = Some v \<Longrightarrow> - (2 ^ 63) \<le> v \<and> v < 2 ^ 63"
  by (auto simp: to_integer_def from_chars_def Let_def split: if_splits)

lemma to_integer_nonneg: "to_integer s = Some v \<Longrightarrow> s = [] \<or> hd s \<noteq> CHR ''-'' \<Longrightarrow> 0 \<le> v"
  by (auto simp: to_integer_def from_chars_def Let_def split: if_splits)

lemma to_integer_Nil [simp]: "to_integer [] = None"
  by (simp add: to_integer_def from_chars_def)

lemma takeWhile_all: "list_all p xs \<Longrightarrow> takeWhile p xs = xs"
  by (induction xs) auto

lemma minus_not_digit [simp]: "\<not> isdigit (CHR ''-'')"
  by (simp add: isdigit_of_char)

lemma to_integer_dec_of_nat:
  "int n < 2 ^ 63 \<Longrightarrow> to_integer (dec_of_nat n) = Some (int n)"
proof -
  assume n: "int n < 2 ^ 63"
  have "hd (dec_of_nat n) \<noteq> CHR ''-''"
    using hd_dec_of_nat_isdigit [of n] by (metis minus_not_digit)
  with n show ?thesis
    by (simp add: to_integer_def from_chars_def Let_def takeWhile_all)
qed

lemma to_integer_dec_of_int:
  assumes "- (2 ^ 63) \<le> i" "i < 2 ^ 63"
  shows "to_integer (dec_of_int i) = Some i"
proof (cases "i < 0")
  case True
  with assms show ?thesis
    by (simp add: to_integer_def from_chars_def Let_def dec_of_int_def takeWhile_all)
next
  case False
  with assms show ?thesis
    using to_integer_dec_of_nat [of "nat i"] by (simp add: dec_of_int_def)
qed

lemma last_symbol_pos_nonneg: "0 \<le> len \<Longrightarrow> last_symbol_pos d len = d + 1 + nat len"
  by (simp add: last_symbol_pos_def)

text \<open>With the sizes of real strings (less than \<open>2 ^ 63\<close>) this is the 64-bit sum of the code.\<close>

lemma last_symbol_pos_word:
  assumes "d < 2 ^ 63 - 1" "- (2 ^ 63) \<le> len" "len < 2 ^ 63"
  shows "last_symbol_pos d len = unat (of_nat (d + 1) + of_int len :: u64)"
proof -
  define k where "k = int (d + 1) + len"
  have "(of_nat (d + 1) + of_int len :: u64) = of_int k" by (simp add: k_def)
  then have word: "unat (of_nat (d + 1) + of_int len :: u64) = nat (k mod 2 ^ 64)"
    by (simp add: unsigned_of_int take_bit_eq_mod flip: nat_uint_eq)
  have bound: "- (2 ^ 63) \<le> k" "k < 2 ^ 64" using assms by (auto simp: k_def)
  show ?thesis
  proof (cases "0 \<le> k")
    case True
    with bound have "k mod 2 ^ 64 = k" by simp
    with True word show ?thesis by (auto simp: last_symbol_pos_def k_def)
  next
    case False
    have "k mod 2 ^ 64 = (k + 2 ^ 64) mod 2 ^ 64" by simp
    also have "\<dots> = k + 2 ^ 64" using False bound by (intro mod_pos_pos_trivial) auto
    finally show ?thesis using False word by (auto simp: last_symbol_pos_def k_def)
  qed
qed

lemma size_of_integer_nonneg: "0 \<le> len \<Longrightarrow> len < 2 ^ 63 \<Longrightarrow> size_of_integer len = nat len"
  by (simp add: size_of_integer_def)

text \<open>Every decoded string is a prefix of the input; it is the whole "length, colon, bytes" and
  not empty when the first character is a digit.\<close>

lemma decode_string_prefix:
  "decode_string s = Some (enc, j) \<Longrightarrow> \<exists>n \<le> length s. ev_value enc = take n s"
  by (auto simp: decode_string_def Let_def not_less split: option.splits if_splits sum.splits)

lemma decode_string_progress:
  assumes "decode_string s = Some (enc, j)" "isdigit (hd s)"
  shows "0 < length (ev_value enc)"
proof -
  obtain d len where d: "view_find STRING_DELIMITER_SYMBOL s = Some d"
    and len: "to_integer (take d s) = Some len"
    and last: "last_symbol_pos d len \<le> length s"
    and enc: "ev_value enc = take (last_symbol_pos d len) s"
    using assms(1) by (auto simp: decode_string_def Let_def not_less split: option.splits if_splits sum.splits)
  have "take d s = [] \<or> hd (take d s) \<noteq> CHR ''-''"
    using assms(2) minus_not_digit by (cases d; cases s) auto
  then have "0 \<le> len" using len to_integer_nonneg by blast
  then show ?thesis using enc last by (simp add: last_symbol_pos_nonneg)
qed

lemma decode_integer_prefix:
  "decode_integer s = Some (enc, j) \<Longrightarrow> \<exists>n \<le> length s. 0 < n \<and> ev_value enc = take n s"
  using view_find_Some [of END_SYMBOL s]
  by (auto simp: decode_integer_def Let_def split: option.splits intro!: exI [of _ "Suc (the (view_find END_SYMBOL s))"])

section \<open>Lists, dictionaries and values\<close>

text \<open>
  The loop of a list: \<open>remaining\<close> and the values so far. The loop of a dictionary: a key is
  decoded as a string whatever comes first (\<open>decode_string\<close> is called directly), its
  conversion to \<open>std::string\<close> throws \<open>type_error\<close> 302 when it was taken for binary data, and
  \<open>std::map::insert\<close> keeps the first value of a key.
\<close>

function (sequential)
    decode_bencoded_value :: "string \<Rightarrow> decoded_value option result"
  and decode_bencoded_list :: "string \<Rightarrow> decoded_value option result"
  and decode_list_loop :: "string \<Rightarrow> json list \<Rightarrow> (string \<times> json list) option result"
  and decode_bencoded_dict :: "string \<Rightarrow> decoded_value option result"
  and decode_dict_loop ::
    "string \<Rightarrow> (string \<times> json) list \<Rightarrow> (string \<times> (string \<times> json) list) option result"
where
  "decode_bencoded_value s =
     (case detect_bencoded_value_type s of
        Ev_String \<Rightarrow> Inr (decode_string s)
      | Ev_Integer \<Rightarrow> Inr (decode_integer s)
      | Ev_List \<Rightarrow> decode_bencoded_list s
      | Ev_Dictionary \<Rightarrow> decode_bencoded_dict s
      | Ev_Unknown \<Rightarrow> Inr None)"
| "decode_bencoded_list s =
     (case decode_list_loop (drop 1 s) [] of
        Inl e \<Rightarrow> Inl e
      | Inr None \<Rightarrow> Inr None
      | Inr (Some (remaining, js)) \<Rightarrow>
          (let remaining' = drop 1 remaining;
               encoded_list_len = length s - length remaining'
           in Inr (Some (\<lparr>ev_type = Ev_List, ev_value = take encoded_list_len s\<rparr>, Json_array js))))"
| "decode_list_loop remaining js =
     (if starts_with END_SYMBOL remaining then Inr (Some (remaining, js))
      else case decode_bencoded_value remaining of
             Inl e \<Rightarrow> Inl e
           | Inr None \<Rightarrow> Inr None
           | Inr (Some (enc, j)) \<Rightarrow>
               decode_list_loop (drop (length (ev_value enc)) remaining) (js @ [j]))"
| "decode_bencoded_dict s =
     (case decode_dict_loop (drop 1 s) [] of
        Inl e \<Rightarrow> Inl e
      | Inr None \<Rightarrow> Inr None
      | Inr (Some (remaining, m)) \<Rightarrow>
          (let remaining' = drop 1 remaining;
               encoded_dict_len = length s - length remaining'
           in Inr (Some (\<lparr>ev_type = Ev_Dictionary, ev_value = take encoded_dict_len s\<rparr>, Json_object m))))"
| "decode_dict_loop remaining m =
     (if starts_with END_SYMBOL remaining then Inr (Some (remaining, m))
      else case decode_string remaining of
             None \<Rightarrow> Inr None
           | Some (enc_key, key) \<Rightarrow>
               (let after_key = drop (length (ev_value enc_key)) remaining in
                case decode_bencoded_value after_key of
                  Inl e \<Rightarrow> Inl e
                | Inr None \<Rightarrow> Inr None
                | Inr (Some (enc_value, v)) \<Rightarrow>
                    (case get_string key of
                       Inl e \<Rightarrow> Inl e
                     | Inr k \<Rightarrow>
                         decode_dict_loop (drop (length (ev_value enc_value)) after_key)
                           (object_insert k v m))))"
  by pat_completeness auto

subsection \<open>Termination\<close>

definition nonempty_prefix :: "string \<Rightarrow> string \<Rightarrow> bool" where
  "nonempty_prefix p s \<longleftrightarrow> (\<exists>n. 0 < n \<and> n \<le> length s \<and> p = take n s)"

lemma nonempty_prefix_length: "nonempty_prefix p s \<Longrightarrow> 0 < length p \<and> length p \<le> length s"
  by (auto simp: nonempty_prefix_def)

lemma nonempty_prefix_take:
  "0 < length s - n \<Longrightarrow> nonempty_prefix (take (length s - n) s) s"
  by (auto simp: nonempty_prefix_def intro!: exI [of _ "length s - n"])

lemma starts_with_nonempty: "starts_with c s \<Longrightarrow> s \<noteq> []"
  by (auto simp: starts_with_def)

lemma detect_string_digit: "detect_bencoded_value_type s = Ev_String \<Longrightarrow> isdigit (hd s)"
  by (cases s) (auto simp: detect_bencoded_value_type_def is_encoded_string_ahead_def view_front_def
      isdigit_of_char split: if_splits)

lemma detect_nonempty:
  "detect_bencoded_value_type s = Ev_List \<Longrightarrow> s \<noteq> []"
  "detect_bencoded_value_type s = Ev_Dictionary \<Longrightarrow> s \<noteq> []"
  by (auto simp: detect_bencoded_value_type_def is_encoded_list_ahead_def is_encoded_dict_ahead_def
      starts_with_def split: if_splits)

lemma decode_string_nonempty_prefix:
  "detect_bencoded_value_type s = Ev_String \<Longrightarrow> decode_string s = Some (enc, j) \<Longrightarrow>
     nonempty_prefix (ev_value enc) s"
  using decode_string_progress [of s enc j] decode_string_prefix [of s enc j] detect_string_digit [of s]
  by (auto simp: nonempty_prefix_def)

lemma decode_integer_nonempty_prefix:
  "decode_integer s = Some (enc, j) \<Longrightarrow> nonempty_prefix (ev_value enc) s"
  using decode_integer_prefix [of s enc j] by (auto simp: nonempty_prefix_def)

abbreviation decode_dom where
  "decode_dom \<equiv> decode_bencoded_value_decode_bencoded_list_decode_list_loop_decode_bencoded_dict_decode_dict_loop_dom"

definition ends_at :: "string \<Rightarrow> string \<Rightarrow> bool" where
  "ends_at r' r \<longleftrightarrow> (\<exists>k. r' = drop k r) \<and> starts_with END_SYMBOL r'"

lemma ends_at_length: "ends_at r' r \<Longrightarrow> 0 < length r' \<and> length r' \<le> length r"
  by (auto simp: ends_at_def dest: starts_with_nonempty)

lemma ends_at_drop: "ends_at r' (drop n r) \<Longrightarrow> ends_at r' r"
  by (auto simp: ends_at_def)

lemma ends_at_consumed:
  assumes "ends_at r' (drop (Suc 0) s)"
  shows "nonempty_prefix (take (length s - (length r' - Suc 0)) s) s"
  using ends_at_length [OF assms] by (intro nonempty_prefix_take) (cases r'; cases s; simp)

lemma decode_consumes_dom:
  "decode_dom (Inl (Inl s)) \<Longrightarrow>
     decode_bencoded_value s = Inr (Some (enc, j)) \<Longrightarrow> nonempty_prefix (ev_value enc) s"
  "decode_dom (Inl (Inr sl)) \<Longrightarrow>
     decode_bencoded_list sl = Inr (Some (encl, jl)) \<Longrightarrow> nonempty_prefix (ev_value encl) sl"
  "decode_dom (Inr (Inl (r, js))) \<Longrightarrow>
     decode_list_loop r js = Inr (Some (r', js')) \<Longrightarrow> ends_at r' r"
  "decode_dom (Inr (Inr (Inl sd))) \<Longrightarrow>
     decode_bencoded_dict sd = Inr (Some (encd, jd)) \<Longrightarrow> nonempty_prefix (ev_value encd) sd"
  "decode_dom (Inr (Inr (Inr (rd, m)))) \<Longrightarrow>
     decode_dict_loop rd m = Inr (Some (rd', m')) \<Longrightarrow> ends_at rd' rd"
proof (induction s and sl and r js and sd and rd m arbitrary: enc j and encl jl and r' js' and encd jd and rd' m'
    rule: decode_bencoded_value_decode_bencoded_list_decode_list_loop_decode_bencoded_dict_decode_dict_loop.pinduct)
  case (1 s)
  then show ?case
    by (auto simp: decode_bencoded_value.psimps decode_integer_nonempty_prefix
        decode_string_nonempty_prefix split: encoded_value_type.splits)
next
  case (2 s)
  then show ?case
    by (auto simp: decode_bencoded_list.psimps Let_def ends_at_consumed split: sum.splits option.splits)
next
  case (3 r js)
  show ?case
  proof (cases "starts_with END_SYMBOL r")
    case True
    with 3 show ?thesis
      by (auto simp: decode_list_loop.psimps ends_at_def intro: exI [of _ 0])
  next
    case False
    with 3 show ?thesis
      by (auto simp: decode_list_loop.psimps split: sum.splits option.splits) (blast intro: ends_at_drop)
  qed
next
  case (4 s)
  then show ?case
    by (auto simp: decode_bencoded_dict.psimps Let_def ends_at_consumed split: sum.splits option.splits)
next
  case (5 r m)
  show ?case
  proof (cases "starts_with END_SYMBOL r")
    case True
    with 5 show ?thesis
      by (auto simp: decode_dict_loop.psimps ends_at_def intro: exI [of _ 0])
  next
    case False
    with 5(1,4) obtain ek key ev v k where step:
      "decode_string r = Some (ek, key)"
      "decode_bencoded_value (drop (length (ev_value ek)) r) = Inr (Some (ev, v))"
      "get_string key = Inr k"
      "decode_dict_loop (drop (length (ev_value ev)) (drop (length (ev_value ek)) r))
         (object_insert k v m) = Inr (Some (rd', m'))"
      by (auto simp: decode_dict_loop.psimps Let_def simp del: drop_drop split: sum.splits option.splits)
    from 5(3) [OF False step(1) refl refl step(2) refl refl step(3,4)]
    show ?thesis by (rule ends_at_drop [OF ends_at_drop])
  qed
qed

definition decode_size :: "(string + string) + (string \<times> json list) + string + (string \<times> (string \<times> json) list) \<Rightarrow> nat" where
  "decode_size call =
     (case call of
        Inl (Inl s) \<Rightarrow> 3 * length s
      | Inl (Inr s) \<Rightarrow> (if s = [] then 2 else 3 * length s - 1)
      | Inr (Inl (r, js)) \<Rightarrow> 3 * length r + 1
      | Inr (Inr (Inl s)) \<Rightarrow> (if s = [] then 2 else 3 * length s - 1)
      | Inr (Inr (Inr (r, m))) \<Rightarrow> 3 * length r + 1)"

lemma decode_size_step: "s \<noteq> [] \<Longrightarrow> Suc (3 * (length s - Suc 0)) < 3 * length s - Suc 0"
  by (cases s) auto

lemma decode_progress_dom:
  "decode_dom (Inl (Inl s)) \<Longrightarrow> decode_bencoded_value s = Inr (Some (enc, j)) \<Longrightarrow>
     ev_value enc \<noteq> [] \<and> length (ev_value enc) \<le> length s \<and>
     length s - length (ev_value enc) < length s"
  using decode_consumes_dom(1) [of s enc j] nonempty_prefix_length [of "ev_value enc" s]
  by (cases s) auto

lemma decode_dom_all: "All decode_dom"
proof (rule "decode_bencoded_value_decode_bencoded_list_decode_list_loop_decode_bencoded_dict_decode_dict_loop.termination"
    [of "measure decode_size"], goal_cases)
  case (6 r b x2 x y)
  then show ?case by (auto simp: decode_size_def dest!: decode_progress_dom)
next
  case (9 r x2 x y xa b x2a xb ya ba)
  then show ?case by (auto simp: decode_size_def dest!: decode_progress_dom)
qed (auto simp: decode_size_def detect_nonempty decode_size_step)

termination decode_bencoded_value
  by (rule decode_dom_all)

lemmas decode_consumes = decode_consumes_dom [OF decode_dom_all [rule_format]]

declare decode_bencoded_value.simps [simp del] decode_bencoded_list.simps [simp del]
  decode_list_loop.simps [simp del] decode_bencoded_dict.simps [simp del] decode_dict_loop.simps [simp del]

lemmas decode_simps =
  decode_bencoded_value.simps decode_bencoded_list.simps decode_list_loop.simps
  decode_bencoded_dict.simps decode_dict_loop.simps

lemmas decode_induct =
  decode_bencoded_value_decode_bencoded_list_decode_list_loop_decode_bencoded_dict_decode_dict_loop.induct

section \<open>What the decoder returns\<close>

text \<open>The values bencode can represent, as the decoder builds them: integers of 64 bits, strings
  that are UTF-8, binary data that is not, objects sorted by key. Sizes are those a
  \<open>std::string\<close> can have.\<close>

fun bencodable :: "json \<Rightarrow> bool" where
  "bencodable (Json_integer i) \<longleftrightarrow> - (2 ^ 63) \<le> i \<and> i < 2 ^ 63"
| "bencodable (Json_string s) \<longleftrightarrow> utf8_string s \<and> int (length s) < 2 ^ 63"
| "bencodable (Json_binary bs) \<longleftrightarrow> \<not> utf8_string (string_of_bytes bs) \<and> int (length bs) < 2 ^ 63"
| "bencodable (Json_array js) \<longleftrightarrow> (\<forall>j \<in> set js. bencodable j)"
| "bencodable (Json_object m) \<longleftrightarrow>
     object_sorted m \<and> (\<forall>(k, j) \<in> set m. utf8_string k \<and> int (length k) < 2 ^ 63 \<and> bencodable j)"
| "bencodable _ \<longleftrightarrow> False"

fun type_of_json :: "json \<Rightarrow> encoded_value_type" where
  "type_of_json (Json_integer _) = Ev_Integer"
| "type_of_json (Json_string _) = Ev_String"
| "type_of_json (Json_binary _) = Ev_String"
| "type_of_json (Json_array _) = Ev_List"
| "type_of_json (Json_object _) = Ev_Dictionary"
| "type_of_json _ = Ev_Unknown"

lemma bencodable_json_utf8: "bencodable j \<Longrightarrow> json_utf8 j"
  by (induction j rule: bencodable.induct) fastforce+

lemma dump_bencodable: "bencodable j \<Longrightarrow> \<exists>t. dump ea j = Inr t"
  using bencodable_json_utf8 [of j] dump_ok_iff(1) [of ea j] by simp

lemma dump_string_cases: "dump ea (Json_string s) = Inl e \<Longrightarrow> \<not> utf8_string s"
  "dump ea (Json_string s) = Inr t \<Longrightarrow> utf8_string s"
  using quoted_cases [of ea s] by auto

lemma decode_string_bencodable:
  "decode_string s = Some (enc, j) \<Longrightarrow> int (length s) < 2 ^ 63 \<Longrightarrow>
     bencodable j \<and> type_of_json j = ev_type enc \<and> ev_type enc = Ev_String"
  by (auto simp: decode_string_def Let_def simp del: dump.simps
      dest: dump_string_cases split: option.splits if_splits sum.splits)

lemma decode_integer_bencodable:
  "decode_integer s = Some (enc, j) \<Longrightarrow> bencodable j \<and> type_of_json j = ev_type enc"
  by (auto simp: decode_integer_def Let_def dest: to_integer_bounds split: option.splits)

text \<open>The key of a dictionary entry, once converted to a string.\<close>

lemma decode_key_utf8:
  "decode_string s = Some (enc, j) \<Longrightarrow> int (length s) < 2 ^ 63 \<Longrightarrow> get_string j = Inr k \<Longrightarrow>
     utf8_string k \<and> int (length k) < 2 ^ 63"
  using decode_string_bencodable [of s enc j] by (auto simp: get_string_def split: json.splits)

lemma object_insert_bencodable:
  assumes "bencodable (Json_object m)" "utf8_string k" "int (length k) < 2 ^ 63" "bencodable v"
  shows "bencodable (Json_object (object_insert k v m))"
  using assms set_object_insert [of k v m] by (auto simp: object_sorted_insert dest!: subsetD)

lemma decode_bencodable:
  "int (length s) < 2 ^ 63 \<Longrightarrow> decode_bencoded_value s = Inr (Some (enc, j)) \<Longrightarrow>
     bencodable j \<and> type_of_json j = ev_type enc"
  "int (length sl) < 2 ^ 63 \<Longrightarrow> decode_bencoded_list sl = Inr (Some (encl, jl)) \<Longrightarrow>
     bencodable jl \<and> type_of_json jl = ev_type encl"
  "int (length r) < 2 ^ 63 \<Longrightarrow> \<forall>j \<in> set js. bencodable j \<Longrightarrow>
     decode_list_loop r js = Inr (Some (r', js')) \<Longrightarrow> \<forall>j \<in> set js'. bencodable j"
  "int (length sd) < 2 ^ 63 \<Longrightarrow> decode_bencoded_dict sd = Inr (Some (encd, jd)) \<Longrightarrow>
     bencodable jd \<and> type_of_json jd = ev_type encd"
  "int (length rd) < 2 ^ 63 \<Longrightarrow> bencodable (Json_object m) \<Longrightarrow>
     decode_dict_loop rd m = Inr (Some (rd', m')) \<Longrightarrow> bencodable (Json_object m')"
proof (induction s and sl and r js and sd and rd m
    arbitrary: enc j and encl jl and r' js' and encd jd and rd' m' rule: decode_induct)
  case (1 s)
  then show ?case
    by (auto simp: decode_bencoded_value.simps [of s] split: encoded_value_type.splits
        dest: decode_integer_bencodable decode_string_bencodable)
next
  case (2 s)
  then show ?case
    by (auto simp: decode_bencoded_list.simps [of s] Let_def split: sum.splits option.splits)
next
  case (3 r js)
  show ?case
  proof (cases "starts_with END_SYMBOL r")
    case True
    with 3(4,5) show ?thesis by (simp add: decode_list_loop.simps [of r js])
  next
    case False
    with 3(4,5) obtain ek v where step:
      "decode_bencoded_value r = Inr (Some (ek, v))"
      "decode_list_loop (drop (length (ev_value ek)) r) (js @ [v]) = Inr (Some (r', js'))"
      by (auto simp: decode_list_loop.simps [of r js] split: sum.splits option.splits)
    with 3(1) [OF False 3(3) step(1)] 3(3,4) show ?thesis
      by (intro 3(2) [OF False step(1) refl refl _ _ step(2)]) auto
  qed
next
  case (4 s)
  then show ?case
    by (auto simp: decode_bencoded_dict.simps [of s] Let_def split: sum.splits option.splits)
next
  case (5 r m)
  show ?case
  proof (cases "starts_with END_SYMBOL r")
    case True
    with 5(4,5) show ?thesis by (simp add: decode_dict_loop.simps [of r m])
  next
    case False
    with 5(5) obtain ek key ev v k where step:
      "decode_string r = Some (ek, key)"
      "decode_bencoded_value (drop (length (ev_value ek)) r) = Inr (Some (ev, v))"
      "get_string key = Inr k"
      "decode_dict_loop (drop (length (ev_value ev)) (drop (length (ev_value ek)) r))
         (object_insert k v m) = Inr (Some (rd', m'))"
      by (auto simp: decode_dict_loop.simps [of r m] Let_def simp del: drop_drop
          split: sum.splits option.splits)
    have "bencodable v"
      using 5(1) [OF False step(1) refl refl _ step(2)] 5(3) by simp
    then have "bencodable (Json_object (object_insert k v m))"
      using decode_key_utf8 [OF step(1) 5(3) step(3)] 5(4) by (intro object_insert_bencodable) auto
    with 5(3) show ?thesis
      by (intro 5(2) [OF False step(1) refl refl step(2) refl refl step(3) _ _ step(4)]) auto
  qed
qed

text \<open>The only exception is the conversion of a key that is not UTF-8.\<close>

lemma get_string_error: "get_string j = Inl e \<Longrightarrow> e = Json_type_error 302"
  by (auto simp: get_string_def split: json.splits)

lemma decode_error:
  "decode_bencoded_value s = Inl e \<Longrightarrow> e = Json_type_error 302"
  "decode_bencoded_list sl = Inl e \<Longrightarrow> e = Json_type_error 302"
  "decode_list_loop r js = Inl e \<Longrightarrow> e = Json_type_error 302"
  "decode_bencoded_dict sd = Inl e \<Longrightarrow> e = Json_type_error 302"
  "decode_dict_loop rd m = Inl e \<Longrightarrow> e = Json_type_error 302"
proof (induction s and sl and r js and sd and rd m rule: decode_induct)
  case (1 s)
  then show ?case
    by (auto simp: decode_bencoded_value.simps [of s] split: encoded_value_type.splits)
next
  case (2 s)
  then show ?case
    by (auto simp: decode_bencoded_list.simps [of s] Let_def split: sum.splits option.splits)
next
  case (3 r js)
  show ?case
  proof (cases "starts_with END_SYMBOL r")
    case False
    with 3(1) [OF False] 3(2) [OF False] 3(3) show ?thesis
      by (auto simp: decode_list_loop.simps [of r js] split: sum.splits option.splits)
  qed (use 3(3) in \<open>simp add: decode_list_loop.simps [of r js]\<close>)
next
  case (4 s)
  then show ?case
    by (auto simp: decode_bencoded_dict.simps [of s] Let_def split: sum.splits option.splits)
next
  case (5 r m)
  show ?case
  proof (cases "starts_with END_SYMBOL r")
    case False
    show ?thesis
    proof (cases "decode_string r")
      case None
      with False 5(3) show ?thesis by (simp add: decode_dict_loop.simps [of r m])
    next
      case (Some kk)
      obtain ek key where kk: "kk = (ek, key)" by fastforce
      let ?a = "drop (length (ev_value ek)) r"
      from 5(1) [OF False Some kk [symmetric] refl] 5(2) [OF False Some kk [symmetric] refl] 5(3)
        False Some kk get_string_error
      show ?thesis
        by (auto simp: decode_dict_loop.simps [of r m] Let_def simp del: drop_drop
            split: sum.splits option.splits)
    qed
  qed (use 5(3) in \<open>simp add: decode_dict_loop.simps [of r m]\<close>)
qed

section \<open>Properties\<close>

text \<open>C26: on an input that fits in memory the decoder ends, and a value it returns has consumed
  a nonempty front of the input, carries the tag of its kind and is one bencode can represent
  (64-bit integers, strings that are UTF-8, bytes that are not, sorted objects); the only
  exception it throws is \<open>type_error\<close> 302.\<close>

theorem decoder_result:
  assumes "int (length s) < 2 ^ 63"
  shows "case decode_bencoded_value s of
      Inl e \<Rightarrow> e = Json_type_error 302
    | Inr None \<Rightarrow> True
    | Inr (Some (enc, j)) \<Rightarrow> nonempty_prefix (ev_value enc) s \<and> bencodable j \<and> type_of_json j = ev_type enc"
  using decode_error(1) [of s] decode_consumes(1) [of s] decode_bencodable(1) [OF assms]
  by (auto split: sum.split option.split)

theorem decoder_result_witness:
  "case decode_bencoded_value ''li5e-3:e'' of
      Inl e \<Rightarrow> e = Json_type_error 302
    | Inr None \<Rightarrow> True
    | Inr (Some (enc, j)) \<Rightarrow>
        nonempty_prefix (ev_value enc) ''li5e-3:e'' \<and> bencodable j \<and> type_of_json j = ev_type enc"
  by (rule decoder_result) simp

end
