(* ===== verification/Bencode_Grammar.thy ===== *)
theory Bencode_Grammar
  imports Bencode_Decoders
begin

text \<open>
  An abstract specification of the decoder: the bencode grammar as an inductive relation
  between a text and the value it denotes. The decoder finds every word of the grammar at the
  front of its input (completeness), and what it accepts is a word of the grammar, provided no
  minus sign followed by digits and a colon occurs in the input (soundness). The proviso is
  needed: the code takes such a sequence for the length of a dictionary key.
\<close>

section \<open>The grammar\<close>

definition json_of_chars :: "string \<Rightarrow> json" where
  "json_of_chars str =
     (if utf8_string str then Json_string str else Json_binary (bytes_of_string str))"

definition length_word :: "string \<Rightarrow> string \<Rightarrow> bool" where
  "length_word ds str \<longleftrightarrow>
     ds \<noteq> [] \<and> list_all isdigit ds \<and> digits_value ds = length str \<and> int (length str) < 2 ^ 63"

inductive bvalue :: "string \<Rightarrow> json \<Rightarrow> bool"
  and bitems :: "string \<Rightarrow> json list \<Rightarrow> bool"
  and bentries :: "string \<Rightarrow> (string \<times> json) list \<Rightarrow> bool" where
  bint: "to_integer ds = Some i \<Longrightarrow>
    bvalue (INTEGER_START_SYMBOL # ds @ [END_SYMBOL]) (Json_integer i)"
| bstr: "length_word ds str \<Longrightarrow> bvalue (ds @ STRING_DELIMITER_SYMBOL # str) (json_of_chars str)"
| blist: "bitems t js \<Longrightarrow> bvalue (LIST_START_SYMBOL # t @ [END_SYMBOL]) (Json_array js)"
| bdict: "bentries t kvs \<Longrightarrow>
    bvalue (DICT_START_SYMBOL # t @ [END_SYMBOL]) (Json_object (obj.insert_all kvs []))"
| bitems_Nil: "bitems [] []"
| bitems_Cons: "bvalue t j \<Longrightarrow> bitems ts js \<Longrightarrow> bitems (t @ ts) (j # js)"
| bentries_Nil: "bentries [] []"
| bentries_Cons: "length_word ds k \<Longrightarrow> utf8_string k \<Longrightarrow> bvalue t j \<Longrightarrow> bentries ts kvs \<Longrightarrow>
    bentries ((ds @ STRING_DELIMITER_SYMBOL # k) @ t @ ts) ((k, j) # kvs)"

lemmas bentries_step = bentries_Cons [simplified append_assoc append_Cons]

section \<open>Symbols\<close>

lemma digit_symbols [simp]:
  "\<not> isdigit STRING_DELIMITER_SYMBOL" "\<not> isdigit END_SYMBOL" "\<not> isdigit INTEGER_START_SYMBOL"
  "\<not> isdigit LIST_START_SYMBOL" "\<not> isdigit DICT_START_SYMBOL"
  by (simp_all add: bencode_symbols isdigit_of_char)

lemma symbols_distinct [simp]:
  "INTEGER_START_SYMBOL \<noteq> END_SYMBOL" "LIST_START_SYMBOL \<noteq> END_SYMBOL" "DICT_START_SYMBOL \<noteq> END_SYMBOL"
  "LIST_START_SYMBOL \<noteq> INTEGER_START_SYMBOL" "DICT_START_SYMBOL \<noteq> INTEGER_START_SYMBOL"
  "DICT_START_SYMBOL \<noteq> LIST_START_SYMBOL" "END_SYMBOL \<noteq> INTEGER_START_SYMBOL"
  by (simp_all add: bencode_symbols)

lemma starts_with_Cons [simp]: "starts_with c (x # s) \<longleftrightarrow> x = c"
  by (simp add: starts_with_def)

lemma starts_with_Nil [simp]: "\<not> starts_with c []"
  by (simp add: starts_with_def)

lemma starts_with_hd: "starts_with c s \<Longrightarrow> \<exists>r. s = c # r"
  by (cases s) auto

lemma detect_symbols [simp]:
  "detect_bencoded_value_type (INTEGER_START_SYMBOL # s) = Ev_Integer"
  "detect_bencoded_value_type (LIST_START_SYMBOL # s) = Ev_List"
  "detect_bencoded_value_type (DICT_START_SYMBOL # s) = Ev_Dictionary"
  by (simp_all add: detect_bencoded_value_type_def is_encoded_integer_ahead_def
      is_encoded_string_ahead_def is_encoded_list_ahead_def is_encoded_dict_ahead_def view_front_def)

lemma detect_digit: "isdigit c \<Longrightarrow> detect_bencoded_value_type (c # s) = Ev_String"
  using digit_symbols(3)
  by (auto simp: detect_bencoded_value_type_def is_encoded_integer_ahead_def
      is_encoded_string_ahead_def view_front_def)

lemma detect_starts:
  "detect_bencoded_value_type s = Ev_Integer \<Longrightarrow> \<exists>r. s = INTEGER_START_SYMBOL # r"
  "detect_bencoded_value_type s = Ev_List \<Longrightarrow> \<exists>r. s = LIST_START_SYMBOL # r"
  "detect_bencoded_value_type s = Ev_Dictionary \<Longrightarrow> \<exists>r. s = DICT_START_SYMBOL # r"
  by (auto simp: detect_bencoded_value_type_def is_encoded_integer_ahead_def
      is_encoded_list_ahead_def is_encoded_dict_ahead_def dest: starts_with_hd split: if_splits)

section \<open>Completeness\<close>

lemma delimiter_not_digit: "list_all isdigit ds \<Longrightarrow> STRING_DELIMITER_SYMBOL \<notin> set ds"
  by (auto simp: list_all_iff)

lemma to_integer_digits_value:
  assumes "ds \<noteq> []" "list_all isdigit ds" "int (digits_value ds) < 2 ^ 63"
  shows "to_integer ds = Some (int (digits_value ds))"
proof -
  have "hd ds \<noteq> CHR ''-''"
    using assms(1,2) minus_not_digit by (cases ds) auto
  then show ?thesis
    using assms by (simp add: to_integer_def from_chars_def Let_def takeWhile_all)
qed

lemma decode_string_complete:
  assumes "length_word ds str"
  shows "decode_string (ds @ STRING_DELIMITER_SYMBOL # str @ rest) =
           Some (\<lparr>ev_type = Ev_String, ev_value = ds @ STRING_DELIMITER_SYMBOL # str\<rparr>, json_of_chars str)"
proof -
  let ?s = "ds @ STRING_DELIMITER_SYMBOL # str @ rest"
  have ds: "ds \<noteq> []" "list_all isdigit ds" "digits_value ds = length str" "int (length str) < 2 ^ 63"
    using assms by (simp_all add: length_word_def)
  have find: "view_find STRING_DELIMITER_SYMBOL ?s = Some (length ds)"
    using view_find_append [OF delimiter_not_digit [OF ds(2)]] .
  have len: "to_integer (take (length ds) ?s) = Some (int (length str))"
    using to_integer_digits_value [of ds] ds by simp
  have size: "size_of_integer (int (length str)) = length str"
    using ds by (simp add: size_of_integer_nonneg)
  have str: "take (length str) (drop (length ds + 1) ?s) = str"
    by simp
  have pos: "last_symbol_pos (length ds) (int (length str)) = length ds + 1 + length str"
    by (simp add: last_symbol_pos_nonneg)
  have bound: "(length ?s < length ds + 1 + length str) = False"
    and take: "take (length ds + 1 + length str) ?s = ds @ STRING_DELIMITER_SYMBOL # str"
    by simp_all
  show ?thesis
    using quoted_cases [of True str]
    by (auto simp only: decode_string_def find len size str pos bound take Let_def option.case
        if_False if_True json_dump_strict dump.simps sum.case json_of_chars_def)
qed

lemma takeWhile_full: "length (takeWhile p xs) = length xs \<Longrightarrow> list_all p xs"
  by (metis Ball_set set_takeWhileD takeWhile_eq_take take_all_iff order_refl)

lemma to_integer_form:
  assumes "to_integer u = Some v"
  obtains ds where "ds \<noteq> []" "list_all isdigit ds" "u = ds" "v = int (digits_value ds)"
  | ds where "ds \<noteq> []" "list_all isdigit ds" "u = CHR ''-'' # ds" "v = - int (digits_value ds)"
proof (cases "u \<noteq> [] \<and> hd u = CHR ''-''")
  case True
  then obtain ds where u: "u = CHR ''-'' # ds" by (cases u) auto
  with assms have all: "list_all isdigit ds" and "ds \<noteq> []"
    by (auto simp: to_integer_def from_chars_def Let_def split: if_splits intro: takeWhile_full)
  with assms u show ?thesis
    by (auto simp: to_integer_def from_chars_def Let_def takeWhile_all split: if_splits intro!: that(2))
next
  case False
  with assms have all: "list_all isdigit u" and "u \<noteq> []"
    by (auto simp: to_integer_def from_chars_def Let_def split: if_splits intro: takeWhile_full)
  with assms False show ?thesis
    by (auto simp: to_integer_def from_chars_def Let_def takeWhile_all split: if_splits intro!: that(1))
qed

lemma to_integer_chars: "to_integer ds = Some i \<Longrightarrow> \<forall>c \<in> set ds. isdigit c \<or> c = CHR ''-''"
  by (erule to_integer_form) (auto simp: list_all_iff)

lemma end_not_in_integer: "to_integer ds = Some i \<Longrightarrow> END_SYMBOL \<notin> set ds"
  using to_integer_chars [of ds i] digit_symbols(2) by (auto simp: END_SYMBOL_def)

lemma decode_integer_complete:
  assumes "to_integer ds = Some i"
  shows "decode_integer (INTEGER_START_SYMBOL # ds @ END_SYMBOL # rest) =
           Some (\<lparr>ev_type = Ev_Integer, ev_value = INTEGER_START_SYMBOL # ds @ [END_SYMBOL]\<rparr>,
                 Json_integer i)"
proof -
  have "view_find END_SYMBOL ((INTEGER_START_SYMBOL # ds) @ END_SYMBOL # rest) =
      Some (length (INTEGER_START_SYMBOL # ds))"
    using end_not_in_integer [OF assms] by (intro view_find_append) simp
  then show ?thesis
    using assms by (simp add: decode_integer_def Let_def butlast_append)
qed

lemma length_word_starts: "length_word ds str \<Longrightarrow> \<exists>c u. ds = c # u \<and> isdigit c"
  by (cases ds) (auto simp: length_word_def)

lemma bvalue_starts: "bvalue t j \<Longrightarrow> \<not> starts_with END_SYMBOL (t @ rest)"
  by (cases rule: bvalue.cases, assumption) (auto dest!: length_word_starts)

lemma bvalue_decode:
  "bvalue t j \<Longrightarrow>
     decode_bencoded_value (t @ rest) = Inr (Some (\<lparr>ev_type = type_of_json j, ev_value = t\<rparr>, j))"
  "bitems tj js \<Longrightarrow>
     decode_list_loop (tj @ END_SYMBOL # rest) jacc = Inr (Some (END_SYMBOL # rest, jacc @ js))"
  "bentries tm kvs \<Longrightarrow>
     decode_dict_loop (tm @ END_SYMBOL # rest) acc =
       Inr (Some (END_SYMBOL # rest, obj.insert_all kvs acc))"
proof (induction arbitrary: rest and rest jacc and rest acc rule: bvalue_bitems_bentries.inducts)
  case (bint ds i)
  then show ?case by (simp add: decode_bencoded_value.simps decode_integer_complete)
next
  case (bstr ds str)
  moreover obtain c u where "ds = c # u" "isdigit c"
    using length_word_starts [OF bstr] by auto
  ultimately show ?case
    using decode_string_complete [of ds str rest]
    by (simp add: decode_bencoded_value.simps detect_digit json_of_chars_def)
next
  case (blist t js)
  then show ?case
    by (simp add: decode_bencoded_value.simps decode_bencoded_list.simps Let_def)
next
  case (bdict t kvs)
  then show ?case
    by (simp add: decode_bencoded_value.simps decode_bencoded_dict.simps Let_def)
next
  case bitems_Nil
  then show ?case by (simp add: decode_list_loop.simps)
next
  case (bitems_Cons t j ts js)
  then show ?case
    using bvalue_starts [OF bitems_Cons(1)]
    by (simp add: decode_list_loop.simps [of "t @ ts @ END_SYMBOL # rest"])
next
  case bentries_Nil
  then show ?case by (simp add: decode_dict_loop.simps)
next
  case (bentries_Cons ds k t j ts kvs)
  let ?r = "ds @ STRING_DELIMITER_SYMBOL # k @ t @ ts @ END_SYMBOL # rest"
  have "\<not> starts_with END_SYMBOL ?r"
    using length_word_starts [OF bentries_Cons(1)] digit_symbols(2) by auto
  moreover have "decode_string ?r =
      Some (\<lparr>ev_type = Ev_String, ev_value = ds @ STRING_DELIMITER_SYMBOL # k\<rparr>, Json_string k)"
    using decode_string_complete [OF bentries_Cons(1)] bentries_Cons(2) by (simp add: json_of_chars_def)
  ultimately show ?case
    using bentries_Cons by (simp add: decode_dict_loop.simps [of ?r] Let_def get_string_def)
qed

section \<open>Soundness\<close>

definition neg_length_free :: "string \<Rightarrow> bool" where
  "neg_length_free s \<longleftrightarrow>
     (\<forall>i ds r. drop i s = CHR ''-'' # ds @ STRING_DELIMITER_SYMBOL # r \<longrightarrow> \<not> list_all isdigit ds)"

lemma length_drop_less: "int (length s) < b \<Longrightarrow> int (length (drop n s)) < b"
  by (rule le_less_trans [rotated]) auto

lemma neg_length_free_drop: "neg_length_free s \<Longrightarrow> neg_length_free (drop n s)"
  by (auto simp: neg_length_free_def)

lemma decode_string_sound:
  assumes "decode_string s = Some (enc, j)" "neg_length_free s" "int (length s) < 2 ^ 63"
  obtains ds str rest where "length_word ds str" "s = ds @ STRING_DELIMITER_SYMBOL # str @ rest"
    "enc = \<lparr>ev_type = Ev_String, ev_value = ds @ STRING_DELIMITER_SYMBOL # str\<rparr>"
    "j = json_of_chars str"
proof -
  obtain d len where d: "view_find STRING_DELIMITER_SYMBOL s = Some d"
    and len: "to_integer (take d s) = Some len"
    and last: "last_symbol_pos d len \<le> length s"
    using assms(1) by (auto simp: decode_string_def Let_def not_less split: option.splits if_splits)
  have split: "s = take d s @ STRING_DELIMITER_SYMBOL # drop (Suc d) s"
    using view_find_Some [OF d] by (metis id_take_nth_drop)
  from len obtain ds where ds: "ds \<noteq> []" "list_all isdigit ds" "take d s = ds" "len = int (digits_value ds)"
  proof (cases rule: to_integer_form)
    case (2 ds)
    then have "drop 0 s = CHR ''-'' # ds @ STRING_DELIMITER_SYMBOL # drop (Suc d) s"
      using split by simp
    with 2 assms(2) have False unfolding neg_length_free_def by blast
    then show ?thesis ..
  qed blast
  have pos: "last_symbol_pos d len = length ds + 1 + digits_value ds"
    using view_find_Some [OF d] ds by (auto simp: last_symbol_pos_nonneg)
  define str where "str = take (digits_value ds) (drop (Suc d) s)"
  define rest where "rest = drop (digits_value ds) (drop (Suc d) s)"
  have s: "s = ds @ STRING_DELIMITER_SYMBOL # str @ rest"
    using split ds(3) by (simp only: str_def rest_def append_take_drop_id)
  have "length ds + 1 + digits_value ds \<le> length s" using last pos by simp
  then have "digits_value ds \<le> length (drop (Suc d) s)"
    using view_find_Some [OF d] ds(3) by auto
  then have "length str = digits_value ds" by (simp add: str_def)
  moreover from this assms(3) s have "int (length str) < 2 ^ 63" by simp
  ultimately have "length_word ds str" using ds by (simp add: length_word_def)
  with that s assms(1) decode_string_complete [of ds str rest] show ?thesis by auto
qed

lemma decode_integer_sound:
  assumes "decode_integer s = Some (enc, j)" "s = INTEGER_START_SYMBOL # r"
  obtains ds i rest where "to_integer ds = Some i" "s = INTEGER_START_SYMBOL # ds @ END_SYMBOL # rest"
    "enc = \<lparr>ev_type = Ev_Integer, ev_value = INTEGER_START_SYMBOL # ds @ [END_SYMBOL]\<rparr>"
    "j = Json_integer i"
proof -
  obtain n where n: "view_find END_SYMBOL r = Some n"
    using assms by (auto simp: decode_integer_def split: option.splits)
  have split: "r = take n r @ END_SYMBOL # drop (Suc n) r"
    using view_find_Some [OF n] by (metis id_take_nth_drop)
  have "view_find END_SYMBOL s = Some (Suc n)" using assms(2) n by simp
  moreover have "take (Suc (Suc n)) s = INTEGER_START_SYMBOL # take n r @ [END_SYMBOL]"
    using assms(2) split view_find_Some [OF n] by (simp add: take_Suc_conv_app_nth)
  ultimately have "to_integer (take n r) \<noteq> None"
    and eq: "decode_integer s = (case to_integer (take n r) of None \<Rightarrow> None | Some v \<Rightarrow>
      Some (\<lparr>ev_type = Ev_Integer, ev_value = INTEGER_START_SYMBOL # take n r @ [END_SYMBOL]\<rparr>, Json_integer v))"
    using assms(1) by (auto simp: decode_integer_def Let_def butlast_append split: option.splits)
  then obtain i where "to_integer (take n r) = Some i" by auto
  with assms split eq show ?thesis
    by (intro that [of "take n r" i "drop (Suc n) r"]) auto
qed

lemma decode_sound:
  "neg_length_free s \<Longrightarrow> int (length s) < 2 ^ 63 \<Longrightarrow> decode_bencoded_value s = Inr (Some (enc, j)) \<Longrightarrow>
     bvalue (ev_value enc) j \<and> ev_type enc = type_of_json j \<and> (\<exists>rest. s = ev_value enc @ rest)"
  "neg_length_free sl \<Longrightarrow> int (length sl) < 2 ^ 63 \<Longrightarrow> decode_bencoded_list sl = Inr (Some (encl, jl)) \<Longrightarrow>
     \<exists>t js rest. tl sl = t @ END_SYMBOL # rest \<and> bitems t js \<and> jl = Json_array js \<and>
       encl = \<lparr>ev_type = Ev_List, ev_value = hd sl # t @ [END_SYMBOL]\<rparr>"
  "neg_length_free r \<Longrightarrow> int (length r) < 2 ^ 63 \<Longrightarrow> decode_list_loop r jacc = Inr (Some (r', js')) \<Longrightarrow>
     \<exists>t js rest. r = t @ r' \<and> r' = END_SYMBOL # rest \<and> bitems t js \<and> js' = jacc @ js"
  "neg_length_free sd \<Longrightarrow> int (length sd) < 2 ^ 63 \<Longrightarrow> decode_bencoded_dict sd = Inr (Some (encd, jd)) \<Longrightarrow>
     \<exists>t kvs rest. tl sd = t @ END_SYMBOL # rest \<and> bentries t kvs \<and>
       jd = Json_object (obj.insert_all kvs []) \<and>
       encd = \<lparr>ev_type = Ev_Dictionary, ev_value = hd sd # t @ [END_SYMBOL]\<rparr>"
  "neg_length_free rd \<Longrightarrow> int (length rd) < 2 ^ 63 \<Longrightarrow> decode_dict_loop rd m = Inr (Some (rd', m')) \<Longrightarrow>
     \<exists>t kvs rest. rd = t @ rd' \<and> rd' = END_SYMBOL # rest \<and> bentries t kvs \<and> m' = obj.insert_all kvs m"
proof (induction s and sl and r jacc and sd and rd m
    arbitrary: enc j and encl jl and r' js' and encd jd and rd' m' rule: decode_induct)
  case (1 s)
  show ?case
  proof (cases "detect_bencoded_value_type s")
    case Ev_Integer
    with 1(5) have "decode_integer s = Some (enc, j)" by (simp add: decode_bencoded_value.simps)
    with detect_starts(1) [OF Ev_Integer] show ?thesis
      by (auto elim!: decode_integer_sound intro: bint)
  next
    case Ev_String
    with 1(5) have "decode_string s = Some (enc, j)" by (simp add: decode_bencoded_value.simps)
    then show ?thesis
      by (rule decode_string_sound [OF _ 1(3,4)]) (auto dest: bstr simp: json_of_chars_def)
  next
    case Ev_List
    then have "decode_bencoded_list s = Inr (Some (enc, j))"
      using 1(5) by (simp add: decode_bencoded_value.simps [of s])
    from 1(1) [OF Ev_List 1(3,4) this] obtain t js rest
      where t: "tl s = t @ END_SYMBOL # rest" "bitems t js" "j = Json_array js"
        "ev_value enc = hd s # t @ [END_SYMBOL]" "ev_type enc = Ev_List" by auto
    obtain r where r: "s = LIST_START_SYMBOL # r" using detect_starts(2) [OF Ev_List] by auto
    have "bvalue (ev_value enc) j" using t(2-4) r blist by simp
    moreover have "s = ev_value enc @ rest" using t(1,4) r by simp
    ultimately show ?thesis using t(3,5) by auto
  next
    case Ev_Dictionary
    then have "decode_bencoded_dict s = Inr (Some (enc, j))"
      using 1(5) by (simp add: decode_bencoded_value.simps [of s])
    from 1(2) [OF Ev_Dictionary 1(3,4) this] obtain t kvs rest
      where t: "tl s = t @ END_SYMBOL # rest" "bentries t kvs" "j = Json_object (obj.insert_all kvs [])"
        "ev_value enc = hd s # t @ [END_SYMBOL]" "ev_type enc = Ev_Dictionary" by auto
    obtain r where r: "s = DICT_START_SYMBOL # r" using detect_starts(3) [OF Ev_Dictionary] by auto
    have "bvalue (ev_value enc) j" using t(2-4) r bdict by simp
    moreover have "s = ev_value enc @ rest" using t(1,4) r by simp
    ultimately show ?thesis using t(3,5) by auto
  next
    case Ev_Unknown
    with 1(5) show ?thesis by (simp add: decode_bencoded_value.simps)
  qed
next
  case (2 s)
  from 2(4) obtain r' js where loop: "decode_list_loop (drop 1 s) [] = Inr (Some (r', js))"
    and res: "encl = \<lparr>ev_type = Ev_List, ev_value = take (length s - length (drop 1 r')) s\<rparr>"
      "jl = Json_array js"
    by (auto simp: decode_bencoded_list.simps [of s] Let_def split: sum.splits option.splits)
  from 2(1) [OF neg_length_free_drop [OF 2(2)] length_drop_less [OF 2(3)] loop] obtain t rest
    where t: "drop 1 s = t @ r'" "r' = END_SYMBOL # rest" "bitems t js" by auto
  then obtain c where "s = c # t @ END_SYMBOL # rest" by (cases s) auto
  with t res show ?case by auto
next
  case (3 r jacc)
  show ?case
  proof (cases "starts_with END_SYMBOL r")
    case True
    with 3(5) starts_with_hd [OF True] show ?thesis
      by (auto simp: decode_list_loop.simps [of r jacc] intro: bitems_Nil)
  next
    case False
    with 3(5) obtain ek v where step: "decode_bencoded_value r = Inr (Some (ek, v))"
      "decode_list_loop (drop (length (ev_value ek)) r) (jacc @ [v]) = Inr (Some (r', js'))"
      by (auto simp: decode_list_loop.simps [of r jacc] split: sum.splits option.splits)
    from 3(1) [OF False 3(3,4) step(1)] obtain rest
      where v: "bvalue (ev_value ek) v" "r = ev_value ek @ rest" by auto
    from 3(2) [OF False step(1) refl refl neg_length_free_drop [OF 3(3)] _ step(2)] 3(4) v(2)
    obtain t js rest' where "rest = t @ r'" "r' = END_SYMBOL # rest'" "bitems t js" "js' = (jacc @ [v]) @ js"
      by auto
    with v show ?thesis by (auto intro!: exI [of _ "ev_value ek @ t"] exI [of _ "v # js"] bitems_Cons)
  qed
next
  case (4 s)
  from 4(4) obtain r' m where loop: "decode_dict_loop (drop 1 s) [] = Inr (Some (r', m))"
    and res: "encd = \<lparr>ev_type = Ev_Dictionary, ev_value = take (length s - length (drop 1 r')) s\<rparr>"
      "jd = Json_object m"
    by (auto simp: decode_bencoded_dict.simps [of s] Let_def split: sum.splits option.splits)
  from 4(1) [OF neg_length_free_drop [OF 4(2)] length_drop_less [OF 4(3)] loop] obtain t kvs rest
    where t: "drop 1 s = t @ r'" "r' = END_SYMBOL # rest" "bentries t kvs" "m = obj.insert_all kvs []" by auto
  then obtain c where "s = c # t @ END_SYMBOL # rest" by (cases s) auto
  with t res show ?case by auto
next
  case (5 r m)
  show ?case
  proof (cases "starts_with END_SYMBOL r")
    case True
    with 5(5) starts_with_hd [OF True] show ?thesis
      by (auto simp: decode_dict_loop.simps [of r m] intro!: exI [of _ "[]"] bentries_Nil)
  next
    case False
    with 5(5) obtain ek key ev v k where step:
      "decode_string r = Some (ek, key)"
      "decode_bencoded_value (drop (length (ev_value ek)) r) = Inr (Some (ev, v))"
      "get_string key = Inr k"
      "decode_dict_loop (drop (length (ev_value ev)) (drop (length (ev_value ek)) r))
         (object_insert k v m) = Inr (Some (rd', m'))"
      by (auto simp: decode_dict_loop.simps [of r m] Let_def simp del: drop_drop
          split: sum.splits option.splits)
    obtain ds str rest where key:
      "length_word ds str" "r = ds @ STRING_DELIMITER_SYMBOL # str @ rest"
      "ev_value ek = ds @ STRING_DELIMITER_SYMBOL # str" "key = json_of_chars str"
      by (rule decode_string_sound [OF step(1) 5(3,4)]) simp
    with step(3) have k: "utf8_string k" "str = k"
      by (auto simp: json_of_chars_def get_string_def split: if_splits)
    have rest: "drop (length (ev_value ek)) r = rest" using key by simp
    have free: "neg_length_free rest" "int (length rest) < 2 ^ 63"
      using neg_length_free_drop [OF 5(3), of "length (ev_value ek)"] 5(4) key by (simp_all add: rest)
    from 5(1) [OF False step(1) refl refl, unfolded rest, OF free step(2) [unfolded rest]]
    obtain rest2 where v: "bvalue (ev_value ev) v" "rest = ev_value ev @ rest2" by auto
    have free2: "neg_length_free rest2" "int (length rest2) < 2 ^ 63"
      using neg_length_free_drop [OF free(1), of "length (ev_value ev)"] free(2) v(2) by simp_all
    from 5(2) [OF False step(1) refl refl step(2) refl refl step(3), unfolded rest, of rd' m'] free2 v(2) step(4) rest
    obtain t kvs rest' where "rest2 = t @ rd'" "rd' = END_SYMBOL # rest'" "bentries t kvs"
      "m' = obj.insert_all kvs (object_insert k v m)" by auto
    with v key k show ?thesis
      by (auto intro!: exI [of _ "(ds @ STRING_DELIMITER_SYMBOL # k) @ ev_value ev @ t"]
          exI [of _ "(k, v) # kvs"] bentries_step)
  qed
qed

section \<open>Evaluation\<close>

lemma decode_string_eq:
  "decode_string s =
     (case view_find STRING_DELIMITER_SYMBOL s of
        None \<Rightarrow> None
      | Some d \<Rightarrow>
          (case to_integer (take d s) of
             None \<Rightarrow> None
           | Some len \<Rightarrow>
               if length s < last_symbol_pos d len then None
               else Some (\<lparr>ev_type = Ev_String, ev_value = take (last_symbol_pos d len) s\<rparr>,
                          json_of_chars (take (size_of_integer len) (drop (d + 1) s)))))"
  using quoted_cases [of True]
  by (auto simp: decode_string_def Let_def json_of_chars_def split: option.split sum.split)
    (metis sum.distinct(1))+

lemmas detect_eval =
  detect_bencoded_value_type_def is_encoded_integer_ahead_def is_encoded_string_ahead_def
  is_encoded_list_ahead_def is_encoded_dict_ahead_def starts_with_def view_front_def
  bencode_symbols isdigit_of_char

lemmas decode_string_eval =
  decode_string_eq to_integer_def from_chars_def bencode_symbols digits_value_def
  isdigit_of_char digit_value_def json_of_chars_def utf8_string_def in_range_def
  last_symbol_pos_def size_of_integer_def

section \<open>Properties\<close>


lemma length_word_1: "length_word ''1'' [c]"
  by (simp add: length_word_def isdigit_of_char digits_value_def digit_value_def)

lemma bvalue_example: "bvalue ''d1:ai-7ee'' (Json_object [(''a'', Json_integer (- 7))])"
proof -
  have "bvalue ''i-7e'' (Json_integer (- 7))"
    using bint [of "''-7''" "- 7"]
    by (simp add: to_integer_def from_chars_def isdigit_of_char digits_value_def digit_value_def bencode_symbols)
  with length_word_1 have "bentries ''1:ai-7e'' [(''a'', Json_integer (- 7))]"
    using bentries_step [OF length_word_1 [of "CHR ''a''"] _ _ bentries_Nil, of "''i-7e''" "Json_integer (- 7)"]
    by (simp add: utf8_string_def bencode_symbols)
  then show ?thesis
    using bdict [of "''1:ai-7e''" "[(''a'', Json_integer (- 7))]"] by (simp add: bencode_symbols)
qed



lemma neg_length_free_no_minus: "CHR ''-'' \<notin> set s \<Longrightarrow> neg_length_free s"
  unfolding neg_length_free_def by (metis in_set_dropD list.set_intros(1))


text \<open>Without the proviso it is not so: a negative length is accepted for the key of a dictionary,
  and then only the minus sign counts as the key's text, so that the rest is read again as the
  value.\<close>

theorem negative_key_length_accepted:
  "decode_bencoded_value ''d-2:abe'' =
     Inr (Some (\<lparr>ev_type = Ev_Dictionary, ev_value = ''d-2:abe''\<rparr>,
                Json_object [(''abe'', Json_string ''ab'')]))"
proof -
  have key: "decode_string ''-2:abe'' =
      Some (\<lparr>ev_type = Ev_String, ev_value = ''-''\<rparr>, Json_string ''abe'')"
    by (simp add: decode_string_eval)
  have "decode_bencoded_value ''2:abe'' =
      Inr (Some (\<lparr>ev_type = Ev_String, ev_value = ''2:ab''\<rparr>, Json_string ''ab''))"
    by (simp add: decode_bencoded_value.simps detect_eval decode_string_eval)
  with key show ?thesis
    by (simp add: decode_bencoded_value.simps [of "''d-2:abe''"] decode_bencoded_dict.simps
        decode_dict_loop.simps detect_eval Let_def get_string_def)
qed

text \<open>In a dictionary with a repeated key the first value wins, and the keys come out sorted.\<close>

theorem first_binding_wins:
  assumes "bentries t kvs"
  shows "\<exists>m. decode_bencoded_value (DICT_START_SYMBOL # t @ END_SYMBOL # rest) =
      Inr (Some (\<lparr>ev_type = Ev_Dictionary, ev_value = DICT_START_SYMBOL # t @ [END_SYMBOL]\<rparr>, Json_object m)) \<and>
    object_sorted m \<and> (\<forall>k. object_find m k = map_of kvs k)"
  using bvalue_decode(1) [OF bdict [OF assms], of rest] obj.invar_insert_all [of "[]" kvs]
    obj.find_built [of kvs]
  by auto

theorem first_binding_wins_witness:
  "\<exists>m. decode_bencoded_value (DICT_START_SYMBOL # ''1:ai1e1:ai2e'' @ END_SYMBOL # []) =
      Inr (Some (\<lparr>ev_type = Ev_Dictionary,
        ev_value = DICT_START_SYMBOL # ''1:ai1e1:ai2e'' @ [END_SYMBOL]\<rparr>, Json_object m)) \<and>
    object_sorted m \<and>
    (\<forall>k. object_find m k = map_of [(''a'', Json_integer 1), (''a'', Json_integer 2)] k)"
proof (rule first_binding_wins)
  have i: "bvalue [CHR ''i'', d, CHR ''e''] (Json_integer n)" if "to_integer [d] = Some n" for d n
    using bint [OF that] by (simp add: bencode_symbols)
  have "to_integer ''1'' = Some 1" "to_integer ''2'' = Some 2"
    by (simp_all add: to_integer_def from_chars_def isdigit_of_char digits_value_def digit_value_def)
  note i = i [OF this(1)] i [OF this(2)]
  have "bentries ''1:ai2e'' [(''a'', Json_integer 2)]"
    using bentries_step [OF length_word_1 [of "CHR ''a''"] _ i(2) bentries_Nil]
    by (simp add: utf8_string_def bencode_symbols)
  from bentries_step [OF length_word_1 [of "CHR ''a''"] _ i(1) this]
  show "bentries ''1:ai1e1:ai2e'' [(''a'', Json_integer 1), (''a'', Json_integer 2)]"
    by (simp add: utf8_string_def bencode_symbols)
qed

end
