(* ===== verification/Bencode_Encoders.thy ===== *)
theory Bencode_Encoders
  imports Bencode_Grammar Codec
begin

text \<open>
  The bencode encoder, \<open>src/src/bencode/encoders.cpp\<close>, and its relation to the decoder: every
  value the decoder can return is encoded to a word of the grammar for it, so decoding the
  encoding gives the value back, whatever follows it in the input. That is stated once as
  an interface, a codec whose code words can be cut off the front of a longer input.
\<close>

section \<open>The encoder\<close>

definition encode_integer :: "json \<Rightarrow> string result" where
  "encode_integer j =
     (case json_dump (- 1) (CHR '' '') False Strict j of
        Inl e \<Rightarrow> Inl e
      | Inr t \<Rightarrow> Inr ([INTEGER_START_SYMBOL] @ t @ [END_SYMBOL]))"

definition length_prefixed :: "string \<Rightarrow> string" where
  "length_prefixed str = dec_of_nat (length str) @ [STRING_DELIMITER_SYMBOL] @ str"

definition encode_string :: "json \<Rightarrow> string result" where
  "encode_string j =
     (case get_string j of Inl e \<Rightarrow> Inl e | Inr str \<Rightarrow> Inr (length_prefixed str))"

definition encode_binary :: "json \<Rightarrow> string result" where
  "encode_binary j =
     (case get_binary j of Inl e \<Rightarrow> Inl e | Inr bin \<Rightarrow> Inr (length_prefixed (string_of_bytes bin)))"

fun encode :: "json \<Rightarrow> string option result"
  and encode_dict_items :: "(string \<times> json) list \<Rightarrow> string option result"
  and encode_list_items :: "json list \<Rightarrow> string option result" where
  "encode (Json_integer i) = map_sum id Some (encode_integer (Json_integer i))"
| "encode (Json_string s) = map_sum id Some (encode_string (Json_string s))"
| "encode (Json_binary b) = map_sum id Some (encode_binary (Json_binary b))"
| "encode (Json_object m) =
     (case encode_dict_items m of
        Inl e \<Rightarrow> Inl e
      | Inr None \<Rightarrow> Inr None
      | Inr (Some t) \<Rightarrow> Inr (Some ([DICT_START_SYMBOL] @ t @ [END_SYMBOL])))"
| "encode (Json_array js) =
     (case encode_list_items js of
        Inl e \<Rightarrow> Inl e
      | Inr None \<Rightarrow> Inr None
      | Inr (Some t) \<Rightarrow> Inr (Some ([LIST_START_SYMBOL] @ t @ [END_SYMBOL])))"
| "encode Json_null = Inr None"
| "encode (Json_boolean b) = Inr None"
| "encode_dict_items [] = Inr (Some [])"
| "encode_dict_items ((k, v) # m) =
     (case encode_string (Json_string k) of
        Inl e \<Rightarrow> Inl e
      | Inr encoded_key \<Rightarrow>
          (case encode v of
             Inl e \<Rightarrow> Inl e
           | Inr None \<Rightarrow> Inr None
           | Inr (Some encoded_value) \<Rightarrow>
               (case encode_dict_items m of
                  Inl e \<Rightarrow> Inl e
                | Inr None \<Rightarrow> Inr None
                | Inr (Some t) \<Rightarrow> Inr (Some (encoded_key @ encoded_value @ t)))))"
| "encode_list_items [] = Inr (Some [])"
| "encode_list_items (v # js) =
     (case encode v of
        Inl e \<Rightarrow> Inl e
      | Inr None \<Rightarrow> Inr None
      | Inr (Some encoded_value) \<Rightarrow>
          (case encode_list_items js of
             Inl e \<Rightarrow> Inl e
           | Inr None \<Rightarrow> Inr None
           | Inr (Some t) \<Rightarrow> Inr (Some (encoded_value @ t))))"

definition encode_dict :: "(string \<times> json) list \<Rightarrow> string option result" where
  "encode_dict m = encode (Json_object m)"

definition encode_list :: "json list \<Rightarrow> string option result" where
  "encode_list js = encode (Json_array js)"

section \<open>The encoder never throws, and encodes exactly the values without null or boolean\<close>

fun encodable :: "json \<Rightarrow> bool" where
  "encodable Json_null = False"
| "encodable (Json_boolean _) = False"
| "encodable (Json_array js) = (\<forall>j \<in> set js. encodable j)"
| "encodable (Json_object m) = (\<forall>(k, j) \<in> set m. encodable j)"
| "encodable _ = True"

lemma encode_scalar_simps [simp]:
  "encode_integer (Json_integer i) = Inr ([INTEGER_START_SYMBOL] @ dump_integer i @ [END_SYMBOL])"
  "encode_string (Json_string s) = Inr (length_prefixed s)"
  "encode_binary (Json_binary b) = Inr (length_prefixed (string_of_bytes b))"
  by (simp_all add: encode_integer_def encode_string_def encode_binary_def get_string_def get_binary_def)

lemma encode_cases:
  "\<exists>t. encode j = Inr t \<and> (t \<noteq> None \<longleftrightarrow> encodable j)"
  "\<exists>t. encode_dict_items m = Inr t \<and> (t \<noteq> None \<longleftrightarrow> (\<forall>(k, j) \<in> set m. encodable j))"
  "\<exists>t. encode_list_items js = Inr t \<and> (t \<noteq> None \<longleftrightarrow> (\<forall>j \<in> set js. encodable j))"
proof (induction j and m and js rule: encode_encode_dict_items_encode_list_items.induct)
  case (9 k v m)
  then show ?case
    by (cases "encode v"; cases "encode_dict_items m") (fastforce split: option.splits)+
next
  case (11 v js)
  then show ?case
    by (cases "encode v"; cases "encode_list_items js") (auto split: option.splits)
qed (auto split: option.splits)

lemma bencodable_encodable: "bencodable j \<Longrightarrow> encodable j"
  by (induction j rule: bencodable.induct) fastforce+

lemma encode_bencodable: "bencodable j \<Longrightarrow> \<exists>t. encode j = Inr (Some t)"
  using encode_cases(1) [of j] bencodable_encodable [of j] by auto

section \<open>Encodings are words of the grammar\<close>

lemma length_prefixed_word:
  "int (length s) < 2 ^ 63 \<Longrightarrow> bvalue (length_prefixed s) (json_of_chars s)"
  using bstr [of "dec_of_nat (length s)" s] by (simp add: length_prefixed_def length_word_def)

lemma insert_all_sorted:
  "sorted_wrt (<) (map fst (acc @ m)) \<Longrightarrow> obj.insert_all m acc = acc @ m"
proof (induction m arbitrary: acc)
  case (Cons kv m)
  obtain k v where kv: "kv = (k, v)" by fastforce
  have "object_insert k v acc = acc @ [(k, v)]"
    using Cons.prems kv by (intro object_insert_last) (auto simp: sorted_wrt_append)
  with Cons kv show ?case by simp
qed simp

lemma encode_bvalue:
  "bencodable j \<Longrightarrow> encode j = Inr (Some t) \<Longrightarrow> bvalue t j"
  "\<forall>(k, v) \<in> set m. utf8_string k \<and> int (length k) < 2 ^ 63 \<and> bencodable v \<Longrightarrow>
     encode_dict_items m = Inr (Some tm) \<Longrightarrow> bentries tm m"
  "\<forall>v \<in> set js. bencodable v \<Longrightarrow> encode_list_items js = Inr (Some tj) \<Longrightarrow> bitems tj js"
proof (induction j and m and js arbitrary: t and tm and tj
    rule: encode_encode_dict_items_encode_list_items.induct)
  case (1 i)
  then show ?case
    using bint [OF to_integer_dec_of_int [of i]] by (auto simp: dump_integer_eq_dec_of_int)
next
  case (2 s)
  then show ?case using length_prefixed_word [of s] by (auto simp: json_of_chars_def)
next
  case (3 b)
  then show ?case
    using length_prefixed_word [of "string_of_bytes b"] by (auto simp: json_of_chars_def)
next
  case (4 m)
  then have "obj.insert_all m [] = m"
    using insert_all_sorted [of "[]" m] by (simp add: object_sorted_def)
  with 4 show ?case
    by (auto split: sum.splits option.splits) (metis append_Cons bdict)
next
  case (5 js)
  then show ?case by (auto split: sum.splits option.splits intro: blist)
next
  case (9 k v m)
  from "9.prems"(2) obtain tv t' where "encode v = Inr (Some tv)"
    and "encode_dict_items m = Inr (Some t')" and "tm = length_prefixed k @ tv @ t'"
    by (auto split: sum.splits option.splits)
  with 9 bentries_step [of "dec_of_nat (length k)" k tv v t' m] show ?case
    by (auto simp: length_prefixed_def length_word_def)
next
  case (11 v js)
  then show ?case by (auto split: sum.splits option.splits intro: bitems_Cons)
qed (auto intro: bitems_Nil bentries_Nil)

lemma decode_encode:
  "bencodable j \<Longrightarrow> encode j = Inr (Some t) \<Longrightarrow>
     decode_bencoded_value (t @ rest) = Inr (Some (\<lparr>ev_type = type_of_json j, ev_value = t\<rparr>, j))"
  by (intro bvalue_decode(1) encode_bvalue(1))

section \<open>The codec of the program\<close>

definition encode_total :: "json \<Rightarrow> string" where
  "encode_total j = (case encode j of Inr (Some t) \<Rightarrow> t | _ \<Rightarrow> [])"

definition decode_front :: "string \<Rightarrow> (json \<times> string) option" where
  "decode_front s =
     (case decode_bencoded_value s of
        Inr (Some (enc, j)) \<Rightarrow> Some (j, drop (length (ev_value enc)) s)
      | _ \<Rightarrow> None)"

lemma encode_total: "bencodable j \<Longrightarrow> encode j = Inr (Some (encode_total j))"
  using encode_bencodable [of j] by (auto simp: encode_total_def)

interpretation bencode: prefix_codec bencodable encode_total decode_front
  by unfold_locales (simp add: decode_front_def decode_encode [OF _ encode_total])

text \<open>Encodings are prefix-free: a text determines the value whose encoding it begins with.\<close>

lemma encodings_prefix_free:
  assumes "bencodable v" "bencodable w" "encode v = Inr (Some t)" "encode w = Inr (Some u)"
    and "t @ r = u @ r'"
  shows "v = w \<and> r = r'"
proof -
  have "encode_total v = t" "encode_total w = u" using assms(3,4) by (simp_all add: encode_total_def)
  with bencode.enc_prefix_free [OF assms(1,2), of r r'] assms(5) show ?thesis by simp
qed

section \<open>Properties\<close>


lemma bencodable_example:
  "bencodable (Json_object [(''a'', Json_integer (- 5)), (''b'', Json_array [Json_binary [255]])])"
  by (simp add: object_sorted_def utf8_string_def char_of_byte_def in_range_def)


text \<open>The encoder never throws: it returns nothing exactly for values with a null or a boolean in
  them, and an encoding for every other value.\<close>

theorem encoder_result:
  "\<exists>r. encode j = Inr r \<and> (r = None \<longleftrightarrow> \<not> encodable j)"
  using encode_cases(1) [of j] by auto

end
