(* ===== verification/Torrent.thy ===== *)
theory Torrent
  imports Bencode_Encoders Sha1
begin

text \<open>
  \<open>src/src/torrent.cpp\<close>: the description of a torrent, read from a \<open>.torrent\<close> file, its info
  hash and the hashes of its pieces. The file is its content: a file that cannot be opened
  reads as empty. \<open>torrent::metainfo\<close> is \<open>metainfo_json\<close> here, the class \<open>Metainfo\<close> the
  record \<open>metainfo\<close>.
\<close>

record metainfo =
  mi_raw :: json
  mi_announce :: string
  mi_length :: int
  mi_piece_length :: int

definition PIECE_HASH_LENGTH :: nat where
  "PIECE_HASH_LENGTH = 20"

definition metainfo_json :: "string \<Rightarrow> json option result" where
  "metainfo_json content =
     (case decode_bencoded_value content of
        Inl e \<Rightarrow> Inl e
      | Inr None \<Rightarrow> Inr None
      | Inr (Some (_, v)) \<Rightarrow> Inr (Some v))"

definition metainfo_from_file :: "string \<Rightarrow> bool \<Rightarrow> metainfo option result" where
  "metainfo_from_file content strict =
     (case metainfo_json content of
        Inl e \<Rightarrow> Inl e
      | Inr None \<Rightarrow> Inr None
      | Inr (Some j) \<Rightarrow>
          (case json_value get_json ''info'' Json_null j of
             Inl e \<Rightarrow> Inl e
           | Inr info \<Rightarrow>
               if strict \<and> \<not> (contains ''announce'' j \<and> contains ''info'' j \<and>
                              contains ''length'' info \<and> contains ''piece length'' info)
               then Inr None
               else
                 (case json_value get_string ''announce'' ''unknown'' j of
                    Inl e \<Rightarrow> Inl e
                  | Inr announce \<Rightarrow>
                      (case json_value get_integer ''length'' 0 info of
                         Inl e \<Rightarrow> Inl e
                       | Inr len \<Rightarrow>
                           (case json_value get_integer ''piece length'' 0 info of
                              Inl e \<Rightarrow> Inl e
                            | Inr plen \<Rightarrow>
                                Inr (Some \<lparr>mi_raw = j, mi_announce = announce, mi_length = len,
                                          mi_piece_length = plen\<rparr>))))))"

definition metainfo_hash :: "metainfo \<Rightarrow> string result" where
  "metainfo_hash m =
     (case json_value get_json ''info'' Json_null (mi_raw m) of
        Inl e \<Rightarrow> Inl e
      | Inr info \<Rightarrow>
          (case encode info of
             Inl e \<Rightarrow> Inl e
           | Inr encoded_info \<Rightarrow>
               if encoded_info = None \<or> json_empty info
               then Inl (Runtime_error
                 ''Can not calculate hash because \"info\" is not exist or malformed'')
               else Inr (fst (final (update sha1_reset (the encoded_info))))))"

text \<open>The loop of \<open>pieces()\<close> steps by 20 until it meets the end exactly.\<close>

function pieces_loop :: "bytes \<Rightarrow> bytes list result" where
  "pieces_loop bs =
     (if bs = [] then Inr []
      else if length bs < PIECE_HASH_LENGTH then Inl (Undefined Read_past_end)
      else (case pieces_loop (drop PIECE_HASH_LENGTH bs) of
              Inl e \<Rightarrow> Inl e
            | Inr ps \<Rightarrow> Inr (take PIECE_HASH_LENGTH bs # ps)))"
  by pat_completeness auto
termination
  by (relation "measure length") (auto simp: PIECE_HASH_LENGTH_def)

declare pieces_loop.simps [simp del]

definition metainfo_pieces :: "metainfo \<Rightarrow> bytes list result" where
  "metainfo_pieces m =
     (case json_value get_json ''info'' Json_null (mi_raw m) of
        Inl e \<Rightarrow> Inl e
      | Inr info \<Rightarrow>
          (case json_value get_binary ''pieces'' [] info of
             Inl e \<Rightarrow> Inl e
           | Inr pieces_bytes \<Rightarrow> pieces_loop pieces_bytes))"

section \<open>Reading the file\<close>

lemma json_value_errors:
  "json_value get_json k d j = Inl e \<Longrightarrow> e = Json_type_error 306"
  "json_value get_string k ds j = Inl e \<Longrightarrow> e = Json_type_error 306 \<or> e = Json_type_error 302"
  "json_value get_integer k di j = Inl e \<Longrightarrow> e = Json_type_error 306 \<or> e = Json_type_error 302"
  "json_value get_binary k db j = Inl e \<Longrightarrow> e = Json_type_error 306 \<or> e = Json_type_error 302"
  by (auto simp: json_value_def get_json_def get_string_def get_integer_def get_binary_def
      split: json.splits option.splits)

lemma metainfo_from_file_error:
  "metainfo_from_file content strict = Inl e \<Longrightarrow> e = Json_type_error 302 \<or> e = Json_type_error 306"
  by (auto simp: metainfo_from_file_def metainfo_json_def
      dest: json_value_errors decode_error(1) split: sum.splits option.splits if_splits)

lemma contains_iff: "contains k j \<longleftrightarrow> (\<exists>m v. j = Json_object m \<and> object_find m k = Some v)"
  by (auto simp: contains_def split: json.splits)

lemma metainfo_strict_shape:
  assumes "metainfo_from_file content True = Inr (Some m)"
  obtains enc obj info where "decode_bencoded_value content = Inr (Some (enc, Json_object obj))"
    "mi_raw m = Json_object obj" "object_find obj ''info'' = Some (Json_object info)"
    "object_find obj ''announce'' = Some (Json_string (mi_announce m))"
    "\<exists>j. object_find info ''length'' = Some j \<and> get_integer j = Inr (mi_length m)"
    "\<exists>j. object_find info ''piece length'' = Some j \<and> get_integer j = Inr (mi_piece_length m)"
  using assms
  by (auto simp: metainfo_from_file_def metainfo_json_def contains_iff json_value_def get_json_def
      get_string_def split: sum.splits option.splits if_splits json.splits)

text \<open>Every value of a decoded object is one the encoder can encode.\<close>

lemma object_find_bencodable:
  "bencodable (Json_object m) \<Longrightarrow> object_find m k = Some v \<Longrightarrow> bencodable v"
  by (auto simp: object_find_def dest!: map_of_SomeD)

lemma object_find_nonempty: "object_find m k = Some v \<Longrightarrow> m \<noteq> []"
  by (auto simp: object_find_def)

section \<open>The info hash\<close>

lemma metainfo_hash_info:
  assumes "mi_raw m = Json_object obj" "object_find obj ''info'' = Some info"
    and "encode info = Inr (Some t)" "\<not> json_empty info"
  shows "metainfo_hash m = Inr (sha1_hex t)"
  using assms by (simp add: metainfo_hash_def json_value_def get_json_def final_update)

lemma metainfo_hash_strict:
  assumes "metainfo_from_file content True = Inr (Some m)" "int (length content) < 2 ^ 63"
  shows "\<exists>obj info. mi_raw m = Json_object obj \<and> object_find obj ''info'' = Some (Json_object info) \<and>
    bencodable (Json_object info) \<and>
    metainfo_hash m = Inr (sha1_hex (encode_total (Json_object info)))"
proof -
  obtain enc obj info where dec: "decode_bencoded_value content = Inr (Some (enc, Json_object obj))"
    and raw: "mi_raw m = Json_object obj" and info: "object_find obj ''info'' = Some (Json_object info)"
    and len: "\<exists>j. object_find info ''length'' = Some j \<and> get_integer j = Inr (mi_length m)"
    by (rule metainfo_strict_shape [OF assms(1)])
  have "bencodable (Json_object obj)"
    using decode_bencodable(1) [OF assms(2) dec] by simp
  then have ben: "bencodable (Json_object info)" by (rule object_find_bencodable [OF _ info])
  moreover have "\<not> json_empty (Json_object info)"
    using len by (auto simp: json_empty_def dest: object_find_nonempty)
  ultimately show ?thesis
    using raw info metainfo_hash_info [OF raw info encode_total [OF ben]] by blast
qed

text \<open>
  In a file that is itself the encoding of its value (keys in order, no duplicates, canonical
  numbers), the hash is taken over the bytes of the info dictionary as they stand in the file.
\<close>

lemma encode_dict_items_split:
  "encode_dict_items m = Inr (Some t) \<Longrightarrow> (k, v) \<in> set m \<Longrightarrow>
     \<exists>pre tv post. encode v = Inr (Some tv) \<and> t = pre @ length_prefixed k @ tv @ post"
proof (induction m arbitrary: t)
  case (Cons kv m)
  obtain k1 v1 where kv: "kv = (k1, v1)" by fastforce
  with Cons.prems(1) obtain tv1 t1 where s: "encode v1 = Inr (Some tv1)"
    "encode_dict_items m = Inr (Some t1)" "t = length_prefixed k1 @ tv1 @ t1"
    by (auto split: sum.splits option.splits)
  show ?case
  proof (cases "(k, v) = (k1, v1)")
    case True
    with s show ?thesis by (intro exI [of _ "[]"] exI [of _ tv1] exI [of _ t1]) simp
  next
    case False
    then have "(k, v) \<in> set m" using Cons.prems(2) kv by auto
    then obtain pre tv post where "encode v = Inr (Some tv)" "t1 = pre @ length_prefixed k @ tv @ post"
      using Cons.IH [OF s(2)] by blast
    with s(3) show ?thesis
      by (intro exI [of _ "length_prefixed k1 @ tv1 @ pre"] exI [of _ tv] exI [of _ post]) simp
  qed
qed simp

lemma encode_object_split:
  assumes "encode (Json_object m) = Inr (Some t)" "object_find m k = Some v"
  shows "\<exists>pre tv post. encode v = Inr (Some tv) \<and> t = pre @ length_prefixed k @ tv @ post"
proof -
  from assms(1) obtain t' where t': "encode_dict_items m = Inr (Some t')"
    and t: "t = [DICT_START_SYMBOL] @ t' @ [END_SYMBOL]"
    by (auto split: sum.splits option.splits)
  have "(k, v) \<in> set m"
    using assms(2) by (auto simp: object_find_def dest: map_of_SomeD)
  then obtain pre tv post where "encode v = Inr (Some tv)" "t' = pre @ length_prefixed k @ tv @ post"
    using encode_dict_items_split [OF t'] by blast
  with t show ?thesis
    by (intro exI [of _ "DICT_START_SYMBOL # pre"] exI [of _ tv] exI [of _ "post @ [END_SYMBOL]"]) simp
qed

lemma metainfo_hash_canonical:
  assumes m: "metainfo_from_file (encode_total raw) True = Inr (Some m)"
    and ok: "bencodable raw" "int (length (encode_total raw)) < 2 ^ 63"
  shows "\<exists>pre t post. encode_total raw = pre @ length_prefixed ''info'' @ t @ post \<and>
    metainfo_hash m = Inr (sha1_hex t)"
proof -
  obtain obj info where raw: "mi_raw m = Json_object obj"
    and info: "object_find obj ''info'' = Some (Json_object info)"
    and ben: "bencodable (Json_object info)"
    and hash: "metainfo_hash m = Inr (sha1_hex (encode_total (Json_object info)))"
    using metainfo_hash_strict [OF m ok(2)] by blast
  obtain enc where "decode_bencoded_value (encode_total raw) = Inr (Some (enc, Json_object obj))"
    using metainfo_strict_shape [OF m] raw by (metis json.inject(6))
  then have "raw = Json_object obj"
    using decode_encode [OF ok(1) encode_total [OF ok(1)], of "[]"] by simp
  then have "encode (Json_object obj) = Inr (Some (encode_total raw))"
    using encode_total [OF ok(1)] by simp
  then obtain pre tv post where "encode (Json_object info) = Inr (Some tv)"
    "encode_total raw = pre @ length_prefixed ''info'' @ tv @ post"
    using encode_object_split [OF _ info] by blast
  with hash encode_total [OF ben] show ?thesis by auto
qed

section \<open>The piece hashes\<close>

lemma pieces_loop_chunks:
  "length bs mod 20 = 0 \<Longrightarrow>
     \<exists>ps. pieces_loop bs = Inr ps \<and> concat ps = bs \<and> (\<forall>p \<in> set ps. length p = 20) \<and>
       length ps = length bs div 20"
proof (induction bs rule: pieces_loop.induct)
  case (1 bs)
  show ?case
  proof (cases "bs = []")
    case True
    then show ?thesis by (simp add: pieces_loop.simps)
  next
    case False
    with 1(2) have len: "20 \<le> length bs" by (auto simp: dvd_imp_le dvd_eq_mod_eq_0 [symmetric])
    with 1(2) have "length (drop 20 bs) mod 20 = 0" by (simp add: le_mod_geq)
    then obtain ps where ps: "pieces_loop (drop 20 bs) = Inr ps" "concat ps = drop 20 bs"
      "\<forall>p \<in> set ps. length p = 20" "length ps = length (drop 20 bs) div 20"
      using 1(1) False len by (auto simp: PIECE_HASH_LENGTH_def)
    then have "pieces_loop bs = Inr (take 20 bs # ps)"
      using False len by (subst pieces_loop.simps) (simp add: PIECE_HASH_LENGTH_def)
    with ps len show ?thesis by (simp add: le_div_geq)
  qed
qed

lemma pieces_loop_past_end:
  "length bs mod 20 \<noteq> 0 \<Longrightarrow> pieces_loop bs = Inl (Undefined Read_past_end)"
proof (induction bs rule: pieces_loop.induct)
  case (1 bs)
  show ?case
  proof (cases "length bs < 20")
    case True
    with 1(2) show ?thesis by (subst pieces_loop.simps) (auto simp: PIECE_HASH_LENGTH_def)
  next
    case False
    with 1(2) have "length (drop 20 bs) mod 20 \<noteq> 0" by (simp add: le_mod_geq)
    moreover have "bs \<noteq> []" using False by auto
    ultimately have "pieces_loop (drop 20 bs) = Inl (Undefined Read_past_end)"
      using 1(1) False by (auto simp: PIECE_HASH_LENGTH_def)
    with False show ?thesis by (subst pieces_loop.simps) (auto simp: PIECE_HASH_LENGTH_def)
  qed
qed

lemma pieces_loop_concat:
  assumes "\<forall>p \<in> set ps. length p = 20"
  shows "pieces_loop (concat ps) = Inr ps"
  using assms
proof (induction ps)
  case (Cons p ps)
  then have p: "length p = 20" "pieces_loop (concat ps) = Inr ps" by simp_all
  then have "p \<noteq> []" by auto
  with p show ?case
    by (subst pieces_loop.simps) (simp add: PIECE_HASH_LENGTH_def)
qed (simp add: pieces_loop.simps)

section \<open>Properties\<close>

text \<open>A file accepted in strict mode has an info dictionary, and its hash is the SHA-1 of the
  canonical encoding of that dictionary: \<open>hash()\<close> does not throw.\<close>

theorem strict_metainfo_hash:
  assumes "metainfo_from_file content True = Inr (Some m)" "int (length content) < 2 ^ 63"
  shows "\<exists>obj info. mi_raw m = Json_object obj \<and> object_find obj ''info'' = Some (Json_object info) \<and>
    bencodable (Json_object info) \<and>
    metainfo_hash m = Inr (sha1_hex (encode_total (Json_object info)))"
  by (rule metainfo_hash_strict [OF assms])

definition example_info :: "(string \<times> json) list" where
  "example_info = [(''length'', Json_integer 3), (''piece length'', Json_integer 2),
     (''pieces'', Json_binary (replicate 40 255))]"

definition example_torrent :: json where
  "example_torrent = Json_object [(''announce'', Json_string ''t''), (''info'', Json_object example_info)]"

lemma bencodable_example_torrent: "bencodable example_torrent"
proof -
  have "replicate 40 (255 :: u8) = 255 # replicate 39 255" by (simp add: numeral_eq_Suc)
  then show ?thesis
    by (simp add: example_torrent_def example_info_def object_sorted_def utf8_string_def
        unat_byte_of_char char_of_byte_def in_range_def del: replicate.simps)
qed

definition example_metainfo :: metainfo where
  "example_metainfo = \<lparr>mi_raw = example_torrent, mi_announce = ''t'', mi_length = 3, mi_piece_length = 2\<rparr>"

lemma example_from_file: "metainfo_from_file (encode_total example_torrent) True = Inr (Some example_metainfo)"
proof -
  have "decode_bencoded_value (encode_total example_torrent) =
      Inr (Some (\<lparr>ev_type = type_of_json example_torrent, ev_value = encode_total example_torrent\<rparr>, example_torrent))"
    using decode_encode [OF bencodable_example_torrent encode_total [OF bencodable_example_torrent], of "[]"]
    by simp
  then show ?thesis
    by (simp add: metainfo_from_file_def metainfo_json_def example_torrent_def example_info_def
        json_value_object object_find_def get_json_def get_string_def get_integer_def example_metainfo_def)
qed

lemma example_torrent_short: "int (length (encode_total example_torrent)) < 2 ^ 63"
  by (simp add: encode_total_def example_torrent_def example_info_def length_prefixed_def
      dump_integer_eq_dec_of_int dec_of_int_def dec_of_nat.simps)

theorem strict_metainfo_hash_witness:
  "\<exists>info. bencodable (Json_object info) \<and>
    metainfo_hash example_metainfo = Inr (sha1_hex (encode_total (Json_object info)))"
  using strict_metainfo_hash [OF example_from_file example_torrent_short] by blast



text \<open>C27: the loop over the piece hashes cuts the bytes into hashes of 20 when their number is a multiple
  of 20; when it is not, the loop steps over the end and reads outside the bytes.\<close>

theorem pieces_partition:
  "if length bs mod 20 = 0
   then \<exists>ps. pieces_loop bs = Inr ps \<and> concat ps = bs \<and> list_all (\<lambda>p. length p = 20) ps
   else pieces_loop bs = Inl (Undefined Read_past_end)"
  using pieces_loop_chunks [of bs] pieces_loop_past_end [of bs] by (auto simp: list_all_iff)

end
