(* ===== verification/Piece_Worker.thy ===== *)
theory Piece_Worker
  imports Tcp_Transfer Proto_Deserialize Torrent "HOL-Library.Signed_Division"
begin

text \<open>
  \<open>src/src/client/piece.hpp\<close> and \<open>src/src/client/piece.cpp\<close>: the worker that holds a connection to
  one peer and downloads one piece at a time in a thread of its own.

  The members of the class are the fields of the record. A method is a function of the
  worker that returns its result, or the exception it throws, and the worker after it: what
  a method changed before it threw stays changed. The worker's thread is the only one that
  touches it between \<open>download_piece_async\<close> and \<open>wait_piece_transfer\<close>, so the job runs at the
  join. \<open>pw_peer\<close> is what \<open>connect\<close> meets at the endpoint: nothing, or a connection with its
  script. \<open>_ostream\<close> is the worker's own buffer or the caller's stream. Sizes and indexes are
  natural numbers; where \<open>size_t\<close> can wrap (the bytes still missing, the index of the last of no
  pieces) the arithmetic is on 64-bit words.
\<close>

section \<open>State and methods\<close>

datatype job =
    Job_download nat
  | Job_connect

record piece_worker =
  pw_meta :: metainfo
  pw_peer :: "tcp_socket option"
  pw_socket :: tcp_socket
  pw_thread :: "job option"
  pw_exception :: "error option"
  pw_owned :: bool
  pw_buffer :: bytes
  pw_stream :: bytes
  pw_have_mode :: bool
  pw_complete :: bool
  pw_connected :: bool
  pw_last_piece_idx :: nat
  pw_have_piece_idx :: "nat option"
  pw_progress :: "(nat \<times> u64 \<times> u64) list"

type_synonym 'a act = "piece_worker \<Rightarrow> 'a result \<times> piece_worker"

definition act_return :: "'a \<Rightarrow> 'a act" where
  "act_return x w = (Inr x, w)"

definition act_throw :: "error \<Rightarrow> 'a act" where
  "act_throw e w = (Inl e, w)"

definition act_bind :: "'a act \<Rightarrow> ('a \<Rightarrow> 'b act) \<Rightarrow> 'b act" where
  "act_bind m f w = (case m w of (Inl e, w') \<Rightarrow> (Inl e, w') | (Inr x, w') \<Rightarrow> f x w')"

definition act_update :: "(piece_worker \<Rightarrow> piece_worker) \<Rightarrow> unit act" where
  "act_update f w = (Inr (), f w)"

definition act_lift :: "'a result \<Rightarrow> 'a act" where
  "act_lift r w = (r, w)"

definition net_read :: "nat \<Rightarrow> (error_code + bytes) act" where
  "net_read n w = (case do_read n (pw_socket w) of (r, s) \<Rightarrow> (Inr r, w\<lparr>pw_socket := s\<rparr>))"

definition net_exchange :: "bytes \<Rightarrow> nat \<Rightarrow> (error_code + bytes) act" where
  "net_exchange request n w =
     (case do_transfer request n (pw_socket w) of (r, s) \<Rightarrow> (Inr r, w\<lparr>pw_socket := s\<rparr>))"

definition connection_error :: "error" where
  "connection_error = Runtime_error ''Connection error''"

definition unexpected_answer :: "error" where
  "unexpected_answer = Runtime_error ''Unexpected answer from peer''"

definition not_ready :: "error" where
  "not_ready = Runtime_error ''Peer not ready to transmit data: peer answer''"

text \<open>\<open>map_error\<close> with a function that throws, on the results of the network and the parsers.\<close>

definition received :: "(error_code + bytes) \<Rightarrow> bytes act" where
  "received r = (case r of Inl ec \<Rightarrow> act_throw connection_error | Inr bs \<Rightarrow> act_return bs)"

definition parsed :: "'m parsed \<Rightarrow> 'm act" where
  "parsed r =
     (case r of
        Inl e \<Rightarrow> act_throw e
      | Inr (Inl _) \<Rightarrow> act_throw unexpected_answer
      | Inr (Inr m) \<Rightarrow> act_return m)"

definition read_or_throw :: "nat \<Rightarrow> bytes act" where
  "read_or_throw n = act_bind (net_read n) received"

definition exchange_or_throw :: "bytes \<Rightarrow> nat \<Rightarrow> bytes act" where
  "exchange_or_throw request n = act_bind (net_exchange request n) received"

lemmas act_defs = act_return_def act_throw_def act_bind_def act_update_def act_lift_def

section \<open>Connecting\<close>

definition PEER_ID :: string where
  "PEER_ID = ''00112233445566778899''"

definition do_handshake :: "unit act" where
  "do_handshake w =
     (if \<not> is_open (pw_socket w) then (Inl (Runtime_error ''Can't open socket of address''), w)
      else
        (act_bind (act_lift (metainfo_hash (pw_meta w))) (\<lambda>hash.
         act_bind (act_lift (pack_handshake (peer_handshake hash PEER_ID))) (\<lambda>handshake_msg.
         act_bind (exchange_or_throw handshake_msg (length handshake_msg)) (\<lambda>answer_bytes.
         act_bind (act_lift (unpack_handshake (span_of answer_bytes))) (\<lambda>answer.
         if hs_info_hash answer \<noteq> hash then act_throw (Runtime_error ''Invalid info hash'')
         else act_return ()))))) w)"

definition do_bitfield_or_unchoke :: "unit act" where
  "do_bitfield_or_unchoke =
     act_bind (read_or_throw MSG_HEADER_SIZE) (\<lambda>bs.
     act_bind (parsed (unpack_msg_header (span_of bs))) (\<lambda>answer.
     if mh_id answer = Bitfield
     then act_bind (read_or_throw (unat (body_length answer))) (\<lambda>_. act_return ())
     else if mh_id answer = Unchoke then act_return ()
     else act_throw (Runtime_error ''Unexpected msg id from peer. Expected Bitfield'')))"

definition read_have :: "msg_header \<Rightarrow> unit act" where
  "read_have response =
     act_bind (read_or_throw (unat (body_length response))) (\<lambda>body.
     act_bind (parsed (unpack_have_msg (span_of body))) (\<lambda>msg.
     act_update (\<lambda>w. w\<lparr>pw_have_piece_idx := Some (unat (hm_index msg))\<rparr>)))"

definition do_interested :: "unit act" where
  "do_interested =
     act_bind (exchange_or_throw pack_interested_msg MSG_HEADER_SIZE) (\<lambda>bs.
     act_bind (parsed (unpack_msg_header (span_of bs))) (\<lambda>response.
     if mh_id response = Have
     then act_bind (read_have response) (\<lambda>_. act_update (\<lambda>w. w\<lparr>pw_have_mode := True\<rparr>))
     else if mh_id response \<noteq> Unchoke then act_throw not_ready
     else act_return ()))"

definition socket_connect :: "unit act" where
  "socket_connect w =
     (case pw_peer w of
        None \<Rightarrow> (Inl (Runtime_error ''connect''), w)
      | Some s \<Rightarrow> (Inr (), w\<lparr>pw_socket := s\<rparr>))"

definition connect_to_peer :: "unit act" where
  "connect_to_peer =
     act_bind socket_connect (\<lambda>_.
     act_bind do_handshake (\<lambda>_.
     act_bind do_bitfield_or_unchoke (\<lambda>_.
     act_bind do_interested (\<lambda>_.
     act_update (\<lambda>w. w\<lparr>pw_connected := True\<rparr>)))))"

section \<open>Have messages\<close>

text \<open>\<open>_try_have\<close> is declared and defined, and called by nothing.\<close>

definition try_have :: "unit act" where
  "try_have w =
     act_bind (net_exchange (pack_have_msg (of_nat (pw_last_piece_idx w))) MSG_HEADER_SIZE) (\<lambda>result.
       case result of
         Inl ec \<Rightarrow> if ec = Operation_aborted then act_return () else act_throw connection_error
       | Inr bs \<Rightarrow>
           act_bind (parsed (unpack_msg_header (span_of bs))) (\<lambda>response.
           if mh_id response = Have then read_have response
           else if mh_id response \<noteq> Unchoke then act_throw not_ready
           else act_return ())) w"

definition wait_have :: "bool act" where
  "wait_have =
     act_bind (net_read MSG_HEADER_SIZE) (\<lambda>result.
       case result of
         Inl ec \<Rightarrow> if ec = Operation_aborted then act_return False else act_throw connection_error
       | Inr bs \<Rightarrow>
           act_bind (parsed (unpack_msg_header (span_of bs))) (\<lambda>response.
           if mh_id response = Have then act_bind (read_have response) (\<lambda>_. act_return True)
           else if mh_id response \<noteq> Unchoke then act_throw not_ready
           else act_return False))"

section \<open>Downloading a piece\<close>

definition MAX_BLOCK_LEN :: u64 where
  "MAX_BLOCK_LEN = 16 * 1024"

text \<open>The length of a piece: a \<open>long long\<close> that meets \<open>size_t\<close> in the comparison of the loop.\<close>

definition last_piece_len :: "metainfo \<Rightarrow> int result" where
  "last_piece_len m =
     (if mi_piece_length m = 0 then Inl (Undefined Division_by_zero)
      else if mi_piece_length m = -1 \<and> mi_length m = - (2 ^ 63) then Inl (Undefined Division_overflow)
      else Inr (mi_length m smod mi_piece_length m))"

definition piece_len :: "metainfo \<Rightarrow> nat \<Rightarrow> nat \<Rightarrow> u64 result" where
  "piece_len m n_pieces piece_idx =
     (case last_piece_len m of
        Inl e \<Rightarrow> Inl e
      | Inr last_len \<Rightarrow>
          Inr (if (of_nat piece_idx :: u64) = of_nat n_pieces - 1 then of_int last_len
               else of_int (mi_piece_length m)))"

definition block_len :: "u64 \<Rightarrow> u64 \<Rightarrow> u64" where
  "block_len plen received_bytes =
     (let remain_bytes = plen - received_bytes in
      if MAX_BLOCK_LEN < remain_bytes then MAX_BLOCK_LEN else remain_bytes)"

definition ostream_write :: "bytes \<Rightarrow> piece_worker \<Rightarrow> piece_worker" where
  "ostream_write bs w =
     (if pw_owned w then w\<lparr>pw_buffer := pw_buffer w @ bs\<rparr> else w\<lparr>pw_stream := pw_stream w @ bs\<rparr>)"

definition progress :: "nat \<Rightarrow> u64 \<Rightarrow> u64 \<Rightarrow> piece_worker \<Rightarrow> piece_worker" where
  "progress piece_idx downloaded overall w =
     w\<lparr>pw_progress := pw_progress w @ [(piece_idx, downloaded, overall)]\<rparr>"

text \<open>One turn of the loop: request a block, read what the peer answers, write it out.\<close>

definition request_block :: "nat \<Rightarrow> u64 \<Rightarrow> u64 \<Rightarrow> u64 act" where
  "request_block piece_idx plen received_bytes =
     (let request_msg = pack_request_msg (of_nat piece_idx) (ucast received_bytes)
            (ucast (block_len plen received_bytes)) in
      act_bind (exchange_or_throw request_msg MSG_HEADER_SIZE) (\<lambda>request_answer.
      act_bind (parsed (unpack_msg_header (span_of request_answer))) (\<lambda>piece_header.
      if mh_id piece_header \<noteq> Piece then act_throw not_ready
      else
        act_bind (read_or_throw (unat (body_length piece_header))) (\<lambda>piece_body.
        act_bind (parsed (unpack_piece_msg (span_of piece_body))) (\<lambda>msg.
        act_bind (act_update (ostream_write (pm_block msg))) (\<lambda>_.
        let received_bytes = received_bytes + of_nat (length (pm_block msg)) in
        act_bind (act_update (progress piece_idx received_bytes plen)) (\<lambda>_.
        act_return received_bytes)))))))"

subsection \<open>The loop\<close>

text \<open>
  Each turn consumes at least a message header of the script, so the loop of the code ends
  whatever the peer sends: with the piece, or with an exception.
\<close>

primrec arrival_size :: "arrival \<Rightarrow> nat" where
  "arrival_size (Chunk bs) = Suc (length bs)"
| "arrival_size (Closed ec) = 1"
| "arrival_size Deadline = 1"

definition script_size :: "arrival list \<Rightarrow> nat" where
  "script_size as = sum_list (map arrival_size as)"

abbreviation worker_script :: "piece_worker \<Rightarrow> nat" where
  "worker_script w \<equiv> script_size (incoming (pw_socket w))"

lemma receive_script: "receive n as = (res, r) \<Longrightarrow> script_size r \<le> script_size as"
proof (induction n as arbitrary: res rule: receive.induct)
  case (1 n as)
  show ?case
  proof (cases "n = 0")
    case n: False
    show ?thesis
    proof (cases as)
      case (Cons a as')
      show ?thesis
      proof (cases a)
        case (Chunk bs)
        show ?thesis
        proof (cases "n < length bs")
          case False
          obtain q r' where q: "receive (n - length bs) as' = (q, r')" by fastforce
          then have "r' = r" using "1.prems" n Cons Chunk False by (auto split: sum.splits)
          with "1.IH" [OF n Cons Chunk False] q Cons Chunk show ?thesis
            by (fastforce simp: script_size_def)
        qed (use "1.prems" n Cons Chunk in \<open>auto simp: script_size_def\<close>)
      qed (use "1.prems" n Cons in \<open>auto simp: script_size_def\<close>)
    qed (use "1.prems" n in auto)
  qed (use "1.prems" in auto)
qed

lemma receive_consumes: "receive n as = (Inr bs, r) \<Longrightarrow> 0 < n \<Longrightarrow> script_size r < script_size as"
proof (cases as)
  case (Cons a as')
  assume rcv: "receive n as = (Inr bs, r)" and n: "0 < n"
  then obtain xs where a: "a = Chunk xs" using Cons by (cases a) auto
  show ?thesis
  proof (cases "n < length xs")
    case False
    obtain q r' where q: "receive (n - length xs) as' = (q, r')" by fastforce
    then have "r' = r" using rcv n Cons a False by (auto split: sum.splits)
    with receive_script [OF q] Cons a show ?thesis by (simp add: script_size_def)
  qed (use rcv n Cons a in \<open>auto simp: script_size_def\<close>)
qed auto

lemma do_read_script: "do_read n s = (res, s') \<Longrightarrow> script_size (incoming s') \<le> script_size (incoming s)"
  using receive_script [of n "incoming s" "fst (receive n (incoming s))" "snd (receive n (incoming s))"]
  by (cases "is_open s") (auto simp: do_read_receive do_read_closed)

lemma do_transfer_cases:
  obtains ec s' where "do_transfer request n s = (Inl ec, s')" "incoming s' = incoming s"
  | out ws where "do_transfer request n s =
      (fst (receive n (incoming s)), (after_send out ws s)\<lparr>incoming := snd (receive n (incoming s))\<rparr>)"
proof (cases "is_open s")
  case True
  obtain r out ws where sent: "send request (writes s) = (r, out, ws)"
    by (cases "send request (writes s)") auto
  from do_transfer_send [OF True sent, of n] that show ?thesis
    by (cases r) (auto simp: after_send_def)
qed (use that do_transfer_closed in auto)

lemma do_transfer_consumes:
  assumes "do_transfer request n s = (Inr bs, s')" "0 < n"
  shows "script_size (incoming s') < script_size (incoming s)"
proof (rule do_transfer_cases [of request n s])
  fix out ws
  assume t: "do_transfer request n s =
    (fst (receive n (incoming s)), (after_send out ws s)\<lparr>incoming := snd (receive n (incoming s))\<rparr>)"
  then have "receive n (incoming s) = (Inr bs, snd (receive n (incoming s)))"
    using assms(1) by (simp add: prod_eq_iff)
  from receive_consumes [OF this assms(2)] t assms(1) show ?thesis by auto
qed (use assms in simp)

lemma act_bind_Inr:
  "act_bind m f w = (Inr y, w') \<longleftrightarrow> (\<exists>x w1. m w = (Inr x, w1) \<and> f x w1 = (Inr y, w'))"
  by (auto simp: act_bind_def split: prod.splits sum.splits)

lemma act_simple_Inr [simp]:
  "act_return x w = (Inr y, w') \<longleftrightarrow> y = x \<and> w' = w"
  "act_throw e w \<noteq> (Inr y, w')"
  "act_update g w = (Inr u, w') \<longleftrightarrow> w' = g w"
  "act_lift r w = (Inr y, w') \<longleftrightarrow> r = Inr y \<and> w' = w"
  by (auto simp: act_defs)

lemma act_guard_Inr [simp]:
  "(if c then act_throw e else f) w = (Inr y, w') \<longleftrightarrow> \<not> c \<and> f w = (Inr y, w')"
  by simp

lemma received_Inr [simp]: "received r w = (Inr bs, w') \<longleftrightarrow> r = Inr bs \<and> w' = w"
  by (auto simp: received_def split: sum.splits)

lemma parsed_Inr [simp]: "parsed r w = (Inr m, w') \<longleftrightarrow> r = Inr (Inr m) \<and> w' = w"
  by (auto simp: parsed_def split: sum.splits)

lemma read_or_throw_Inr:
  "read_or_throw n w = (Inr bs, w') \<longleftrightarrow>
     (\<exists>s. do_read n (pw_socket w) = (Inr bs, s) \<and> w' = w\<lparr>pw_socket := s\<rparr>)"
  by (auto simp: read_or_throw_def act_bind_Inr net_read_def split: prod.splits)

lemma exchange_or_throw_Inr:
  "exchange_or_throw request n w = (Inr bs, w') \<longleftrightarrow>
     (\<exists>s. do_transfer request n (pw_socket w) = (Inr bs, s) \<and> w' = w\<lparr>pw_socket := s\<rparr>)"
  by (auto simp: exchange_or_throw_def act_bind_Inr net_exchange_def split: prod.splits)

text \<open>A method that did not throw, read as the chain of what it did.\<close>

lemma act_bind_ops:
  "act_bind (read_or_throw n) f w = (Inr y, w') \<longleftrightarrow>
     (\<exists>bs s. do_read n (pw_socket w) = (Inr bs, s) \<and> f bs (w\<lparr>pw_socket := s\<rparr>) = (Inr y, w'))"
  "act_bind (exchange_or_throw request n) f w = (Inr y, w') \<longleftrightarrow>
     (\<exists>bs s. do_transfer request n (pw_socket w) = (Inr bs, s) \<and>
        f bs (w\<lparr>pw_socket := s\<rparr>) = (Inr y, w'))"
  "act_bind (parsed r) g w = (Inr y, w') \<longleftrightarrow> (\<exists>m. r = Inr (Inr m) \<and> g m w = (Inr y, w'))"
  "act_bind (act_update h) k w = (Inr y, w') \<longleftrightarrow> k () (h w) = (Inr y, w')"
  "act_bind (act_lift q) l w = (Inr y, w') \<longleftrightarrow> (\<exists>x. q = Inr x \<and> l x w = (Inr y, w'))"
  by (auto simp: act_bind_Inr read_or_throw_Inr exchange_or_throw_Inr)

lemma ostream_write_sel [simp]:
  "pw_socket (ostream_write bs w) = pw_socket w" "pw_meta (ostream_write bs w) = pw_meta w"
  "pw_have_mode (ostream_write bs w) = pw_have_mode w" "pw_owned (ostream_write bs w) = pw_owned w"
  "pw_last_piece_idx (ostream_write bs w) = pw_last_piece_idx w"
  "pw_connected (ostream_write bs w) = pw_connected w"
  by (simp_all add: ostream_write_def)

lemma progress_sel [simp]:
  "pw_socket (progress i d n w) = pw_socket w" "pw_meta (progress i d n w) = pw_meta w"
  "pw_have_mode (progress i d n w) = pw_have_mode w" "pw_owned (progress i d n w) = pw_owned w"
  "pw_last_piece_idx (progress i d n w) = pw_last_piece_idx w"
  "pw_connected (progress i d n w) = pw_connected w"
  "pw_buffer (progress i d n w) = pw_buffer w" "pw_stream (progress i d n w) = pw_stream w"
  by (simp_all add: progress_def)

text \<open>What a turn that does not throw has done.\<close>

lemma request_block_Inr:
  "request_block idx plen n w = (Inr n', w') \<longleftrightarrow>
     (\<exists>hdr h body msg s1 s2.
        do_transfer (pack_request_msg (of_nat idx) (ucast n) (ucast (block_len plen n))) 5 (pw_socket w)
          = (Inr hdr, s1) \<and>
        header_of_bytes hdr = Inr h \<and> mh_id h = Piece \<and>
        do_read (unat (body_length h)) s1 = (Inr body, s2) \<and>
        piece_of_bytes body = Inr msg \<and>
        n' = n + of_nat (length (pm_block msg)) \<and>
        w' = progress idx n' plen (ostream_write (pm_block msg) (w\<lparr>pw_socket := s2\<rparr>)))"
  unfolding request_block_def Let_def
  by (simp add: act_bind_ops unpack_msg_header_of unpack_piece_msg_of MSG_HEADER_SIZE_def) blast

lemma request_block_consumes:
  "request_block idx plen n w = (Inr n', w') \<Longrightarrow> worker_script w' < worker_script w"
  using do_transfer_consumes do_read_script
  by (fastforce simp: request_block_Inr)

function download_loop :: "nat \<Rightarrow> u64 \<Rightarrow> u64 \<Rightarrow> u64 act" where
  "download_loop piece_idx plen received_bytes w =
     (if received_bytes = plen then (Inr received_bytes, w)
      else (case request_block piece_idx plen received_bytes w of
              (Inl e, w') \<Rightarrow> (Inl e, w')
            | (Inr received_bytes', w') \<Rightarrow> download_loop piece_idx plen received_bytes' w'))"
  by pat_completeness auto
termination
  by (relation "measure (\<lambda>(i, p, r, w). worker_script w)")
    (simp_all add: request_block_consumes [OF sym])

declare download_loop.simps [simp del]

definition integrity_error :: "error" where
  "integrity_error = Runtime_error ''Piece integrity is broken''"

text \<open>Which piece: the one a have message announced, if there is one or one must be awaited.\<close>

definition choose_piece :: "nat \<Rightarrow> nat option act" where
  "choose_piece piece_idx w =
     (case pw_have_piece_idx w of
        Some i \<Rightarrow> (Inr (Some i), w\<lparr>pw_have_piece_idx := None\<rparr>)
      | None \<Rightarrow>
          if pw_have_mode w
          then act_bind wait_have (\<lambda>ok w.
                 if \<not> ok then (Inr None, w)
                 else (Inr (pw_have_piece_idx w), w\<lparr>pw_have_piece_idx := None\<rparr>)) w
          else (Inr (Some piece_idx), w))"

definition connect_if_needed :: "unit act" where
  "connect_if_needed w = (if pw_connected w then (Inr (), w) else connect_to_peer w)"

definition download_piece_body :: "nat \<Rightarrow> unit act" where
  "download_piece_body piece_idx w =
     act_bind connect_if_needed (\<lambda>_.
     act_bind (\<lambda>w. (metainfo_pieces (pw_meta w), w)) (\<lambda>piece_hashes.
     act_bind (\<lambda>w. (piece_len (pw_meta w) (length piece_hashes) piece_idx, w)) (\<lambda>plen.
     act_bind (download_loop piece_idx plen 0) (\<lambda>received_bytes.
     act_bind (act_update (progress piece_idx received_bytes plen)) (\<lambda>_.
     if received_bytes \<noteq> plen then act_throw integrity_error
     else act_update (\<lambda>w. w\<lparr>pw_last_piece_idx := piece_idx, pw_have_piece_idx := None\<rparr>)))))) w"

definition do_download_piece :: "nat \<Rightarrow> unit act" where
  "do_download_piece piece_idx w =
     act_bind (choose_piece piece_idx) (\<lambda>choice.
       case choice of
         None \<Rightarrow> act_return ()
       | Some i \<Rightarrow> download_piece_body i) (w\<lparr>pw_buffer := []\<rparr>)"

text \<open>\<open>_check_piece_hash\<close>, which nothing calls.\<close>

definition check_piece_hash :: "nat \<Rightarrow> bytes \<Rightarrow> piece_msg \<Rightarrow> unit result" where
  "check_piece_hash piece_idx piece_hash msg =
     (let calculated_piece_hash = fst (final (update sha1_reset (string_of_bytes (pm_block msg))));
          expected_hash = hex_of_bytes piece_hash
      in if expected_hash \<noteq> calculated_piece_hash then Inl (Runtime_error ''Bad piece hash'')
         else Inr ())"

section \<open>The thread\<close>

definition new_worker :: "(string \<Rightarrow> bool) \<Rightarrow> (string \<Rightarrow> nat \<Rightarrow> tcp_socket option) \<Rightarrow>
    metainfo \<Rightarrow> string \<Rightarrow> u64 \<Rightarrow> bool \<Rightarrow> bytes \<Rightarrow> piece_worker result" where
  "new_worker is_address peer_at meta peer_ip peer_port owned stream =
     (if \<not> is_address peer_ip then Inl (Runtime_error ''make_address'')
      else Inr \<lparr>pw_meta = meta, pw_peer = peer_at peer_ip (unat peer_port mod 2 ^ 16),
                pw_socket = \<lparr>is_open = False, incoming = [], writes = [], outgoing = []\<rparr>,
                pw_thread = None, pw_exception = None, pw_owned = owned, pw_buffer = [],
                pw_stream = stream, pw_have_mode = False, pw_complete = False,
                pw_connected = False, pw_last_piece_idx = 0, pw_have_piece_idx = None,
                pw_progress = []\<rparr>)"

definition thread_error :: "error" where
  "thread_error = Runtime_error ''Last started thread must be awaited.''"

definition download_piece_async :: "nat \<Rightarrow> unit act" where
  "download_piece_async index w =
     (if pw_thread w \<noteq> None then (Inl thread_error, w)
      else (Inr (), w\<lparr>pw_complete := False, pw_thread := Some (Job_download index)\<rparr>))"

definition check_connection_async :: "unit act" where
  "check_connection_async w =
     (if pw_thread w \<noteq> None then (Inl thread_error, w)
      else (Inr (), w\<lparr>pw_thread := Some Job_connect\<rparr>))"

text \<open>The body of the thread catches every \<open>std::exception\<close>; what is undefined is not one.\<close>

definition run_job :: "job \<Rightarrow> unit act" where
  "run_job j w =
     (let (r, w) = (case j of
            Job_download i \<Rightarrow> act_bind (do_download_piece i) (\<lambda>_. act_update (\<lambda>w. w\<lparr>pw_complete := True\<rparr>)) w
          | Job_connect \<Rightarrow> connect_to_peer w)
      in case r of
           Inr () \<Rightarrow> (Inr (), w)
         | Inl e \<Rightarrow> if is_std_exception e then (Inr (), w\<lparr>pw_exception := Some e\<rparr>) else (Inl e, w))"

definition join_thread :: "unit act" where
  "join_thread w =
     (case pw_thread w of
        None \<Rightarrow> (Inl (Runtime_error ''Thread is not joinable''), w)
      | Some j \<Rightarrow> run_job j (w\<lparr>pw_thread := None\<rparr>))"

definition wait_piece_transfer :: "bool act" where
  "wait_piece_transfer = act_bind join_thread (\<lambda>_ w. (Inr (pw_complete w), w))"

definition wait_connection_established :: "bool act" where
  "wait_connection_established = act_bind join_thread (\<lambda>_ w. (Inr (pw_connected w), w))"

definition started :: "piece_worker \<Rightarrow> bool" where
  "started w \<longleftrightarrow> pw_thread w \<noteq> None"

definition raise :: "piece_worker \<Rightarrow> error" where
  "raise w = (case pw_exception w of Some e \<Rightarrow> e | None \<Rightarrow> Undefined Null_exception)"

section \<open>A download from a peer that answers\<close>

text \<open>
  \<open>delivers as stream rest\<close>: the script brings the stream, in whatever segments, and \<open>rest\<close> is
  left. A peer's answer to a request is a piece message; nothing ties its index, its begin or
  the length of its block to the request.
\<close>

definition delivers :: "arrival list \<Rightarrow> bytes \<Rightarrow> arrival list \<Rightarrow> bool" where
  "delivers as stream rest \<longleftrightarrow> receive (length stream) as = (Inr stream, rest)"

lemma delivers_append:
  "delivers as (xs @ ys) rest \<longleftrightarrow> (\<exists>as1. delivers as xs as1 \<and> delivers as1 ys rest)"
proof
  assume "delivers as (xs @ ys) rest"
  then show "\<exists>as1. delivers as xs as1 \<and> delivers as1 ys rest"
    using script.rd_concat [of xs ys as rest] by (simp add: delivers_def)
next
  assume "\<exists>as1. delivers as xs as1 \<and> delivers as1 ys rest"
  then show "delivers as (xs @ ys) rest"
    using script.rd_add by (auto simp: delivers_def)
qed

lemma delivers_Nil [simp]: "delivers as [] rest \<longleftrightarrow> rest = as"
  by (auto simp: delivers_def)

lemma do_read_delivers:
  "is_open s \<Longrightarrow> delivers (incoming s) stream rest \<Longrightarrow>
     do_read (length stream) s = (Inr stream, s\<lparr>incoming := rest\<rparr>)"
  by (simp add: do_read_receive delivers_def)

lemma do_transfer_delivers:
  "is_open s \<Longrightarrow> accepts [length request] (writes s) ws \<Longrightarrow> delivers (incoming s) stream rest \<Longrightarrow>
     do_transfer request (length stream) s = (Inr stream, (after_write request s)\<lparr>incoming := rest\<rparr>)"
  by (simp add: do_transfer_written accepts_send delivers_def)

definition piece_answer :: "u32 \<Rightarrow> u32 \<Rightarrow> bytes \<Rightarrow> bytes" where
  "piece_answer i b block = pack_msg_header Piece (length block + 9) @ (pack_u32 i @ pack_u32 b @ block)"

definition block_request :: "nat \<Rightarrow> u64 \<Rightarrow> u64 \<Rightarrow> bytes" where
  "block_request idx plen n =
     pack_request_msg (of_nat idx) (ucast n) (ucast (block_len plen n))"

lemma length_block_request [simp]: "length (block_request idx plen n) = 17"
  by (simp add: block_request_def pack_request_msg_def pack_msg_header_def pack_u32_def Let_def)

lemma header_of_pack:
  assumes "0 < n" "n < 2 ^ 32"
  shows "header_of_bytes (pack_msg_header mid n) = Inr \<lparr>mh_id = mid, body_length = of_nat n - 1\<rparr>"
    and "unat (of_nat n - 1 :: u32) = n - 1"
proof -
  have u: "unat (of_nat n :: u32) = n" using assms by (simp add: unat_of_nat take_bit_eq_mod)
  then have nz: "(of_nat n :: u32) \<noteq> 0" using assms by auto
  then show "header_of_bytes (pack_msg_header mid n) = Inr \<lparr>mh_id = mid, body_length = of_nat n - 1\<rparr>"
    using header_of_packed [of n mid "[]"] by simp
  show "unat (of_nat n - 1 :: u32) = n - 1"
    using nz u by (simp add: unat_minus_one)
qed

lemma request_block_answer:
  assumes s: "is_open (pw_socket w)" "accepts [17] (writes (pw_socket w)) ws"
    and d: "delivers (incoming (pw_socket w)) (piece_answer i b block) rest"
    and len: "length block + 9 < 2 ^ 32"
  shows "request_block idx plen n w =
    (Inr (n + of_nat (length block)),
     progress idx (n + of_nat (length block)) plen (ostream_write block (w\<lparr>pw_socket :=
       (after_write (block_request idx plen n) (pw_socket w))\<lparr>incoming := rest\<rparr>\<rparr>)))"
proof -
  let ?hdr = "pack_msg_header Piece (length block + 9)" and ?body = "pack_u32 i @ pack_u32 b @ block"
  obtain as1 where d1: "delivers (incoming (pw_socket w)) ?hdr as1" and d2: "delivers as1 ?body rest"
    using d unfolding piece_answer_def delivers_append [of _ ?hdr] by blast
  let ?s1 = "(after_write (block_request idx plen n) (pw_socket w))\<lparr>incoming := as1\<rparr>"
  have t: "do_transfer (block_request idx plen n) 5 (pw_socket w) = (Inr ?hdr, ?s1)"
    using do_transfer_delivers [OF s(1) _ d1] s(2) by simp
  have h: "header_of_bytes ?hdr = Inr \<lparr>mh_id = Piece, body_length = of_nat (length block + 9) - 1\<rparr>"
    and bl: "unat (of_nat (length block + 9) - 1 :: u32) = length ?body"
    using header_of_pack(1) [of "length block + 9" Piece] header_of_pack(2) [of "length block + 9"] len
    by simp_all
  have r: "do_read (length ?body) ?s1 = (Inr ?body, ?s1\<lparr>incoming := rest\<rparr>)"
    by (rule do_read_delivers) (use s d2 in simp_all)
  show ?thesis
    unfolding request_block_Inr
    using t h bl r piece_of_packed [of i b block] by (fastforce simp: block_request_def)
qed

text \<open>The requests of a download, given the lengths of the blocks that come back.\<close>

fun requests :: "nat \<Rightarrow> u64 \<Rightarrow> u64 \<Rightarrow> nat list \<Rightarrow> bytes list" where
  "requests idx plen n [] = []"
| "requests idx plen n (l # ls) =
     block_request idx plen n # requests idx plen (n + of_nat l) ls"

text \<open>Everything written, whichever stream it went to.\<close>

definition written :: "piece_worker \<Rightarrow> bytes" where
  "written w = (if pw_owned w then pw_buffer w else pw_stream w)"

lemma written_simps [simp]:
  "written (ostream_write bs w) = written w @ bs"
  "written (progress i d n w) = written w"
  "written (w\<lparr>pw_socket := s\<rparr>) = written w"
  by (auto simp: written_def ostream_write_def progress_def)

type_synonym answer = "u32 \<times> u32 \<times> bytes"

abbreviation answer_bytes :: "answer \<Rightarrow> bytes" where
  "answer_bytes \<equiv> \<lambda>(i, b, block). piece_answer i b block"

abbreviation answer_block :: "answer \<Rightarrow> bytes" where
  "answer_block \<equiv> \<lambda>(i, b, block). block"

definition good_answers :: "answer list \<Rightarrow> bool" where
  "good_answers answers \<longleftrightarrow>
     (\<forall>(i, b, block) \<in> set answers. block \<noteq> [] \<and> length block + 9 < 2 ^ 32)"

lemma download_loop_answers:
  assumes "good_answers answers"
    and "length (concat (map answer_block answers)) = unat (plen - n)"
    and "is_open (pw_socket w)" "accepts (replicate (length answers) 17) (writes (pw_socket w)) ws"
    and "delivers (incoming (pw_socket w)) (concat (map answer_bytes answers)) rest"
  shows "\<exists>w'. download_loop idx plen n w = (Inr plen, w') \<and>
    written w' = written w @ concat (map answer_block answers) \<and>
    concat (outgoing (pw_socket w')) = concat (outgoing (pw_socket w)) @
      concat (requests idx plen n (map (length \<circ> answer_block) answers)) \<and>
    incoming (pw_socket w') = rest \<and> is_open (pw_socket w') \<and> writes (pw_socket w') = ws \<and>
    pw_owned w' = pw_owned w \<and> pw_have_mode w' = pw_have_mode w \<and> pw_connected w' = pw_connected w"
  using assms
proof (induction answers arbitrary: n w)
  case Nil
  then have "plen - n = 0" by (simp add: unat_eq_0)
  then have "n = plen" by simp
  with Nil show ?case by (subst download_loop.simps) simp
next
  case (Cons a answers)
  obtain i b block where a: "a = (i, b, block)" by (cases a)
  have block: "block \<noteq> []" "length block + 9 < 2 ^ 32" and good: "good_answers answers"
    using Cons.prems(1) a by (auto simp: good_answers_def)
  let ?n = "n + of_nat (length block) :: u64"
  have sum: "length block + length (concat (map answer_block answers)) = unat (plen - n)"
    using Cons.prems(2) a by simp
  have u: "unat (of_nat (length block) :: u64) = length block"
    using block(2) by (simp add: unat_of_nat take_bit_eq_mod)
  have ne: "n \<noteq> plen" using sum block by auto
  have "unat (plen - ?n) = unat ((plen - n) - of_nat (length block))"
    by (simp add: algebra_simps)
  also have "\<dots> = unat (plen - n) - length block"
    using sum u by (subst unat_sub) (simp_all add: word_le_nat_alt)
  finally have left: "length (concat (map answer_block answers)) = unat (plen - ?n)"
    using sum by linarith
  obtain as1 where d1: "delivers (incoming (pw_socket w)) (piece_answer i b block) as1"
    and d2: "delivers as1 (concat (map answer_bytes answers)) rest"
    using Cons.prems(5) a by (auto simp: delivers_append)
  let ?w = "progress idx ?n plen (ostream_write block (w\<lparr>pw_socket :=
       (after_write (block_request idx plen n) (pw_socket w))\<lparr>incoming := as1\<rparr>\<rparr>))"
  from Cons.prems(4) obtain ws1 where ws1: "accepts [17] (writes (pw_socket w)) ws1"
    "accepts (replicate (length answers) 17) ws1 ws"
    using accepts_Cons [of 17 "replicate (length answers) 17"] by auto
  have "request_block idx plen n w = (Inr ?n, ?w)"
    by (rule request_block_answer [OF Cons.prems(3) ws1(1) d1 block(2)])
  then have loop: "download_loop idx plen n w = download_loop idx plen ?n ?w"
    using ne by (subst download_loop.simps) simp
  note sent = after_write_accepted [of "block_request idx plen n" "pw_socket w" ws1]
  have "is_open (pw_socket ?w)" "accepts (replicate (length answers) 17) (writes (pw_socket ?w)) ws"
    "delivers (incoming (pw_socket ?w)) (concat (map answer_bytes answers)) rest"
    using Cons.prems(3) sent(1) ws1 d2 by simp_all
  from Cons.IH [OF good left this] show ?case
    unfolding loop using a sent(2) ws1(1) by auto
qed

section \<open>What a download leaves alone\<close>

text \<open>
  No method that talks to the peer changes what the thread functions own: the flag of a
  complete transfer, the thread, the stored exception, or the configuration.
\<close>

definition framed :: "piece_worker \<Rightarrow> piece_worker \<Rightarrow> bool" where
  "framed w w' \<longleftrightarrow> pw_complete w' = pw_complete w \<and> pw_thread w' = pw_thread w \<and>
     pw_exception w' = pw_exception w \<and> pw_meta w' = pw_meta w \<and> pw_peer w' = pw_peer w \<and>
     pw_owned w' = pw_owned w"

definition keeps :: "'a act \<Rightarrow> bool" where
  "keeps m \<longleftrightarrow> (\<forall>w. framed w (snd (m w)))"

lemma framed_refl [simp]: "framed w w"
  by (simp add: framed_def)

lemma framed_trans: "framed u v \<Longrightarrow> framed v w \<Longrightarrow> framed u w"
  by (simp add: framed_def)

lemma keeps_bind: "keeps m \<Longrightarrow> (\<And>x. keeps (f x)) \<Longrightarrow> keeps (act_bind m f)"
  unfolding keeps_def act_bind_def
  by (auto split: prod.splits sum.splits) (metis framed_trans snd_conv)+

lemma keeps_simple [simp]:
  "keeps (act_return x)" "keeps (act_throw e)" "keeps (act_lift r)"
  by (simp_all add: keeps_def act_defs)

lemma keeps_update: "(\<And>w. framed w (g w)) \<Longrightarrow> keeps (act_update g)"
  by (simp add: keeps_def act_defs)

lemma keeps_query: "keeps (\<lambda>w. (f w, w))"
  by (simp add: keeps_def)

lemma keeps_if [simp]: "(c \<Longrightarrow> keeps f) \<Longrightarrow> (\<not> c \<Longrightarrow> keeps g) \<Longrightarrow> keeps (if c then f else g)"
  by simp

lemma keeps_net: "keeps (net_read n)" "keeps (net_exchange request n)"
  by (auto simp: keeps_def net_read_def net_exchange_def framed_def split: prod.splits)

lemma keeps_received: "keeps (received r)"
  by (auto simp: received_def split: sum.splits)

lemma keeps_parsed: "keeps (parsed r)"
  by (auto simp: parsed_def split: sum.splits)

lemma keeps_io: "keeps (read_or_throw n)" "keeps (exchange_or_throw request n)"
  unfolding read_or_throw_def exchange_or_throw_def by (intro keeps_bind keeps_net keeps_received)+

lemmas keeps_intros =
  keeps_bind keeps_simple keeps_if keeps_net keeps_received keeps_parsed keeps_io

lemma keeps_read_have: "keeps (read_have response)"
  unfolding read_have_def by (intro keeps_intros keeps_update) (simp add: framed_def)

lemma keeps_do_handshake: "keeps do_handshake"
proof -
  have "keeps (act_bind (act_lift (metainfo_hash m)) (\<lambda>hash.
         act_bind (act_lift (pack_handshake (peer_handshake hash PEER_ID))) (\<lambda>handshake_msg.
         act_bind (exchange_or_throw handshake_msg (length handshake_msg)) (\<lambda>answer_bytes.
         act_bind (act_lift (unpack_handshake (span_of answer_bytes))) (\<lambda>answer.
         if hs_info_hash answer \<noteq> hash then act_throw (Runtime_error ''Invalid info hash'')
         else act_return ())))))" for m
    by (intro keeps_intros)
  then show ?thesis by (simp add: keeps_def do_handshake_def)
qed

lemma keeps_connect: "keeps connect_to_peer"
proof -
  have "keeps socket_connect"
    by (auto simp: keeps_def socket_connect_def framed_def split: option.split)
  then show ?thesis
    unfolding connect_to_peer_def do_bitfield_or_unchoke_def do_interested_def
    by (intro keeps_intros keeps_update keeps_do_handshake keeps_read_have) (simp_all add: framed_def)
qed

lemma keeps_wait_have: "keeps wait_have"
  unfolding wait_have_def
  by (intro keeps_bind keeps_net) (auto split: sum.split intro!: keeps_intros keeps_read_have)

lemma keeps_request_block: "keeps (request_block idx plen n)"
  unfolding request_block_def Let_def
  by (intro keeps_intros keeps_update) (simp_all add: framed_def ostream_write_def progress_def)

lemma framed_download_loop: "framed w (snd (download_loop idx plen n w))"
proof (induction idx plen n w rule: download_loop.induct)
  case (1 idx plen n w)
  obtain r w1 where step: "request_block idx plen n w = (r, w1)" by fastforce
  then have "framed w w1" using keeps_request_block [of idx plen n] by (metis keeps_def snd_conv)
  then show ?case
    using 1 step framed_trans by (subst download_loop.simps) (auto split: sum.splits)
qed

lemma keeps_choose_piece: "keeps (choose_piece idx)"
proof -
  have "keeps (act_bind wait_have (\<lambda>ok w. if \<not> ok then (Inr None, w)
      else (Inr (pw_have_piece_idx w), w\<lparr>pw_have_piece_idx := None\<rparr>)))"
    by (intro keeps_bind keeps_wait_have) (simp add: keeps_def framed_def)
  then show ?thesis
    by (auto simp: keeps_def choose_piece_def framed_def split: option.split)
qed

lemma keeps_download_piece_body: "keeps (download_piece_body idx)"
proof -
  have "keeps connect_if_needed"
    using keeps_connect by (auto simp: keeps_def connect_if_needed_def)
  moreover have "keeps (download_loop idx plen n)" for plen n
    by (simp add: keeps_def framed_download_loop)
  ultimately show ?thesis
    unfolding download_piece_body_def
    by (intro keeps_intros keeps_update keeps_query) (simp_all add: framed_def progress_def)
qed

lemma framed_do_download_piece: "framed w (snd (do_download_piece idx w))"
proof -
  have "keeps (act_bind (choose_piece idx)
      (\<lambda>choice. case choice of None \<Rightarrow> act_return () | Some i \<Rightarrow> download_piece_body i))"
    by (intro keeps_bind keeps_choose_piece)
      (auto split: option.split intro: keeps_simple keeps_download_piece_body)
  then have "framed (w\<lparr>pw_buffer := []\<rparr>) (snd (do_download_piece idx w))"
    by (simp add: keeps_def do_download_piece_def)
  moreover have "framed w (w\<lparr>pw_buffer := []\<rparr>)" by (simp add: framed_def)
  ultimately show ?thesis by (rule framed_trans [rotated])
qed

section \<open>Waiting for the thread\<close>

text \<open>
  \<open>wait_piece_transfer\<close> says true exactly when the thread function returned, and when it says
  false the exception is there to be raised.
\<close>

lemma wait_piece_transfer_job:
  assumes "pw_thread w = Some (Job_download i)" "\<not> pw_complete w"
  shows "wait_piece_transfer w =
    (case do_download_piece i (w\<lparr>pw_thread := None\<rparr>) of
       (Inr _, w') \<Rightarrow> (Inr True, w'\<lparr>pw_complete := True\<rparr>)
     | (Inl e, w') \<Rightarrow> if is_std_exception e then (Inr False, w'\<lparr>pw_exception := Some e\<rparr>) else (Inl e, w'))"
proof -
  obtain r w' where d: "do_download_piece i (w\<lparr>pw_thread := None\<rparr>) = (r, w')" by fastforce
  have "\<not> pw_complete w'"
    using framed_do_download_piece [of "w\<lparr>pw_thread := None\<rparr>" i] assms(2) d by (simp add: framed_def)
  then show ?thesis
    using assms d
    by (auto simp: wait_piece_transfer_def join_thread_def run_job_def act_defs Let_def
        split: sum.splits unit.splits)
qed

lemma started_async:
  "download_piece_async i w = (Inr (), w') \<Longrightarrow>
     pw_thread w' = Some (Job_download i) \<and> \<not> pw_complete w' \<and> started w'"
  by (auto simp: download_piece_async_def started_def split: if_splits)

end
