(* ===== verification/Streambuf.thy ===== *)
theory Streambuf
  imports Prelude
begin

text \<open>
  \<open>src/src/lib/asio-1.28.0/include/asio/basic_streambuf.hpp\<close>: the stream buffer in which a worker
  keeps the bytes of a piece. The pointers of \<open>std::streambuf\<close> are offsets in the vector: what
  lies between \<open>gptr\<close> and \<open>pptr\<close> is the contents, what lies between \<open>pptr\<close> and \<open>epptr\<close> is room
  for more. \<open>sputc\<close> and \<open>sputn\<close> are what an \<open>std::ostream\<close> calls, as the standard says: a character is
  stored when there is room, and given to \<open>overflow\<close> when there is none.

  The pointers are moved by an \<open>int\<close>, to which a \<open>size_t\<close> is cast: moving one outside the vector is
  undefined behaviour, the failure \<open>Pointer_outside\<close>.
\<close>

datatype stream_failure =
    Length_error
  | Pointer_outside

record streambuf =
  sb_max_size :: nat
  sb_buffer :: bytes
  sb_gptr :: nat
  sb_egptr :: nat
  sb_pptr :: nat
  sb_epptr :: nat

definition buffer_delta :: nat where
  "buffer_delta = 128"

definition new_streambuf :: "nat \<Rightarrow> streambuf" where
  "new_streambuf maximum_size =
     (let pend = min maximum_size buffer_delta in
      \<lparr>sb_max_size = maximum_size, sb_buffer = replicate (max pend 1) 0,
       sb_gptr = 0, sb_egptr = 0, sb_pptr = 0, sb_epptr = pend\<rparr>)"

definition sb_size :: "streambuf \<Rightarrow> nat" where
  "sb_size s = sb_pptr s - sb_gptr s"

definition sb_data :: "streambuf \<Rightarrow> bytes" where
  "sb_data s = take (sb_pptr s - sb_gptr s) (drop (sb_gptr s) (sb_buffer s))"

section \<open>Making room\<close>

definition memmove :: "nat \<Rightarrow> nat \<Rightarrow> bytes \<Rightarrow> bytes" where
  "memmove from n buffer = take n (drop from buffer) @ drop n buffer"

definition reserve :: "nat \<Rightarrow> streambuf \<Rightarrow> (stream_failure + unit) \<times> streambuf" where
  "reserve n s =
     (let gnext = sb_gptr s; pnext = sb_pptr s; pend = sb_epptr s in
      if n \<le> pend - pnext then (Inr (), s)
      else
        (let (pnext, buffer) =
               (if gnext > 0 then (pnext - gnext, memmove gnext (pnext - gnext) (sb_buffer s))
                else (pnext, sb_buffer s));
             positions = (\<lambda>buffer pend.
               s\<lparr>sb_buffer := buffer, sb_gptr := 0, sb_egptr := pnext, sb_pptr := pnext, sb_epptr := pend\<rparr>)
         in if n > pend - pnext
            then (if n \<le> sb_max_size s \<and> pnext \<le> sb_max_size s - n
                  then (Inr (), positions (resize0 (max (pnext + n) 1) buffer) (pnext + n))
                  else (Inl Length_error, s\<lparr>sb_buffer := buffer\<rparr>))
            else (Inr (), positions buffer pend)))"

definition prepare :: "nat \<Rightarrow> streambuf \<Rightarrow> (stream_failure + unit) \<times> streambuf" where
  "prepare n s = reserve n s"

section \<open>Moving the pointers\<close>

definition gbump :: "nat \<Rightarrow> streambuf \<Rightarrow> (stream_failure + unit) \<times> streambuf" where
  "gbump n s =
     (let g = int (sb_gptr s) + sint (of_nat n :: 32 word) in
      if 0 \<le> g \<and> g \<le> int (length (sb_buffer s)) then (Inr (), s\<lparr>sb_gptr := nat g\<rparr>)
      else (Inl Pointer_outside, s))"

definition pbump :: "nat \<Rightarrow> streambuf \<Rightarrow> (stream_failure + unit) \<times> streambuf" where
  "pbump n s =
     (let p = int (sb_pptr s) + sint (of_nat n :: 32 word) in
      if 0 \<le> p \<and> p \<le> int (length (sb_buffer s)) then (Inr (), s\<lparr>sb_pptr := nat p\<rparr>)
      else (Inl Pointer_outside, s))"

definition commit :: "nat \<Rightarrow> streambuf \<Rightarrow> (stream_failure + unit) \<times> streambuf" where
  "commit n s =
     (let n = min n (sb_epptr s - sb_pptr s) in
      case pbump n s of
        (Inl e, s) \<Rightarrow> (Inl e, s)
      | (Inr _, s) \<Rightarrow> (Inr (), s\<lparr>sb_egptr := sb_pptr s\<rparr>))"

definition consume :: "nat \<Rightarrow> streambuf \<Rightarrow> (stream_failure + unit) \<times> streambuf" where
  "consume n s =
     (let s = (if sb_egptr s < sb_pptr s then s\<lparr>sb_egptr := sb_pptr s\<rparr> else s);
          n = (if sb_gptr s + n > sb_pptr s then sb_pptr s - sb_gptr s else n)
      in gbump n s)"

section \<open>The stream interface\<close>

definition underflow :: "streambuf \<Rightarrow> u8 option \<times> streambuf" where
  "underflow s =
     (if sb_gptr s < sb_pptr s
      then (Some (sb_buffer s ! sb_gptr s), s\<lparr>sb_egptr := sb_pptr s\<rparr>)
      else (None, s))"

definition overflow :: "u8 option \<Rightarrow> streambuf \<Rightarrow> (stream_failure + unit) \<times> streambuf" where
  "overflow c s =
     (case c of
        None \<Rightarrow> (Inr (), s)
      | Some b \<Rightarrow>
          (let room =
                 (if sb_pptr s = sb_epptr s
                  then (let buffer_size = sb_pptr s - sb_gptr s in
                        if buffer_size < sb_max_size s \<and> sb_max_size s - buffer_size < buffer_delta
                        then reserve (sb_max_size s - buffer_size) s
                        else reserve buffer_delta s)
                  else (Inr (), s))
           in case room of
                (Inl e, s) \<Rightarrow> (Inl e, s)
              | (Inr _, s) \<Rightarrow> pbump 1 (s\<lparr>sb_buffer := (sb_buffer s)[sb_pptr s := b]\<rparr>)))"

definition sputc :: "u8 \<Rightarrow> streambuf \<Rightarrow> (stream_failure + unit) \<times> streambuf" where
  "sputc b s =
     (if sb_pptr s < sb_epptr s
      then (Inr (), s\<lparr>sb_buffer := (sb_buffer s)[sb_pptr s := b], sb_pptr := sb_pptr s + 1\<rparr>)
      else overflow (Some b) s)"

fun sputn :: "bytes \<Rightarrow> streambuf \<Rightarrow> (stream_failure + unit) \<times> streambuf" where
  "sputn [] s = (Inr (), s)"
| "sputn (b # bs) s = (case sputc b s of (Inl e, s) \<Rightarrow> (Inl e, s) | (Inr _, s) \<Rightarrow> sputn bs s)"

section \<open>The invariant\<close>

definition sb_ok :: "streambuf \<Rightarrow> bool" where
  "sb_ok s \<longleftrightarrow> sb_gptr s \<le> sb_egptr s \<and> sb_egptr s \<le> sb_pptr s \<and> sb_pptr s \<le> sb_epptr s \<and>
     length (sb_buffer s) = max (sb_epptr s) 1 \<and> sb_epptr s \<le> sb_max_size s"

lemma new_streambuf_ok: "sb_ok (new_streambuf m)" "sb_data (new_streambuf m) = []"
  "sb_max_size (new_streambuf m) = m"
  by (simp_all add: sb_ok_def sb_data_def new_streambuf_def Let_def)

lemma length_sb_data: "sb_ok s \<Longrightarrow> length (sb_data s) = sb_size s"
  by (auto simp: sb_ok_def sb_data_def sb_size_def)

lemma length_memmove: "from + n \<le> length buffer \<Longrightarrow> length (memmove from n buffer) = length buffer"
  by (simp add: memmove_def)

lemma take_memmove: "from + n \<le> length buffer \<Longrightarrow> take n (memmove from n buffer) = take n (drop from buffer)"
  by (simp add: memmove_def)

lemma take_resize0: "n \<le> m \<Longrightarrow> n \<le> length bs \<Longrightarrow> take n (resize0 m bs) = take n bs"
  by (simp add: resize0_def)

text \<open>Room is made exactly when the maximum size leaves it, and the contents stay.\<close>

lemma reserve_enough:
  assumes "sb_ok s" "sb_size s + n \<le> sb_max_size s"
  obtains s' where "reserve n s = (Inr (), s')" "sb_ok s'" "sb_data s' = sb_data s"
    "sb_max_size s' = sb_max_size s" "n \<le> sb_epptr s' - sb_pptr s'" "sb_size s' = sb_size s"
proof -
  define p where "p = sb_pptr s - sb_gptr s"
  obtain buf where pair: "(if sb_gptr s > 0
        then (sb_pptr s - sb_gptr s, memmove (sb_gptr s) (sb_pptr s - sb_gptr s) (sb_buffer s))
        else (sb_pptr s, sb_buffer s)) = (p, buf)"
    and buf: "length buf = length (sb_buffer s)" "take p buf = sb_data s"
    using assms(1) by (cases "sb_gptr s > 0")
      (auto simp: p_def sb_ok_def sb_data_def length_memmove take_memmove)
  have p: "p \<le> sb_pptr s" "sb_pptr s \<le> sb_epptr s" "length buf = max (sb_epptr s) 1" "sb_size s = p"
    "p + n \<le> sb_max_size s" "sb_epptr s \<le> sb_max_size s"
    using assms buf(1) by (auto simp: sb_ok_def sb_size_def p_def)
  consider (room) "n \<le> sb_epptr s - sb_pptr s"
    | (shift) "\<not> n \<le> sb_epptr s - sb_pptr s" "n \<le> sb_epptr s - p"
    | (grow) "\<not> n \<le> sb_epptr s - sb_pptr s" "n > sb_epptr s - p"
    by linarith
  then show thesis
  proof cases
    case room
    then show thesis using assms(1) by (intro that [of s]) (simp_all add: reserve_def)
  next
    case shift
    have "reserve n s =
        (Inr (), s\<lparr>sb_buffer := buf, sb_gptr := 0, sb_egptr := p, sb_pptr := p, sb_epptr := sb_epptr s\<rparr>)"
      using shift unfolding reserve_def Let_def pair by simp
    then show thesis
      by (rule that) (use buf p shift in \<open>auto simp: sb_ok_def sb_data_def sb_size_def\<close>)
  next
    case grow
    have "reserve n s = (Inr (), s\<lparr>sb_buffer := resize0 (max (p + n) 1) buf, sb_gptr := 0,
        sb_egptr := p, sb_pptr := p, sb_epptr := p + n\<rparr>)"
      using grow p(5) unfolding reserve_def Let_def pair by simp
    then show thesis
      by (rule that) (use buf p grow in \<open>auto simp: sb_ok_def sb_data_def sb_size_def take_resize0\<close>)
  qed
qed

lemma reserve_too_long:
  assumes "sb_ok s" "sb_max_size s < sb_size s + n"
  shows "fst (reserve n s) = Inl Length_error"
  using assms by (auto simp: reserve_def sb_ok_def sb_size_def Let_def)

section \<open>Appending\<close>

lemma sb_store:
  fixes s :: streambuf and b :: u8
  assumes "sb_ok s" "sb_pptr s < sb_epptr s"
  defines "s' \<equiv> s\<lparr>sb_buffer := (sb_buffer s)[sb_pptr s := b], sb_pptr := sb_pptr s + 1\<rparr>"
  shows "sb_ok s'" "sb_data s' = sb_data s @ [b]" "sb_max_size s' = sb_max_size s"
proof -
  have p: "sb_pptr s < length (sb_buffer s)" "sb_gptr s \<le> sb_pptr s"
    using assms(1,2) by (auto simp: sb_ok_def)
  then have "take (Suc (sb_pptr s) - sb_gptr s) (drop (sb_gptr s) ((sb_buffer s)[sb_pptr s := b])) =
      take (sb_pptr s - sb_gptr s) (drop (sb_gptr s) (sb_buffer s)) @ [b]"
    by (simp add: Suc_diff_le drop_update_swap take_Suc_conv_app_nth)
  then show "sb_data s' = sb_data s @ [b]" by (simp add: s'_def sb_data_def)
qed (use assms in \<open>auto simp: sb_ok_def s'_def\<close>)

lemma pbump_1: "sb_pptr s < length (sb_buffer s) \<Longrightarrow> pbump 1 s = (Inr (), s\<lparr>sb_pptr := sb_pptr s + 1\<rparr>)"
  by (simp add: pbump_def)

lemma sputc_room:
  assumes "sb_ok s" "sb_size s < sb_max_size s"
  obtains s' where "sputc b s = (Inr (), s')" "sb_ok s'" "sb_data s' = sb_data s @ [b]"
    "sb_max_size s' = sb_max_size s"
proof (cases "sb_pptr s < sb_epptr s")
  case True
  with that [OF _ sb_store [OF assms(1) True]] show thesis by (simp add: sputc_def)
next
  case False
  then have full: "sb_pptr s = sb_epptr s" using assms(1) by (auto simp: sb_ok_def)
  define n where "n = (if sb_size s < sb_max_size s \<and> sb_max_size s - sb_size s < buffer_delta
    then sb_max_size s - sb_size s else buffer_delta)"
  have n: "0 < n" "sb_size s + n \<le> sb_max_size s"
    using assms(2) by (auto simp: n_def buffer_delta_def)
  obtain s1 where r: "reserve n s = (Inr (), s1)" and s1: "sb_ok s1" "sb_data s1 = sb_data s"
    "sb_max_size s1 = sb_max_size s" "n \<le> sb_epptr s1 - sb_pptr s1"
    using reserve_enough [OF assms(1) n(2)] by metis
  have room: "sb_pptr s1 < sb_epptr s1" using s1(4) n(1) by linarith
  then have len: "sb_pptr s1 < length (sb_buffer s1)" using s1(1) by (auto simp: sb_ok_def)
  have "sputc b s = pbump 1 (s1\<lparr>sb_buffer := (sb_buffer s1)[sb_pptr s1 := b]\<rparr>)"
    using False full r by (auto simp: sputc_def overflow_def Let_def n_def sb_size_def)
  also have "\<dots> = (Inr (), s1\<lparr>sb_buffer := (sb_buffer s1)[sb_pptr s1 := b], sb_pptr := sb_pptr s1 + 1\<rparr>)"
    using pbump_1 [of "s1\<lparr>sb_buffer := (sb_buffer s1)[sb_pptr s1 := b]\<rparr>"] len by simp
  finally show thesis
    by (rule that) (use sb_store [OF s1(1) room, of b] s1(2,3) in simp_all)
qed

lemma sputn_room:
  assumes "sb_ok s" "length (sb_data s) + length bs \<le> sb_max_size s"
  shows "\<exists>s'. sputn bs s = (Inr (), s') \<and> sb_ok s' \<and> sb_data s' = sb_data s @ bs \<and>
    sb_max_size s' = sb_max_size s"
  using assms
proof (induction bs arbitrary: s)
  case (Cons b bs)
  have "sb_size s < sb_max_size s" using Cons.prems length_sb_data [OF Cons.prems(1)] by simp
  then obtain s1 where "sputc b s = (Inr (), s1)" "sb_ok s1" "sb_data s1 = sb_data s @ [b]"
    "sb_max_size s1 = sb_max_size s"
    by (rule sputc_room [OF Cons.prems(1)])
  with Cons.IH [of s1] Cons.prems(2) show ?case by simp
qed simp

section \<open>Consuming\<close>

lemma sint_small: "n < 2 ^ 31 \<Longrightarrow> sint (of_nat n :: 32 word) = int n"
  by (simp add: signed_of_nat signed_take_bit_int_eq_self)

lemma sint_word_of_nat_large:
  assumes "2 ^ 31 \<le> n" "n < 2 ^ 32"
  shows "sint (of_nat n :: 32 word) = int n - 2 ^ 32"
proof -
  have "(of_nat n :: 32 word) = of_int (int n - 2 ^ 32)" by simp
  then show ?thesis
    using assms by (simp only: signed_of_int) (simp add: signed_take_bit_int_eq_self)
qed

lemma consume_some:
  assumes "sb_ok s" "n \<le> sb_size s" "n < 2 ^ 31"
  shows "\<exists>s'. consume n s = (Inr (), s') \<and> sb_ok s' \<and> sb_data s' = drop n (sb_data s) \<and>
    sb_max_size s' = sb_max_size s"
proof -
  let ?s = "s\<lparr>sb_egptr := sb_pptr s, sb_gptr := sb_gptr s + n\<rparr>"
  have le: "sb_gptr s + n \<le> sb_pptr s" "sb_pptr s \<le> length (sb_buffer s)" "sb_egptr s \<le> sb_pptr s"
    using assms(1,2) by (auto simp: sb_ok_def sb_size_def)
  then have "consume n s = (Inr (), ?s)"
    using assms(3) by (cases "sb_egptr s < sb_pptr s")
      (auto simp: consume_def gbump_def sint_small nat_int_add Let_def)
  moreover have "sb_data ?s = drop n (sb_data s)"
    by (simp add: sb_data_def drop_take add.commute)
  ultimately show ?thesis using assms(1) le by (auto simp: sb_ok_def)
qed

lemma sputc_full:
  assumes "sb_ok s" "sb_size s = sb_max_size s"
  shows "fst (sputc b s) = Inl Length_error"
proof -
  have full: "sb_pptr s = sb_epptr s" using assms by (auto simp: sb_ok_def sb_size_def)
  have "fst (reserve buffer_delta s) = Inl Length_error"
    using reserve_too_long [OF assms(1)] assms(2) by (simp add: buffer_delta_def)
  then show ?thesis
    using full assms(2) by (auto simp: sputc_def overflow_def sb_size_def split: prod.splits)
qed

lemma sb_size_le: "sb_ok s \<Longrightarrow> sb_size s \<le> sb_max_size s"
  by (auto simp: sb_ok_def sb_size_def)

lemma sputn_full:
  "sb_ok s \<Longrightarrow> sb_max_size s < length (sb_data s) + length bs \<Longrightarrow> fst (sputn bs s) = Inl Length_error"
proof (induction bs arbitrary: s)
  case Nil
  then show ?case using sb_size_le [of s] length_sb_data [of s] by simp
next
  case (Cons b bs)
  show ?case
  proof (cases "sb_size s = sb_max_size s")
    case True
    with sputc_full [OF Cons.prems(1), of b] show ?thesis by (cases "sputc b s") simp
  next
    case False
    then have "sb_size s < sb_max_size s" using sb_size_le [OF Cons.prems(1)] by simp
    then obtain s1 where "sputc b s = (Inr (), s1)" "sb_ok s1" "sb_data s1 = sb_data s @ [b]"
      "sb_max_size s1 = sb_max_size s"
      by (rule sputc_room [OF Cons.prems(1)])
    with Cons.IH [of s1] Cons.prems(2) show ?thesis by simp
  qed
qed

text \<open>Clearing, as \<open>PieceWorker::_download_piece\<close> does it (\<open>src/src/client/piece.cpp\<close>).\<close>

definition clear_streambuf :: "streambuf \<Rightarrow> (stream_failure + unit) \<times> streambuf" where
  "clear_streambuf s = consume (sb_size s) s"

lemma clear_small:
  assumes "sb_ok s" "length (sb_data s) < 2 ^ 31"
  shows "\<exists>s'. clear_streambuf s = (Inr (), s') \<and> sb_ok s' \<and> sb_data s' = [] \<and> sb_max_size s' = sb_max_size s"
  using consume_some [OF assms(1) le_refl] assms length_sb_data [OF assms(1)]
  by (simp add: clear_streambuf_def)

text \<open>Beyond the range of an \<open>int\<close> the contents are not cleared.\<close>

lemma clear_large:
  assumes "sb_ok s"
  shows "2 ^ 31 \<le> sb_size s \<Longrightarrow> sb_pptr s < 2 ^ 32 \<Longrightarrow> fst (clear_streambuf s) = Inl Pointer_outside"
    and "sb_size s = 2 ^ 32 \<Longrightarrow> clear_streambuf s = (Inr (), s\<lparr>sb_egptr := sb_pptr s\<rparr>)"
proof -
  have p: "sb_gptr s \<le> sb_egptr s" "sb_egptr s \<le> sb_pptr s" "sb_pptr s \<le> length (sb_buffer s)"
    using assms by (auto simp: sb_ok_def)
  have sel: "clear_streambuf s = gbump (sb_size s) (s\<lparr>sb_egptr := sb_pptr s\<rparr>)"
    using p by (cases s) (auto simp: clear_streambuf_def consume_def sb_size_def Let_def)
  {
    assume large: "2 ^ 31 \<le> sb_size s" "sb_pptr s < 2 ^ 32"
    have size: "sb_size s < 2 ^ 32" using large p by (simp add: sb_size_def)
    have "sint (of_nat (sb_size s) :: 32 word) = int (sb_size s) - 2 ^ 32"
      using large(1) size by (simp add: sint_word_of_nat_large)
    moreover have "int (sb_gptr s) + int (sb_size s) = int (sb_pptr s)" using p by (simp add: sb_size_def)
    ultimately show "fst (clear_streambuf s) = Inl Pointer_outside"
      using large(2) by (simp add: sel gbump_def)
  next
    assume exact: "sb_size s = 2 ^ 32"
    have "sint (of_nat (sb_size s) :: 32 word) = 0"
      unfolding exact by simp
    then show "clear_streambuf s = (Inr (), s\<lparr>sb_egptr := sb_pptr s\<rparr>)"
      using p by (simp add: sel gbump_def)
  }
qed

section \<open>The interface of a byte buffer\<close>

text \<open>
  What a worker relies on: a piece that is written block by block into a buffer that was cleared
  is the contents of the buffer afterwards, as long as it is not longer than the buffer can hold.
\<close>

fun put_all :: "('x \<Rightarrow> 'b \<Rightarrow> ('e + unit) \<times> 'b) \<Rightarrow> 'x list \<Rightarrow> 'b \<Rightarrow> ('e + unit) \<times> 'b" where
  "put_all put [] b = (Inr (), b)"
| "put_all put (x # xs) b = (case put x b of (Inl e, b) \<Rightarrow> (Inl e, b) | (Inr _, b) \<Rightarrow> put_all put xs b)"

definition refill :: "('x \<Rightarrow> 'b \<Rightarrow> ('e + unit) \<times> 'b) \<Rightarrow> ('b \<Rightarrow> ('e + unit) \<times> 'b) \<Rightarrow> 'x list \<Rightarrow> 'b \<Rightarrow>
    ('e + unit) \<times> 'b" where
  "refill put clear xs b =
     (case clear b of (Inl e, b) \<Rightarrow> (Inl e, b) | (Inr _, b) \<Rightarrow> put_all put xs b)"

fun refills :: "('x \<Rightarrow> 'b \<Rightarrow> ('e + unit) \<times> 'b) \<Rightarrow> ('b \<Rightarrow> ('e + unit) \<times> 'b) \<Rightarrow> ('b \<Rightarrow> bytes) \<Rightarrow>
    'x list list \<Rightarrow> 'b \<Rightarrow> bytes list" where
  "refills put clear contents [] b = []"
| "refills put clear contents (xs # pieces) b =
     (case refill put clear xs b of
        (Inl e, b) \<Rightarrow> []
      | (Inr _, b) \<Rightarrow> contents b # refills put clear contents pieces b)"

locale byte_buffer =
  fixes put :: "bytes \<Rightarrow> 'b \<Rightarrow> ('e + unit) \<times> 'b"
    and clear :: "'b \<Rightarrow> ('e + unit) \<times> 'b"
    and contents :: "'b \<Rightarrow> bytes"
    and ok :: "'b \<Rightarrow> bool"
    and limit :: nat
  assumes put: "ok b \<Longrightarrow> length (contents b) + length bs < limit \<Longrightarrow>
      \<exists>b'. put bs b = (Inr (), b') \<and> ok b' \<and> contents b' = contents b @ bs"
    and clear: "ok b \<Longrightarrow> length (contents b) < limit \<Longrightarrow>
      \<exists>b'. clear b = (Inr (), b') \<and> ok b' \<and> contents b' = []"
begin

lemma put_all_contents:
  "ok b \<Longrightarrow> length (contents b) + length (concat xs) < limit \<Longrightarrow>
     \<exists>b'. put_all put xs b = (Inr (), b') \<and> ok b' \<and> contents b' = contents b @ concat xs"
proof (induction xs arbitrary: b)
  case (Cons x xs)
  obtain b1 where b1: "put x b = (Inr (), b1)" "ok b1" "contents b1 = contents b @ x"
    using put [OF Cons.prems(1), of x] Cons.prems(2) by auto
  with Cons.IH [of b1] Cons.prems(2) show ?case by simp
qed simp

lemma refill_contents:
  assumes "ok b" "length (contents b) < limit" "length (concat xs) < limit"
  shows "\<exists>b'. refill put clear xs b = (Inr (), b') \<and> ok b' \<and> contents b' = concat xs"
proof -
  obtain b1 where "clear b = (Inr (), b1)" "ok b1" "contents b1 = []"
    using clear [OF assms(1,2)] by blast
  with put_all_contents [of b1 xs] assms(3) show ?thesis by (simp add: refill_def)
qed

lemma refills_contents:
  "ok b \<Longrightarrow> length (contents b) < limit \<Longrightarrow> \<forall>xs \<in> set pieces. length (concat xs) < limit \<Longrightarrow>
     refills put clear contents pieces b = map concat pieces"
proof (induction pieces arbitrary: b)
  case (Cons xs pieces)
  obtain b1 where "refill put clear xs b = (Inr (), b1)" "ok b1" "contents b1 = concat xs"
    using refill_contents [OF Cons.prems(1,2), of xs] Cons.prems(3) by auto
  with Cons.IH [of b1] Cons.prems(3) show ?case by simp
qed simp

end

text \<open>The stream buffer is one below the range of an \<open>int\<close>; a list is one of any size.\<close>

definition roomy :: "streambuf \<Rightarrow> bool" where
  "roomy s \<longleftrightarrow> sb_ok s \<and> 2 ^ 31 \<le> sb_max_size s"

interpretation sbuf: byte_buffer sputn clear_streambuf sb_data roomy "2 ^ 31"
proof
  fix s :: streambuf and bs :: bytes
  assume "roomy s" "length (sb_data s) + length bs < 2 ^ 31"
  then show "\<exists>s'. sputn bs s = (Inr (), s') \<and> roomy s' \<and> sb_data s' = sb_data s @ bs"
    using sputn_room [of s bs] by (auto simp: roomy_def)
next
  fix s :: streambuf
  assume "roomy s" "length (sb_data s) < 2 ^ 31"
  then show "\<exists>s'. clear_streambuf s = (Inr (), s') \<and> roomy s' \<and> sb_data s' = []"
    using clear_small [of s] by (auto simp: roomy_def)
qed

interpretation lbuf: byte_buffer "\<lambda>bs b. (Inr (), b @ bs)" "\<lambda>b. (Inr (), [])" "\<lambda>b. b" "\<lambda>_. True" limit for limit
  by unfold_locales auto

text \<open>So the stream buffer is the list of bytes that stands for it in the model of the worker.\<close>

lemma streambuf_refines_bytes:
  assumes "roomy s" "length (sb_data s) < 2 ^ 31" "\<forall>blocks \<in> set pieces. length (concat blocks) < 2 ^ 31"
  shows "refills sputn clear_streambuf sb_data pieces s =
    refills (\<lambda>bs b. (Inr () :: unit + unit, b @ bs)) (\<lambda>b. (Inr (), [])) (\<lambda>b. b) pieces (sb_data s)"
  using sbuf.refills_contents [OF assms] lbuf.refills_contents [OF TrueI assms(2,3)] by (rule trans [OF _ sym])

text \<open>A \<open>prepare\<close> that throws has already moved the contents, and leaves the pointers where they were.\<close>

lemma failed_prepare_moves_contents:
  "sb_data (snd (consume 1 (snd (sputn [1, 2, 3, 4] (new_streambuf 4))))) = [2, 3, 4]"
  "fst (prepare 2 (snd (consume 1 (snd (sputn [1, 2, 3, 4] (new_streambuf 4)))))) = Inl Length_error"
  "sb_data (snd (prepare 2 (snd (consume 1 (snd (sputn [1, 2, 3, 4] (new_streambuf 4))))))) = [3, 4, 4]"
  by code_simp+

section \<open>Properties\<close>

text \<open>C31: pieces that are written block by block into the stream buffer of a worker, which is cleared
  before each, are each the contents of the buffer afterwards, through every growth and shift
  of the buffer, as long as each is shorter than two gigabytes.\<close>

theorem streambuf_holds_pieces:
  assumes "2 ^ 31 \<le> maximum_size" "\<forall>blocks \<in> set pieces. length (concat blocks) < 2 ^ 31"
  shows "refills sputn clear_streambuf sb_data pieces (new_streambuf maximum_size) = map concat pieces"
  using assms by (intro sbuf.refills_contents) (simp_all add: roomy_def new_streambuf_ok)

theorem streambuf_holds_pieces_witness:
  "refills sputn clear_streambuf sb_data [[[1, 2], replicate 200 3], [[4]]] (new_streambuf (2 ^ 64 - 1)) =
     [[1, 2] @ replicate 200 3, [4]]"
  using streambuf_holds_pieces [of "2 ^ 64 - 1" "[[[1, 2], replicate 200 3], [[4]]]"] by simp

end
