(* ===== verification/Piece_Download.thy ===== *)
theory Piece_Download
  imports Piece_Worker Streambuf
begin

text \<open>
  What \<open>_download_piece\<close> and \<open>_connect_to_peer\<close> of \<open>src/src/client/piece.cpp\<close> achieve, and where
  they stop short: a peer that follows the protocol is connected to and its piece is written
  out, however its bytes are segmented; a download that returns has written as many bytes
  as the piece was taken to have; and the cases where that count is wrong, where nothing is
  downloaded, and where the handshake reads past the answer.
\<close>

section \<open>Any peer\<close>

lemma download_loop_Inr:
  "download_loop idx plen n w = (Inr m, w') \<Longrightarrow>
     m = plen \<and> (\<exists>bs. written w' = written w @ bs \<and> n + of_nat (length bs) = plen)"
proof (induction idx plen n w rule: download_loop.induct)
  case (1 idx plen n w)
  show ?case
  proof (cases "n = plen")
    case True
    with "1.prems" show ?thesis by (subst (asm) download_loop.simps) auto
  next
    case False
    with "1.prems" obtain n1 w1 where step: "request_block idx plen n w = (Inr n1, w1)"
      and loop: "download_loop idx plen n1 w1 = (Inr m, w')"
      by (subst (asm) download_loop.simps) (auto split: prod.splits sum.splits)
    from step obtain blk where b: "n1 = n + of_nat (length blk)" "written w1 = written w @ blk"
      by (auto simp: request_block_Inr)
    from "1.IH" [OF False step [symmetric] refl loop] obtain bs where
      "m = plen" "written w' = written w1 @ bs" "n1 + of_nat (length bs) = plen" by blast
    then show ?thesis
      using b by (intro conjI exI [of _ "blk @ bs"]) (simp_all add: add.assoc)
  qed
qed

lemma download_loop_self: "download_loop idx plen plen w = (Inr plen, w)"
  by (subst download_loop.simps) simp

text \<open>The choice of the piece and the connection are skipped for a worker in normal mode.\<close>

definition normal_mode :: "piece_worker \<Rightarrow> bool" where
  "normal_mode w \<longleftrightarrow> pw_connected w \<and> \<not> pw_have_mode w \<and> pw_have_piece_idx w = None"

lemma do_download_normal:
  assumes "normal_mode w" "metainfo_pieces (pw_meta w) = Inr ps"
    and "piece_len (pw_meta w) (length ps) idx = Inr plen"
  shows "do_download_piece idx w =
    (case download_loop idx plen 0 (w\<lparr>pw_buffer := []\<rparr>) of
       (Inl e, w') \<Rightarrow> (Inl e, w')
     | (Inr n, w') \<Rightarrow>
         (Inr (), (progress idx n plen w')\<lparr>pw_last_piece_idx := idx, pw_have_piece_idx := None\<rparr>))"
proof -
  let ?w = "w\<lparr>pw_buffer := []\<rparr>"
  have c: "choose_piece idx ?w = (Inr (Some idx), ?w)"
    using assms(1) by (simp add: choose_piece_def normal_mode_def)
  have k: "connect_if_needed ?w = (Inr (), ?w)"
    using assms(1) by (simp add: connect_if_needed_def normal_mode_def)
  obtain r w' where l: "download_loop idx plen 0 ?w = (r, w')" by fastforce
  have body: "download_piece_body idx ?w =
    (case r of Inl e \<Rightarrow> (Inl e, w')
     | Inr n \<Rightarrow> (Inr (), (progress idx n plen w')\<lparr>pw_last_piece_idx := idx, pw_have_piece_idx := None\<rparr>))"
    using k l assms(2,3) download_loop_Inr [of idx plen 0 ?w _ w']
    by (cases r) (auto simp: download_piece_body_def act_defs)
  show ?thesis
    unfolding do_download_piece_def using c body l
    by (cases r) (simp_all add: act_bind_def)
qed

section \<open>What any download keeps and counts\<close>

text \<open>A field that every part of a method leaves alone is left alone by the method.\<close>

lemma act_bind_field:
  assumes "\<And>w. f (snd (m w)) = f w" "\<And>x w. f (snd (g x w)) = f w"
  shows "f (snd (act_bind m g w)) = f w"
proof -
  obtain r w1 where "m w = (r, w1)" by fastforce
  then show ?thesis using assms(1) [of w] assms(2) by (cases r) (simp_all add: act_bind_def)
qed

lemma io_have_mode:
  "pw_have_mode (snd (read_or_throw n w)) = pw_have_mode w"
  "pw_have_mode (snd (exchange_or_throw request n w)) = pw_have_mode w"
  "pw_have_mode (snd (parsed r w)) = pw_have_mode w"
proof -
  have r: "pw_have_mode (snd (received r w)) = pw_have_mode w" for r w
    by (simp add: received_def act_throw_def act_return_def split: sum.split)
  show "pw_have_mode (snd (read_or_throw n w)) = pw_have_mode w"
    unfolding read_or_throw_def
    by (rule act_bind_field) (simp_all add: net_read_def r split: prod.split)
  show "pw_have_mode (snd (exchange_or_throw request n w)) = pw_have_mode w"
    unfolding exchange_or_throw_def
    by (rule act_bind_field) (simp_all add: net_exchange_def r split: prod.split)
  show "pw_have_mode (snd (parsed r w)) = pw_have_mode w"
    by (simp add: parsed_def act_throw_def act_return_def split: sum.split)
qed

lemma request_block_mode: "pw_have_mode (snd (request_block idx plen n w)) = pw_have_mode w"
  unfolding request_block_def Let_def
  by (intro act_bind_field; (simp only: io_have_mode)?; (split if_split)?;
      (intro conjI impI act_bind_field)?; (simp only: io_have_mode)?;
      (intro act_bind_field)?; simp add: io_have_mode act_throw_def act_return_def act_update_def)

lemma download_loop_have_mode: "pw_have_mode (snd (download_loop idx plen n w)) = pw_have_mode w"
proof (induction idx plen n w rule: download_loop.induct)
  case (1 idx plen n w)
  then show ?case
    using request_block_mode [of idx plen n w]
    by (subst download_loop.simps) (auto split: prod.split sum.split)
qed

lemma download_loop_mode:
  "download_loop idx plen n w = (Inr m, w') \<Longrightarrow>
     pw_connected w' = pw_connected w \<and> pw_have_mode w' = pw_have_mode w \<and> pw_owned w' = pw_owned w"
proof (induction idx plen n w rule: download_loop.induct)
  case (1 idx plen n w)
  show ?case
  proof (cases "n = plen")
    case True
    with "1.prems" show ?thesis by (subst (asm) download_loop.simps) auto
  next
    case False
    with "1.prems" obtain n1 w1 where step: "request_block idx plen n w = (Inr n1, w1)"
      and loop: "download_loop idx plen n1 w1 = (Inr m, w')"
      by (subst (asm) download_loop.simps) (auto split: prod.splits sum.splits)
    from "1.IH" [OF False step [symmetric] refl loop] step show ?thesis
      by (auto simp: request_block_Inr)
  qed
qed

text \<open>As many bytes as the piece was computed to have.\<close>

definition sized :: "metainfo \<Rightarrow> nat \<Rightarrow> nat \<Rightarrow> bytes \<Rightarrow> bool" where
  "sized meta n i c \<longleftrightarrow> piece_len meta n i = Inr (of_nat (length c))"

lemma do_download_sized:
  assumes "normal_mode w" "pw_owned w" "metainfo_pieces (pw_meta w) = Inr ps"
    and run: "do_download_piece idx w = (Inr (), w')"
  shows "normal_mode w' \<and> pw_last_piece_idx w' = idx \<and> sized (pw_meta w) (length ps) idx (pw_buffer w')"
proof -
  obtain plen where plen: "piece_len (pw_meta w) (length ps) idx = Inr plen"
    using assms
    by (auto simp: do_download_piece_def choose_piece_def normal_mode_def download_piece_body_def
        connect_if_needed_def act_bind_Inr split: if_splits)
  from run obtain n w1 where l: "download_loop idx plen 0 (w\<lparr>pw_buffer := []\<rparr>) = (Inr n, w1)"
    and w': "w' = (progress idx n plen w1)\<lparr>pw_last_piece_idx := idx, pw_have_piece_idx := None\<rparr>"
    unfolding do_download_normal [OF assms(1,3) plen] by (auto split: prod.splits sum.splits)
  show ?thesis
    using download_loop_Inr [OF l] download_loop_mode [OF l] assms(1,2) plen w'
    by (simp add: written_def sized_def normal_mode_def)
qed

section \<open>A peer that answers\<close>

lemma do_download_answers:
  assumes normal: "normal_mode w" and pieces: "metainfo_pieces (pw_meta w) = Inr ps"
    and plen: "piece_len (pw_meta w) (length ps) idx = Inr plen"
    and good: "good_answers answers"
    and total: "length (concat (map answer_block answers)) = unat plen"
    and sock: "is_open (pw_socket w)" "accepts (replicate (length answers) 17) (writes (pw_socket w)) ws"
    and stream: "delivers (incoming (pw_socket w)) (concat (map answer_bytes answers)) rest"
    and owned: "pw_owned w"
  shows "\<exists>w'. do_download_piece idx w = (Inr (), w') \<and>
    pw_buffer w' = concat (map answer_block answers) \<and> pw_last_piece_idx w' = idx \<and>
    concat (outgoing (pw_socket w')) = concat (outgoing (pw_socket w)) @
      concat (requests idx plen 0 (map (length \<circ> answer_block) answers)) \<and>
    incoming (pw_socket w') = rest \<and> is_open (pw_socket w') \<and> writes (pw_socket w') = ws \<and>
    normal_mode w'"
proof -
  let ?w = "w\<lparr>pw_buffer := []\<rparr>"
  have sel: "pw_socket ?w = pw_socket w" "written ?w = []"
    using owned by (simp_all add: written_def)
  obtain w' where w': "download_loop idx plen 0 ?w = (Inr plen, w')"
    and "written w' = concat (map answer_block answers)"
    and out: "concat (outgoing (pw_socket w')) = concat (outgoing (pw_socket w)) @
      concat (requests idx plen 0 (map (length \<circ> answer_block) answers))"
    and inc: "incoming (pw_socket w') = rest" "is_open (pw_socket w')" "writes (pw_socket w') = ws"
    and fr: "pw_owned w' = pw_owned w" "pw_have_mode w' = pw_have_mode w" "pw_connected w' = pw_connected w"
    using download_loop_answers [of answers plen 0 ?w ws rest idx] assms sel by auto
  then have "pw_buffer w' = concat (map answer_block answers)"
    using owned by (simp add: written_def)
  with do_download_normal [OF normal pieces plen] w' out inc fr normal show ?thesis
    by (simp add: normal_mode_def)
qed

text \<open>
  The worker's buffer in the model is the list of bytes it holds. The stream buffer of the code, put
  through the clearing and the writes of such a download, holds the same bytes, as long as no
  piece reaches two gigabytes.
\<close>

lemma piece_in_streambuf:
  assumes "do_download_piece idx w = (Inr (), w')" "pw_buffer w' = concat (map answer_block answers)"
    and "roomy s" "length (sb_data s) < 2 ^ 31" "length (pw_buffer w') < 2 ^ 31"
  shows "\<exists>s'. refill sputn clear_streambuf (map answer_block answers) s = (Inr (), s') \<and> roomy s' \<and>
    sb_data s' = pw_buffer w'"
  using sbuf.refill_contents [OF assms(3,4), of "map answer_block answers"] assms(2,5) by simp

section \<open>The length of the last piece\<close>

text \<open>
  When the length of the file is a multiple of the length of a piece, the remainder is zero,
  and a worker asked for the last piece returns at once with nothing.
\<close>

lemma last_piece_len_zero:
  assumes "0 < mi_piece_length m" "mi_piece_length m dvd mi_length m"
  shows "last_piece_len m = Inr 0"
  using assms by (auto simp: last_piece_len_def smod_int_alt_def)

lemma do_download_last_empty:
  assumes "normal_mode w" "metainfo_pieces (pw_meta w) = Inr ps" "ps \<noteq> []"
    and "0 < mi_piece_length (pw_meta w)" "mi_piece_length (pw_meta w) dvd mi_length (pw_meta w)"
  shows "\<exists>w'. do_download_piece (length ps - 1) w = (Inr (), w') \<and> pw_buffer w' = [] \<and>
    pw_socket w' = pw_socket w \<and> pw_last_piece_idx w' = length ps - 1"
proof -
  have "(of_nat (length ps - 1) :: u64) = of_nat (length ps) - 1"
    using assms(3) by (simp add: of_nat_diff Suc_le_eq)
  then have "piece_len (pw_meta w) (length ps) (length ps - 1) = Inr 0"
    using last_piece_len_zero [OF assms(4,5)] by (simp add: piece_len_def)
  from do_download_normal [OF assms(1,2) this] show ?thesis
    by (simp add: download_loop_self)
qed

section \<open>Have mode\<close>

text \<open>
  A worker in have mode that meets no have message before the timer expires returns without
  a piece; the thread function then reports a complete transfer, of the piece it had before.
\<close>

lemma do_download_have_timeout:
  assumes "pw_have_mode w" "pw_have_piece_idx w = None" "is_open (pw_socket w)"
    and "incoming (pw_socket w) = Deadline # as \<or> incoming (pw_socket w) = [] \<and> as = []"
  shows "do_download_piece idx w =
    (Inr (), w\<lparr>pw_buffer := [], pw_socket := (pw_socket w)\<lparr>incoming := as\<rparr>\<rparr>)"
proof -
  have "do_read 5 (pw_socket w) = (Inl Operation_aborted, (pw_socket w)\<lparr>incoming := as\<rparr>)"
    using assms(3,4) by (auto simp: do_read_receive)
  then show ?thesis
    using assms(1,2)
    by (simp add: do_download_piece_def choose_piece_def wait_have_def net_read_def
        MSG_HEADER_SIZE_def act_defs)
qed

section \<open>Connecting\<close>

lemma length_pack_peer_handshake:
  assumes "length h = 20"
  shows "\<exists>msg. pack_handshake (peer_handshake (hex_of_bytes h) PEER_ID) = Inr msg \<and> length msg = 68"
  using assms by (simp add: pack_handshake_hex PEER_ID_def)

text \<open>
  The handshake with any answer of 68 bytes. The first byte says how long the protocol name
  is taken to be; above 19 the info hash and the peer id are looked for past the answer.
\<close>

lemma do_handshake_answer:
  assumes hash: "metainfo_hash (pw_meta w) = Inr (hex_of_bytes h)" "length h = 20"
    and sock: "is_open (pw_socket w)" "accepts [68] (writes (pw_socket w)) ws"
    and stream: "delivers (incoming (pw_socket w)) answer rest" "length answer = 68"
  shows "\<exists>request. pack_handshake (peer_handshake (hex_of_bytes h) PEER_ID) = Inr request \<and>
    do_handshake w =
      ((if 19 < unat (answer ! 0) then Inl (Undefined Read_past_end)
        else if take 20 (drop (unat (answer ! 0) + 9) answer) = h then Inr ()
        else Inl (Runtime_error ''Invalid info hash'')),
       w\<lparr>pw_socket := (after_write request (pw_socket w))\<lparr>incoming := rest\<rparr>\<rparr>)"
proof -
  obtain request where req: "pack_handshake (peer_handshake (hex_of_bytes h) PEER_ID) = Inr request"
    "length request = 68"
    using length_pack_peer_handshake [OF hash(2)] by blast
  let ?w = "w\<lparr>pw_socket := (after_write request (pw_socket w))\<lparr>incoming := rest\<rparr>\<rparr>"
  have "do_transfer request 68 (pw_socket w) = (Inr answer, pw_socket ?w)"
    using do_transfer_delivers [OF sock(1) _ stream(1), of request ws] sock(2) stream(2) req(2) by simp
  then have ex: "exchange_or_throw request 68 w = (Inr answer, ?w)"
    by (simp add: exchange_or_throw_Inr)
  have un: "unpack_handshake (span_of answer) =
      (if 19 < unat (answer ! 0) then Inl (Undefined Read_past_end)
       else Inr (peer_handshake (hex_of_bytes (take 20 (drop (unat (answer ! 0) + 9) answer)))
                                (hex_of_bytes (take 20 (drop (unat (answer ! 0) + 29) answer)))))"
    unfolding unpack_handshake_of using stream(2) by (simp add: Let_def)
  show ?thesis
    using req hash sock ex un
    by (auto simp: do_handshake_def act_defs peer_handshake_def hex_of_bytes_inject)
qed

text \<open>A whole session set up by a peer that follows the protocol.\<close>

definition peer_hello :: "bytes \<Rightarrow> bytes \<Rightarrow> bytes" where
  "peer_hello h peer_id =
     19 # bytes_of_string ''BitTorrent protocol'' @ replicate 8 0 @ h @ peer_id"

lemma peer_hello_bytes:
  assumes "length h = 20" "length peer_id = 20"
  shows "length (peer_hello h peer_id) = 68" "peer_hello h peer_id ! 0 = 19"
    "take 20 (drop 28 (peer_hello h peer_id)) = h"
  using assms by (simp_all add: peer_hello_def)

definition bitfield_message :: "bytes \<Rightarrow> bytes" where
  "bitfield_message field = pack_msg_header Bitfield (length field + 1) @ field"

lemma do_bitfield_delivered:
  assumes "is_open (pw_socket w)" "delivers (incoming (pw_socket w)) (bitfield_message field) rest"
    and "length field + 1 < 2 ^ 32"
  shows "do_bitfield_or_unchoke w = (Inr (), w\<lparr>pw_socket := (pw_socket w)\<lparr>incoming := rest\<rparr>\<rparr>)"
proof -
  let ?hdr = "pack_msg_header Bitfield (length field + 1)"
  obtain as1 where d1: "delivers (incoming (pw_socket w)) ?hdr as1" and d2: "delivers as1 field rest"
    using assms(2) unfolding bitfield_message_def delivers_append by blast
  have "do_read 5 (pw_socket w) = (Inr ?hdr, (pw_socket w)\<lparr>incoming := as1\<rparr>)"
    using do_read_delivers [OF assms(1) d1] by simp
  moreover have "header_of_bytes ?hdr = Inr \<lparr>mh_id = Bitfield, body_length = of_nat (length field + 1) - 1\<rparr>"
    "unat (of_nat (length field + 1) - 1 :: u32) = length field"
    using header_of_pack(1) [of "length field + 1" Bitfield] header_of_pack(2) [of "length field + 1"]
      assms(3) by simp_all
  moreover have "do_read (length field) ((pw_socket w)\<lparr>incoming := as1\<rparr>) =
      (Inr field, (pw_socket w)\<lparr>incoming := rest\<rparr>)"
    using do_read_delivers [of "(pw_socket w)\<lparr>incoming := as1\<rparr>" field rest] assms(1) d2 by simp
  ultimately show ?thesis
    by (fastforce simp: do_bitfield_or_unchoke_def act_bind_ops unpack_msg_header_of MSG_HEADER_SIZE_def)
qed

lemma do_interested_unchoked:
  assumes "is_open (pw_socket w)" "accepts [5] (writes (pw_socket w)) ws"
    and "delivers (incoming (pw_socket w)) pack_unchoke_msg rest"
  shows "do_interested w =
    (Inr (), w\<lparr>pw_socket := (after_write pack_interested_msg (pw_socket w))\<lparr>incoming := rest\<rparr>\<rparr>)"
proof -
  have "do_transfer pack_interested_msg 5 (pw_socket w) =
      (Inr pack_unchoke_msg, (after_write pack_interested_msg (pw_socket w))\<lparr>incoming := rest\<rparr>)"
    using do_transfer_delivers [OF assms(1) _ assms(3), of pack_interested_msg ws] assms(2)
    by (simp add: pack_unchoke_msg_def pack_interested_msg_def)
  moreover have "header_of_bytes pack_unchoke_msg = Inr \<lparr>mh_id = Unchoke, body_length = 0\<rparr>"
    using header_of_pack(1) [of 1 Unchoke] by (simp add: pack_unchoke_msg_def)
  ultimately show ?thesis
    by (fastforce simp: do_interested_def act_bind_ops unpack_msg_header_of MSG_HEADER_SIZE_def)
qed

lemma connect_to_peer_delivered:
  assumes hash: "metainfo_hash (pw_meta w) = Inr (hex_of_bytes h)" "length h = 20"
    and peer: "pw_peer w = Some s" "is_open s" "accepts [68, 5] (writes s) ws"
    and stream: "delivers (incoming s) (peer_hello h peer_id @ bitfield_message field @ pack_unchoke_msg) rest"
    and len: "length peer_id = 20" "length field + 1 < 2 ^ 32"
  shows "\<exists>w'. connect_to_peer w = (Inr (), w') \<and> pw_connected w' \<and>
    incoming (pw_socket w') = rest \<and> is_open (pw_socket w') \<and> writes (pw_socket w') = ws \<and>
    pw_have_mode w' = pw_have_mode w \<and> pw_have_piece_idx w' = pw_have_piece_idx w"
proof -
  obtain as1 as2 where d: "delivers (incoming s) (peer_hello h peer_id) as1"
    "delivers as1 (bitfield_message field) as2" "delivers as2 pack_unchoke_msg rest"
    using stream by (auto simp: delivers_append)
  let ?w = "w\<lparr>pw_socket := s\<rparr>"
  note hello = peer_hello_bytes [OF hash(2) len(1)]
  obtain ws1 where ws1: "accepts [68] (writes s) ws1" "accepts [5] ws1 ws"
    using peer(3) accepts_Cons [of 68 "[5]"] by auto
  obtain request where hs: "do_handshake ?w =
      (Inr (), ?w\<lparr>pw_socket := (after_write request s)\<lparr>incoming := as1\<rparr>\<rparr>)" "length request = 68"
    using do_handshake_answer [of ?w h ws1 "peer_hello h peer_id" as1] hash peer(2) ws1(1) d(1) hello
      length_pack_peer_handshake [OF hash(2)] by auto
  let ?s1 = "(after_write request s)\<lparr>incoming := as1\<rparr>"
  have bf: "do_bitfield_or_unchoke (w\<lparr>pw_socket := ?s1\<rparr>) =
      (Inr (), w\<lparr>pw_socket := ?s1\<lparr>incoming := as2\<rparr>\<rparr>)"
    using do_bitfield_delivered [of "w\<lparr>pw_socket := ?s1\<rparr>" field as2] peer(2) d(2) len(2) by simp
  let ?s2 = "?s1\<lparr>incoming := as2\<rparr>"
  have it: "do_interested (w\<lparr>pw_socket := ?s2\<rparr>) =
      (Inr (), w\<lparr>pw_socket := (after_write pack_interested_msg ?s2)\<lparr>incoming := rest\<rparr>\<rparr>)"
    using do_interested_unchoked [of "w\<lparr>pw_socket := ?s2\<rparr>" ws rest] peer(2) d(3) hs(2) ws1
      after_write_accepted(1) [of request s ws1] by simp
  have "writes ((after_write pack_interested_msg ?s2)\<lparr>incoming := rest\<rparr>) = ws"
    using after_write_accepted(1) [of request s ws1] after_write_accepted(1) [of pack_interested_msg ?s2 ws]
      hs(2) ws1 by (simp add: pack_interested_msg_def)
  then show ?thesis
    using hs(1) bf it peer
    by (simp add: connect_to_peer_def socket_connect_def act_defs)
qed

section \<open>Properties\<close>

lemma delivers_chunk: "bs \<noteq> [] \<Longrightarrow> delivers (Chunk bs # as) bs as"
  by (simp add: delivers_def)

lemma example_pieces: "metainfo_pieces example_metainfo = Inr [replicate 20 255, replicate 20 255]"
proof -
  have "replicate 40 (255 :: u8) = concat [replicate 20 255, replicate 20 255]"
    by (simp flip: replicate_add)
  then have "pieces_loop (replicate 40 255) = Inr [replicate 20 255, replicate 20 255]"
    using pieces_loop_concat [of "[replicate 20 255, replicate 20 255]"] by simp
  then show ?thesis
    by (simp add: metainfo_pieces_def example_metainfo_def example_torrent_def example_info_def
        json_value_object object_find_def get_json_def get_binary_def)
qed

lemma example_piece_len: "piece_len example_metainfo 2 i = Inr (if (of_nat i :: u64) = 1 then 1 else 2)"
  by (simp add: piece_len_def last_piece_len_def example_metainfo_def signed_modulo_int_def
      signed_divide_int_def)

text \<open>A worker of the example torrent whose session is set up over a given socket.\<close>

definition example_worker :: "tcp_socket \<Rightarrow> piece_worker" where
  "example_worker s =
     \<lparr>pw_meta = example_metainfo, pw_peer = Some s, pw_socket = s, pw_thread = None,
      pw_exception = None, pw_owned = True, pw_buffer = [], pw_stream = [], pw_have_mode = False,
      pw_complete = False, pw_connected = True, pw_last_piece_idx = 0, pw_have_piece_idx = None,
      pw_progress = []\<rparr>"

definition example_peer :: "bytes \<Rightarrow> write_outcome list \<Rightarrow> tcp_socket" where
  "example_peer stream ws =
     \<lparr>is_open = True, incoming = [Chunk stream], writes = ws, outgoing = []\<rparr>"

lemma example_worker_ready:
  "normal_mode (example_worker s)" "pw_owned (example_worker s)" "pw_socket (example_worker s) = s"
  "metainfo_pieces (pw_meta (example_worker s)) = Inr [replicate 20 255, replicate 20 255]"
  "piece_len (pw_meta (example_worker s)) (length [replicate 20 (255 :: u8), replicate 20 255]) 0 = Inr 2"
  "piece_len (pw_meta (example_worker s)) (length [replicate 20 (255 :: u8), replicate 20 255]) 1 = Inr 1"
  by (simp_all add: example_worker_def normal_mode_def example_pieces example_piece_len
      flip: numeral_2_eq_2)

lemma example_peer_sel:
  "is_open (example_peer stream ws)" "writes (example_peer stream ws) = ws"
  "outgoing (example_peer stream ws) = []"
  "stream \<noteq> [] \<Longrightarrow> delivers (incoming (example_peer stream ws)) stream []"
  by (simp_all add: example_peer_def delivers_chunk)

lemma piece_answer_Cons: "piece_answer i b block \<noteq> []"
  by (simp add: piece_answer_def pack_msg_header_def pack_u32_def)





text \<open>C38: when the length of the file is a multiple of the length of a piece, a worker asked for the last
  piece returns at once without asking the peer for anything: the piece is taken to be empty.\<close>

theorem last_full_piece_skipped:
  assumes "normal_mode w" "metainfo_pieces (pw_meta w) = Inr ps" "ps \<noteq> []"
    and "0 < mi_piece_length (pw_meta w)" "mi_piece_length (pw_meta w) dvd mi_length (pw_meta w)"
  shows "\<exists>w'. do_download_piece (length ps - 1) w = (Inr (), w') \<and> pw_buffer w' = [] \<and>
    pw_socket w' = pw_socket w \<and> pw_last_piece_idx w' = length ps - 1"
  by (rule do_download_last_empty [OF assms])

theorem last_full_piece_skipped_witness:
  "\<exists>w'. do_download_piece 1 ((example_worker (example_peer [] []))\<lparr>pw_meta := example_metainfo\<lparr>mi_length := 4\<rparr>\<rparr>) =
     (Inr (), w') \<and> pw_buffer w' = [] \<and> pw_socket w' = example_peer [] []"
proof -
  let ?w = "(example_worker (example_peer [] []))\<lparr>pw_meta := example_metainfo\<lparr>mi_length := 4\<rparr>\<rparr>"
  have "metainfo_pieces (pw_meta ?w) = Inr [replicate 20 255, replicate 20 255]"
    using example_pieces by (simp add: metainfo_pieces_def example_metainfo_def)
  then show ?thesis
    using last_full_piece_skipped [of ?w "[replicate 20 255, replicate 20 255]"]
    by (auto simp: example_worker_def normal_mode_def example_metainfo_def)
qed

definition example_hash :: bytes where
  "example_hash = sha1_spec (bytes_of_string (encode_total (Json_object example_info)))"

lemma example_metainfo_hash:
  "metainfo_hash example_metainfo = Inr (hex_of_bytes example_hash)" "length example_hash = 20"
proof -
  have "bencodable (Json_object example_info)"
    using bencodable_example_torrent by (simp add: example_torrent_def)
  then show "metainfo_hash example_metainfo = Inr (hex_of_bytes example_hash)"
    using metainfo_hash_info [of example_metainfo _ "Json_object example_info", OF _ _ encode_total]
    by (simp add: example_metainfo_def example_torrent_def object_find_def sha1_hex_def
        example_hash_def json_empty_def example_info_def)
qed (simp add: example_hash_def)

text \<open>C25: the handshake with any answer of 68 bytes: a first byte above 19 makes the worker read past
  the answer; otherwise the session goes on exactly when the info hash that stands where
  the first byte says is the one that was asked for.\<close>

theorem handshake_with_any_answer:
  assumes "metainfo_hash (pw_meta w) = Inr (hex_of_bytes h)" "length h = 20"
    and "is_open (pw_socket w)" "accepts [68] (writes (pw_socket w)) ws"
    and "delivers (incoming (pw_socket w)) answer rest" "length answer = 68"
  shows "fst (do_handshake w) =
      (if 19 < unat (answer ! 0) then Inl (Undefined Read_past_end)
       else if take 20 (drop (unat (answer ! 0) + 9) answer) = h then Inr ()
       else Inl (Runtime_error ''Invalid info hash''))"
  using do_handshake_answer [OF assms] by auto

theorem handshake_with_any_answer_witness:
  "fst (do_handshake (example_worker (example_peer (replicate 68 255) [Written]))) =
     Inl (Undefined Read_past_end)"
  using handshake_with_any_answer [of "example_worker (example_peer (replicate 68 255) [Written])"
      example_hash "[]" "replicate 68 255" "[]"]
  by (simp add: example_worker_ready example_peer_sel example_worker_def example_metainfo_hash)

end
