(* ===== verification/Ip_Port.thy ===== *)
theory Ip_Port
  imports Digits
begin

text \<open>
  Addresses of peers: \<open>src/src/misc/parse_ip_port.hpp\<close> reads \<open>"d.d.d.d:d"\<close> with a regular
  expression, and \<open>decode_ip_port_binary\<close> and \<open>decode_peers\<close> of \<open>src/src/client/client.cpp\<close>
  write it from the six bytes a tracker sends for a peer. \<open>std::stoull\<close>, which the callers
  apply to the port, is here too.

  The expression is a sequence of runs of digits with separators that are not digits, so
  \<open>std::regex_match\<close> has at most one way to match: the matcher reads maximal runs. That it
  accepts the language of the expression, with the two groups, is a lemma.
\<close>

section \<open>The regular expression\<close>

definition match_digits :: "nat \<Rightarrow> string \<Rightarrow> (string \<times> string) option" where
  "match_digits k s =
     (let ds = takeWhile isdigit s in
      if ds \<noteq> [] \<and> length ds \<le> k then Some (ds, dropWhile isdigit s) else None)"

definition match_char :: "char \<Rightarrow> string \<Rightarrow> string option" where
  "match_char c s = (case s of x # r \<Rightarrow> (if x = c then Some r else None) | [] \<Rightarrow> None)"

definition parse_error :: "error" where
  "parse_error = Runtime_error ''Peer ip and port must be in format''"

definition regex_match_ip_port :: "string \<Rightarrow> (string \<times> string) option" where
  "regex_match_ip_port s =
     Option.bind (match_digits 3 s) (\<lambda>(a, s).
     Option.bind (match_char CHR ''.'' s) (\<lambda>s.
     Option.bind (match_digits 3 s) (\<lambda>(b, s).
     Option.bind (match_char CHR ''.'' s) (\<lambda>s.
     Option.bind (match_digits 3 s) (\<lambda>(c, s).
     Option.bind (match_char CHR ''.'' s) (\<lambda>s.
     Option.bind (match_digits 3 s) (\<lambda>(d, s).
     Option.bind (match_char CHR '':'' s) (\<lambda>s.
     Option.bind (match_digits 5 s) (\<lambda>(p, s).
       if s = [] then Some (a @ ''.'' @ b @ ''.'' @ c @ ''.'' @ d, p) else None)))))))))"

definition parse_ip_port :: "string \<Rightarrow> (string \<times> string) result" where
  "parse_ip_port s =
     (case regex_match_ip_port s of None \<Rightarrow> Inl parse_error | Some (ip, port) \<Rightarrow> Inr (ip, port))"

text \<open>The language of the expression, and of its first group.\<close>

definition digit_run :: "nat \<Rightarrow> string \<Rightarrow> bool" where
  "digit_run k ds \<longleftrightarrow> 1 \<le> length ds \<and> length ds \<le> k \<and> list_all isdigit ds"

definition dotted :: "string \<Rightarrow> bool" where
  "dotted ip \<longleftrightarrow> (\<exists>a b c d. ip = a @ ''.'' @ b @ ''.'' @ c @ ''.'' @ d \<and>
     digit_run 3 a \<and> digit_run 3 b \<and> digit_run 3 c \<and> digit_run 3 d)"

lemma takeWhile_run: "list_all p ds \<Longrightarrow> (s = [] \<or> \<not> p (hd s)) \<Longrightarrow> takeWhile p (ds @ s) = ds"
  by (induction ds) (cases s; auto)+

lemma dropWhile_run: "list_all p ds \<Longrightarrow> (s = [] \<or> \<not> p (hd s)) \<Longrightarrow> dropWhile p (ds @ s) = s"
  by (induction ds) (cases s; auto)+

lemma match_digits_iff:
  "match_digits k s = Some (ds, r) \<longleftrightarrow> s = ds @ r \<and> digit_run k ds \<and> (r = [] \<or> \<not> isdigit (hd r))"
proof
  assume "match_digits k s = Some (ds, r)"
  then have m: "ds = takeWhile isdigit s" "r = dropWhile isdigit s" "ds \<noteq> []" "length ds \<le> k"
    by (auto simp: match_digits_def Let_def split: if_splits)
  then have "list_all isdigit ds" by (auto simp: list_all_iff dest: set_takeWhileD)
  with m show "s = ds @ r \<and> digit_run k ds \<and> (r = [] \<or> \<not> isdigit (hd r))"
    using hd_dropWhile [of isdigit s] by (auto simp: digit_run_def Suc_le_eq)
next
  assume "s = ds @ r \<and> digit_run k ds \<and> (r = [] \<or> \<not> isdigit (hd r))"
  then show "match_digits k s = Some (ds, r)"
    by (auto simp: match_digits_def digit_run_def takeWhile_run dropWhile_run)
qed

lemma match_char_iff: "match_char c s = Some r \<longleftrightarrow> s = c # r"
  by (auto simp: match_char_def split: list.splits)

lemma separators_not_digits [simp]: "\<not> isdigit (CHR ''.'')" "\<not> isdigit (CHR '':'')"
  by (simp_all add: isdigit_of_char)

lemma match_digits_sep:
  "digit_run k ds \<Longrightarrow> \<not> isdigit c \<Longrightarrow> match_digits k (ds @ c # r) = Some (ds, c # r)"
  by (simp add: match_digits_iff)

lemma match_digits_end: "digit_run k ds \<Longrightarrow> match_digits k ds = Some (ds, [])"
  by (simp add: match_digits_iff)

lemma match_char_Cons [simp]: "match_char c (c # r) = Some r"
  by (simp add: match_char_iff)

lemma regex_match_complete:
  assumes "digit_run 3 a" "digit_run 3 b" "digit_run 3 c" "digit_run 3 d" "digit_run 5 p"
  shows "regex_match_ip_port (a @ ''.'' @ b @ ''.'' @ c @ ''.'' @ d @ '':'' @ p) =
    Some (a @ ''.'' @ b @ ''.'' @ c @ ''.'' @ d, p)"
  using assms by (simp add: regex_match_ip_port_def match_digits_sep match_digits_end)

lemma regex_match_iff:
  "regex_match_ip_port s = Some (ip, port) \<longleftrightarrow>
     s = ip @ '':'' @ port \<and> dotted ip \<and> digit_run 5 port"
proof
  assume "regex_match_ip_port s = Some (ip, port)"
  then show "s = ip @ '':'' @ port \<and> dotted ip \<and> digit_run 5 port"
    unfolding regex_match_ip_port_def dotted_def
    by (auto simp: bind_eq_Some_conv match_digits_iff match_char_iff split: if_splits)
next
  assume "s = ip @ '':'' @ port \<and> dotted ip \<and> digit_run 5 port"
  then show "regex_match_ip_port s = Some (ip, port)"
    using regex_match_complete by (auto simp: dotted_def)
qed

lemma parse_ip_port_iff:
  "parse_ip_port s = Inr (ip, port) \<longleftrightarrow> s = ip @ '':'' @ port \<and> dotted ip \<and> digit_run 5 port"
  unfolding parse_ip_port_def regex_match_iff [symmetric] by (auto split: option.splits)

lemma parse_ip_port_error: "parse_ip_port s = Inl e \<Longrightarrow> e = parse_error"
  by (auto simp: parse_ip_port_def split: option.splits)

section \<open>Reading a port number\<close>

text \<open>
  \<open>std::stoull\<close> skips white space, takes a sign (a minus negates modulo \<open>2 ^ 64\<close>), reads
  digits and ignores the rest; it throws \<open>invalid_argument\<close> when there is no digit and
  \<open>out_of_range\<close> when the number does not fit.
\<close>

definition stoull :: "string \<Rightarrow> u64 result" where
  "stoull s =
     (let s = dropWhile isspace s;
          negative = (s \<noteq> [] \<and> hd s = CHR ''-'');
          s = (if s \<noteq> [] \<and> (hd s = CHR ''-'' \<or> hd s = CHR ''+'') then drop 1 s else s);
          ds = takeWhile isdigit s;
          n = digits_value ds
      in if ds = [] then Inl (Invalid_argument ''stoull'')
         else if 2 ^ 64 \<le> n then Inl (Out_of_range ''stoull'')
         else Inr (if negative then - of_nat n else of_nat n))"

lemma digits_value_bound: "list_all isdigit ds \<Longrightarrow> digits_value ds < 10 ^ length ds"
proof (induction ds rule: rev_induct)
  case (snoc c ds)
  then have "digits_value ds + 1 \<le> 10 ^ length ds" "digit_value c < 10" by simp_all
  then have "10 * digits_value ds + digit_value c < 10 * 10 ^ length ds" by linarith
  then show ?case by simp
qed simp

lemma digit_not_space_sign: "isdigit c \<Longrightarrow> \<not> isspace c \<and> c \<noteq> CHR ''-'' \<and> c \<noteq> CHR ''+''"
  by (auto simp: isdigit_of_char isspace_def)

lemma stoull_digits:
  assumes "list_all isdigit ds" "ds \<noteq> []" "digits_value ds < 2 ^ 64"
  shows "stoull ds = Inr (of_nat (digits_value ds))"
proof -
  obtain c cs where ds: "ds = c # cs" using assms(2) by (cases ds) auto
  then have "dropWhile isspace ds = ds" "hd ds \<noteq> CHR ''-''" "hd ds \<noteq> CHR ''+''"
    using assms(1) digit_not_space_sign [of c] by auto
  moreover have tw: "takeWhile isdigit ds = ds"
    using takeWhile_run [OF assms(1), of "[]"] by simp
  ultimately show ?thesis using assms(2,3) by (simp add: stoull_def Let_def tw)
qed

text \<open>A port the expression accepts is always a number; only its range is not checked.\<close>

lemma stoull_port:
  assumes "digit_run 5 port"
  shows "stoull port = Inr (of_nat (digits_value port)) \<and> digits_value port < 100000"
proof -
  have p: "list_all isdigit port" "port \<noteq> []" "length port \<le> 5"
    using assms by (auto simp: digit_run_def)
  have "digits_value port < 10 ^ length port" using digits_value_bound [OF p(1)] .
  also have "\<dots> \<le> 10 ^ 5" using p(3) by (rule power_increasing) simp
  finally have "digits_value port < 100000" by simp
  with stoull_digits [OF p(1,2)] show ?thesis by simp
qed

section \<open>The compact list of peers\<close>

definition PEERS_CHUNK_SIZE_BYTES :: nat where
  "PEERS_CHUNK_SIZE_BYTES = 6"

definition decode_ip_port_binary :: "bytes \<Rightarrow> string result" where
  "decode_ip_port_binary bs =
     (if length bs < 6 then Inl (Undefined Read_past_end)
      else
        (let num = (\<lambda>i. dec_of_nat (unat (bs ! i)));
             ip = num 0 @ ''.'' @ num 1 @ ''.'' @ num 2 @ ''.'' @ num 3;
             port = push_bit 8 (unat (bs ! 4)) OR unat (bs ! 5)
         in Inr (ip @ '':'' @ dec_of_nat port)))"

text \<open>\<open>views::chunk(6)\<close>, and the strings of the chunks in order.\<close>

function chunks :: "nat \<Rightarrow> bytes \<Rightarrow> bytes list" where
  "chunks n bs = (if bs = [] \<or> n = 0 then [] else take n bs # chunks n (drop n bs))"
  by pat_completeness auto
termination
  by (relation "measure (\<lambda>(n, bs). length bs)") auto

declare chunks.simps [simp del]

fun map_result :: "('a \<Rightarrow> 'b result) \<Rightarrow> 'a list \<Rightarrow> 'b list result" where
  "map_result f [] = Inr []"
| "map_result f (x # xs) =
     (case f x of Inl e \<Rightarrow> Inl e
      | Inr y \<Rightarrow> (case map_result f xs of Inl e \<Rightarrow> Inl e | Inr ys \<Rightarrow> Inr (y # ys)))"

definition decode_peers :: "bytes \<Rightarrow> string list result" where
  "decode_peers peers =
     (if length peers mod PEERS_CHUNK_SIZE_BYTES \<noteq> 0
      then Inl (Runtime_error ''Bad response from server. peers field must be derisible by 6'')
      else map_result decode_ip_port_binary (chunks PEERS_CHUNK_SIZE_BYTES peers))"

lemma chunks_concat:
  assumes "\<forall>c \<in> set cs. length c = n" "0 < n"
  shows "chunks n (concat cs) = cs"
  using assms
proof (induction cs)
  case (Cons c cs)
  then have "c \<noteq> []" by auto
  with Cons show ?case by (subst chunks.simps) simp
qed (simp add: chunks.simps)

lemma chunks_split:
  "0 < n \<Longrightarrow> length bs mod n = 0 \<Longrightarrow>
     concat (chunks n bs) = bs \<and> (\<forall>c \<in> set (chunks n bs). length c = n) \<and>
     length (chunks n bs) = length bs div n"
proof (induction n bs rule: chunks.induct)
  case (1 n bs)
  show ?case
  proof (cases "bs = []")
    case False
    with 1(2,3) have len: "n \<le> length bs"
      by (cases "length bs < n") auto
    with 1(3) have m: "length (drop n bs) mod n = 0" by (simp add: le_mod_geq)
    have "\<not> (bs = [] \<or> n = 0)" using False 1(2) by simp
    from 1(1) [OF this 1(2) m] have ih: "concat (chunks n (drop n bs)) = drop n bs"
      "\<forall>c \<in> set (chunks n (drop n bs)). length c = n"
      "length (chunks n (drop n bs)) = (length bs - n) div n"
      by simp_all
    have "chunks n bs = take n bs # chunks n (drop n bs)"
      using False 1(2) by (subst chunks.simps) simp
    moreover have "length bs div n = Suc ((length bs - n) div n)"
      by (rule le_div_geq) (use 1(2) len in auto)
    moreover have "length (take n bs) = n" using len by simp
    ultimately show ?thesis
      by (simp only: ih concat.simps append_take_drop_id list.size list.set insert_iff
          ball_simps(5,7)) (use ih in auto)
  qed (simp add: chunks.simps)
qed

lemma map_result_total: "\<forall>x \<in> set xs. f x = Inr (g x) \<Longrightarrow> map_result f xs = Inr (map g xs)"
  by (induction xs) simp_all

text \<open>The address of six bytes: its text and its two parts.\<close>

definition ip_text :: "bytes \<Rightarrow> string" where
  "ip_text bs = dec_of_nat (unat (bs ! 0)) @ ''.'' @ dec_of_nat (unat (bs ! 1)) @ ''.'' @
     dec_of_nat (unat (bs ! 2)) @ ''.'' @ dec_of_nat (unat (bs ! 3))"

definition port_number :: "bytes \<Rightarrow> nat" where
  "port_number bs = 256 * unat (bs ! 4) + unat (bs ! 5)"

definition peer_text :: "bytes \<Rightarrow> string" where
  "peer_text bs = ip_text bs @ '':'' @ dec_of_nat (port_number bs)"

lemma shift_or_add: "b < 256 \<Longrightarrow> push_bit 8 a OR b = 256 * a + (b :: nat)"
proof -
  assume b: "b < 256"
  have "push_bit 8 a AND b = 0"
  proof (rule bit_eqI)
    fix n
    have "\<not> bit b n" if "8 \<le> n"
    proof -
      have "b = take_bit 8 b" using b by (simp add: take_bit_eq_mod)
      with that show ?thesis by (metis bit_take_bit_iff not_less)
    qed
    then show "bit (push_bit 8 a AND b) n = bit (0 :: nat) n"
      by (auto simp: bit_and_iff bit_push_bit_iff)
  qed
  then have "push_bit 8 a OR b = push_bit 8 a + b"
    by (rule disjunctive_add_eq_or [symmetric])
  then show ?thesis by (simp add: push_bit_eq_mult)
qed

lemma decode_ip_port_binary_text: "length bs = 6 \<Longrightarrow> decode_ip_port_binary bs = Inr (peer_text bs)"
  by (simp add: decode_ip_port_binary_def peer_text_def ip_text_def port_number_def shift_or_add)

lemma length_dec_of_nat_bound: "n < 10 ^ k \<Longrightarrow> 0 < k \<Longrightarrow> length (dec_of_nat n) \<le> k"
proof (induction k arbitrary: n)
  case (Suc k)
  show ?case
  proof (cases "n < 10")
    case False
    then have "0 < k" using Suc.prems by (cases k) simp_all
    moreover have "n div 10 < 10 ^ k" using Suc.prems by (simp add: div_less_iff_less_mult)
    ultimately have "length (dec_of_nat (n div 10)) \<le> k" using Suc.IH by blast
    with False show ?thesis by (simp add: dec_of_nat_step)
  qed (simp add: dec_of_nat_small)
qed simp

lemma digit_run_dec: "n < 10 ^ k \<Longrightarrow> 0 < k \<Longrightarrow> digit_run k (dec_of_nat n)"
  by (simp add: digit_run_def length_dec_of_nat_bound Suc_le_eq)

lemma digit_run_byte: "digit_run 3 (dec_of_nat (unat (b :: u8)))"
proof (rule digit_run_dec)
  have "unat b < 1000" using unat_u8_less [of b] by linarith
  then show "unat b < 10 ^ 3" by simp
qed simp

lemma port_number_less: "port_number bs < 65536"
  unfolding port_number_def using unat_u8_less [of "bs ! 4"] unat_u8_less [of "bs ! 5"] by linarith

lemma parse_peer_text: "parse_ip_port (peer_text bs) = Inr (ip_text bs, dec_of_nat (port_number bs))"
proof -
  have "digit_run 5 (dec_of_nat (port_number bs))"
    using port_number_less [of bs] by (intro digit_run_dec) simp_all
  moreover have "dotted (ip_text bs)"
    unfolding dotted_def ip_text_def using digit_run_byte by blast
  ultimately show ?thesis by (simp add: parse_ip_port_iff peer_text_def)
qed

lemma stoull_peer_port: "stoull (dec_of_nat (port_number bs)) = Inr (of_nat (port_number bs))"
  using port_number_less [of bs] by (subst stoull_digits) simp_all

lemma decode_peers_text:
  assumes "length peers mod 6 = 0"
  shows "decode_peers peers = Inr (map peer_text (chunks 6 peers))"
proof -
  have "map_result decode_ip_port_binary (chunks 6 peers) = Inr (map peer_text (chunks 6 peers))"
    using chunks_split [of 6 peers] assms
    by (intro map_result_total) (simp add: decode_ip_port_binary_text)
  with assms show ?thesis by (simp add: decode_peers_def PEERS_CHUNK_SIZE_BYTES_def)
qed

section \<open>Properties\<close>

text \<open>The parser \<open>parse_ip_port\<close> accepts exactly the language of its expression, returns the address and the
  port, and throws its \<open>runtime_error\<close> for every other text.\<close>

theorem parse_ip_port_language:
  "(case parse_ip_port s of
      Inr (ip, port) \<Rightarrow> s = ip @ '':'' @ port \<and> dotted ip \<and> digit_run 5 port
    | Inl e \<Rightarrow> e = parse_error \<and> \<not> (\<exists>ip port. s = ip @ '':'' @ port \<and> dotted ip \<and> digit_run 5 port))"
  using parse_ip_port_iff [of s] parse_ip_port_error [of s]
  by (auto split: sum.split)

text \<open>C28: the compact list of peers: every six bytes become the text of an address, which parses back to
  its two parts, and the port to its number.\<close>

theorem peers_roundtrip:
  assumes "length peers mod 6 = 0"
  shows "decode_peers peers = Inr (map peer_text (chunks 6 peers)) \<and>
    (\<forall>c. parse_ip_port (peer_text c) = Inr (ip_text c, dec_of_nat (port_number c)) \<and>
         stoull (dec_of_nat (port_number c)) = Inr (of_nat (port_number c)))"
  using decode_peers_text [OF assms] parse_peer_text stoull_peer_port by blast

theorem peers_roundtrip_witness:
  "decode_peers [127, 0, 0, 1, 26, 225] = Inr (map peer_text (chunks 6 [127, 0, 0, 1, 26, 225])) \<and>
   (\<forall>c. parse_ip_port (peer_text c) = Inr (ip_text c, dec_of_nat (port_number c)) \<and>
        stoull (dec_of_nat (port_number c)) = Inr (of_nat (port_number c)))"
  by (rule peers_roundtrip) simp

end
