(* ===== verification/Download_File.thy ===== *)
theory Download_File
  imports Piece_Download Ip_Port "HOL-Library.Multiset"
begin

text \<open>
  \<open>src/src/client/download_file.cpp\<close>: the download of a whole file by several workers.

  What is outside the program is the record \<open>environment\<close>: \<open>std::ranges::shuffle\<close>, the textual
  addresses \<open>make_address\<close> accepts, the peers that listen, whether the directory for the
  pieces is there, and whether \<open>create_directories\<close> makes it. The directory is a partial map from piece indexes to file
  contents (a file of an earlier run may be in it); \<open>readsome\<close> returns what the file still has, up
  to the size of the buffer. The progress bars and the log are left out.
\<close>

record environment =
  env_shuffle :: "nat list \<Rightarrow> nat list"
  env_is_address :: "string \<Rightarrow> bool"
  env_peer_at :: "string \<Rightarrow> nat \<Rightarrow> tcp_socket option"
  env_dir_exists :: bool
  env_dir_created :: bool

type_synonym files = "nat \<Rightarrow> bytes option"

section \<open>The list of pieces\<close>

definition shuffled_indexes :: "environment \<Rightarrow> nat \<Rightarrow> nat list" where
  "shuffled_indexes env up_to_number = env_shuffle env [0..<up_to_number]"

definition get_some_indexes :: "nat list \<Rightarrow> nat \<Rightarrow> nat list" where
  "get_some_indexes indexes up_to =
     (if indexes = [] then [] else take (min up_to (length indexes)) indexes)"

definition twice_error :: "error" where
  "twice_error = Runtime_error ''Can download piece twice! Bad piece''"

definition pop_piece :: "nat list \<Rightarrow> nat \<Rightarrow> nat list result" where
  "pop_piece pieces_to_download idx =
     (if idx \<in> set pieces_to_download then Inr (remove1 idx pieces_to_download) else Inl twice_error)"

section \<open>The workers\<close>

fun setup_workers :: "environment \<Rightarrow> metainfo \<Rightarrow> string list \<Rightarrow> piece_worker list \<Rightarrow>
    piece_worker list result" where
  "setup_workers env meta [] workers = Inr workers"
| "setup_workers env meta (peer # peers) workers =
     (case parse_ip_port peer of
        Inl e \<Rightarrow> Inl e
      | Inr (peer_ip, peer_port) \<Rightarrow>
          (case stoull peer_port of
             Inl e \<Rightarrow> Inl e
           | Inr port \<Rightarrow>
               (case new_worker (env_is_address env) (env_peer_at env) meta peer_ip port True [] of
                  Inl e \<Rightarrow> Inl e
                | Inr worker \<Rightarrow>
                    (case wait_connection_established (snd (check_connection_async worker)) of
                       (Inl e, _) \<Rightarrow> Inl e
                     | (Inr ok, worker) \<Rightarrow>
                         setup_workers env meta peers
                           (if ok then workers @ [worker] else workers)))))"

definition create_dir_for_pieces :: "environment \<Rightarrow> unit result" where
  "create_dir_for_pieces env =
     (if \<not> env_dir_exists env
      then (if \<not> env_dir_created env then Inl (Runtime_error ''Can not create path for temp files'')
            else Inr ())
      else Inr ())"

text \<open>Opening the file of a piece for output truncates it.\<close>

definition write_piece :: "bytes \<Rightarrow> nat \<Rightarrow> files \<Rightarrow> files" where
  [simp]: "write_piece piece piece_idx files = files(piece_idx \<mapsto> piece)"

text \<open>The pieces are handed to the workers that are not started, in order, until either run out.\<close>

fun assign :: "nat list \<Rightarrow> piece_worker list \<Rightarrow> piece_worker list \<times> nat" where
  "assign indexes [] = ([], 0)"
| "assign [] workers = (workers, 0)"
| "assign (i # indexes) (w # workers) =
     (if started w
      then (case assign (i # indexes) workers of (ws, n) \<Rightarrow> (w # ws, n))
      else (case assign indexes workers of (ws, n) \<Rightarrow> (snd (download_piece_async i w) # ws, n + 1)))"

definition start_workers :: "nat list \<Rightarrow> piece_worker list \<Rightarrow> piece_worker list \<times> nat" where
  "start_workers pieces_to_download workers =
     (let available_workers_count = length (filter (\<lambda>w. \<not> started w) workers)
      in assign (get_some_indexes pieces_to_download available_workers_count) workers)"

section \<open>The main loop\<close>

text \<open>
  One pass over the started workers: each is waited for, and its piece taken off the list and
  written to its file. A worker in have mode that failed is passed over.
\<close>

fun collect :: "piece_worker list \<Rightarrow> nat list \<Rightarrow> files \<Rightarrow>
    (nat list \<times> files) result \<times> piece_worker list" where
  "collect [] pieces files = (Inr (pieces, files), [])"
| "collect (w # workers) pieces files =
     (if \<not> started w
      then (case collect workers pieces files of (r, ws) \<Rightarrow> (r, w # ws))
      else
        (case wait_piece_transfer w of
           (Inl e, w) \<Rightarrow> (Inl e, w # workers)
         | (Inr ok, w) \<Rightarrow>
             if \<not> ok
             then (if \<not> pw_have_mode w then (Inl (raise w), w # workers)
                   else (case collect workers pieces files of (r, ws) \<Rightarrow> (r, w # ws)))
             else
               (case pop_piece pieces (pw_last_piece_idx w) of
                  Inl e \<Rightarrow> (Inl e, w # workers)
                | Inr pieces \<Rightarrow>
                    (case collect workers pieces (write_piece (pw_buffer w) (pw_last_piece_idx w) files) of
                       (r, ws) \<Rightarrow> (r, w # ws)))))"

text \<open>The loop need not end: \<open>None\<close> is not returning.\<close>

partial_function (option) download_rounds ::
  "nat list \<Rightarrow> piece_worker list \<Rightarrow> files \<Rightarrow> files result option"
where
  "download_rounds pieces workers files =
     (if pieces = [] then Some (Inr files)
      else
        (case collect (fst (start_workers pieces workers)) pieces files of
           (Inl e, _) \<Rightarrow> Some (Inl e)
         | (Inr (pieces, files), workers) \<Rightarrow> download_rounds pieces workers files))"

text \<open>The copy of a file in blocks of 512 bytes, until \<open>readsome\<close> has none.\<close>

function copy_stream :: "bytes \<Rightarrow> bytes \<Rightarrow> bytes" where
  "copy_stream content output =
     (if content = [] then output else copy_stream (drop 512 content) (output @ take 512 content))"
  by pat_completeness auto

termination copy_stream
  by (relation "measure (\<lambda>(content, output). length content)") auto

declare copy_stream.simps [simp del]

lemma copy_stream_append [simp]: "copy_stream content out = out @ content"
proof (induction content out rule: copy_stream.induct)
  case (1 content out)
  then show ?case by (subst copy_stream.simps) simp
qed

fun gather_pieces :: "nat list \<Rightarrow> files \<Rightarrow> bytes \<Rightarrow> unit result \<times> bytes" where
  "gather_pieces [] files output = (Inr (), output)"
| "gather_pieces (piece # pieces) files output =
     (case files piece of
        None \<Rightarrow> (Inl (Runtime_error ''Gathering file error. Piece not found.''), output)
      | Some content \<Rightarrow> gather_pieces pieces files (copy_stream content output))"

text \<open>What is printed, the result, and the bytes of the output stream.\<close>

definition download_file ::
  "environment \<Rightarrow> metainfo \<Rightarrow> string list \<Rightarrow> files \<Rightarrow> (string \<times> unit result \<times> bytes) option" where
  "download_file env meta peers files =
     (case metainfo_pieces meta of
        Inl e \<Rightarrow> Some ([], Inl e, [])
      | Inr pieces \<Rightarrow>
          (let pieces_count = length pieces;
               pieces_to_download = shuffled_indexes env pieces_count;
               setup = ''Setup connection...'' @ [CHR 0x0A];
               downloading = setup @ ''Downloading...'' @ [CHR 0x0A]
           in case setup_workers env meta peers [] of
                Inl e \<Rightarrow> Some (setup, Inl e, [])
              | Inr workers \<Rightarrow>
                  if workers = [] then Some (setup, Inl (Runtime_error ''No peers available!''), [])
                  else
                    (case create_dir_for_pieces env of
                       Inl e \<Rightarrow> Some (setup, Inl e, [])
                     | Inr _ \<Rightarrow>
                         (case download_rounds pieces_to_download workers files of
                            None \<Rightarrow> None
                          | Some (Inl e) \<Rightarrow> Some (downloading, Inl e, [])
                          | Some (Inr files) \<Rightarrow>
                              Some (downloading, gather_pieces [0..<pieces_count] files [])))))"

section \<open>Every piece once\<close>

lemma pop_piece_Inr:
  "pop_piece ps i = Inr ps' \<longleftrightarrow> i \<in> set ps \<and> ps' = remove1 i ps"
  by (auto simp: pop_piece_def)

text \<open>
  \<open>progress_made ps fs ps' fs'\<close>: no piece came back or doubled, the pieces that left the list
  have a file, and no other file changed.
\<close>

definition progress_made :: "nat list \<Rightarrow> files \<Rightarrow> nat list \<Rightarrow> files \<Rightarrow> bool" where
  "progress_made ps fs ps' fs' \<longleftrightarrow>
     distinct ps' \<and> set ps' \<subseteq> set ps \<and>
     (\<forall>i \<in> set ps - set ps'. fs' i \<noteq> None) \<and> (\<forall>i. i \<notin> set ps - set ps' \<longrightarrow> fs' i = fs i)"

lemma progress_refl [simp]: "distinct ps \<Longrightarrow> progress_made ps fs ps fs"
  by (simp add: progress_made_def)

lemma progress_pop:
  "distinct ps \<Longrightarrow> i \<in> set ps \<Longrightarrow> progress_made (remove1 i ps) (fs(i \<mapsto> c)) ps' fs' \<Longrightarrow>
     progress_made ps fs ps' fs'"
  by (auto simp: progress_made_def)

lemma progress_trans:
  "progress_made ps fs ps1 fs1 \<Longrightarrow> progress_made ps1 fs1 ps2 fs2 \<Longrightarrow> progress_made ps fs ps2 fs2"
  unfolding progress_made_def by (auto 0 3 dest: subsetD)

lemma collect_progress:
  "collect ws ps fs = (Inr (ps', fs'), ws') \<Longrightarrow> distinct ps \<Longrightarrow> progress_made ps fs ps' fs'"
  by (induction ws ps fs arbitrary: ws' rule: collect.induct)
    (auto simp: pop_piece_Inr split: if_splits prod.splits sum.splits intro: progress_pop)

text \<open>What every round keeps holds at the end of the loop.\<close>

lemma download_rounds_invariant:
  assumes run: "download_rounds ps ws fs = Some (Inr fs')" and start: "P ps ws fs"
    and step: "\<And>ps ws fs ps' fs' ws'. P ps ws fs \<Longrightarrow>
      collect (fst (start_workers ps ws)) ps fs = (Inr (ps', fs'), ws') \<Longrightarrow> P ps' ws' fs'"
  shows "\<exists>ws'. P [] ws' fs'"
proof -
  have "download_rounds ps ws fs = Some r \<Longrightarrow> P ps ws fs \<longrightarrow> (\<forall>fs'. r = Inr fs' \<longrightarrow> (\<exists>ws'. P [] ws' fs'))"
    for ps ws fs r
  proof (rule download_rounds.raw_induct [where
      P = "\<lambda>ps ws fs r. P ps ws fs \<longrightarrow> (\<forall>fs'. r = Inr fs' \<longrightarrow> (\<exists>ws'. P [] ws' fs'))"])
    fix dr :: "nat list \<Rightarrow> piece_worker list \<Rightarrow> files \<Rightarrow> files result option" and ps ws fs r
    assume ih: "\<And>ps ws fs r. dr ps ws fs = Some r \<Longrightarrow>
        P ps ws fs \<longrightarrow> (\<forall>fs'. r = Inr fs' \<longrightarrow> (\<exists>ws'. P [] ws' fs'))"
      and turn: "(if ps = [] then Some (Inr fs)
        else case collect (fst (start_workers ps ws)) ps fs of
               (Inl e, _) \<Rightarrow> Some (Inl e) | (Inr (ps, fs), ws) \<Rightarrow> dr ps ws fs) = Some r"
    show "P ps ws fs \<longrightarrow> (\<forall>fs'. r = Inr fs' \<longrightarrow> (\<exists>ws'. P [] ws' fs'))"
    proof (intro impI allI)
      fix fs' assume p: "P ps ws fs" and r: "r = Inr fs'"
      show "\<exists>ws'. P [] ws' fs'"
      proof (cases "ps = []")
        case True
        with turn r p show ?thesis by auto
      next
        case False
        with turn r obtain ps1 fs1 ws1 where
          c: "collect (fst (start_workers ps ws)) ps fs = (Inr (ps1, fs1), ws1)"
          and rec: "dr ps1 ws1 fs1 = Some (Inr fs')"
          by (auto split: prod.splits sum.splits)
        from ih [OF rec] step [OF p c] show ?thesis by blast
      qed
    qed
  qed
  with run start show ?thesis by blast
qed

lemma download_rounds_progress:
  assumes run: "download_rounds ps ws fs = Some (Inr fs')" and "distinct ps"
  shows "progress_made ps fs [] fs'"
proof -
  let ?P = "\<lambda>ps1 (ws1 :: piece_worker list) fs1. distinct ps1 \<and> progress_made ps fs ps1 fs1"
  have "?P ps ws fs" using assms(2) by simp
  moreover have "?P ps2 ws2 fs2" if "?P ps1 ws1 fs1"
    "collect (fst (start_workers ps1 ws1)) ps1 fs1 = (Inr (ps2, fs2), ws2)" for ps1 ws1 fs1 ps2 ws2 fs2
    using collect_progress [OF that(2)] that(1) progress_trans [of ps fs ps1 fs1 ps2 fs2]
    by (simp add: progress_made_def)
  ultimately show ?thesis using download_rounds_invariant [of ps ws fs fs' ?P, OF run] by blast
qed

lemma gather_pieces_all:
  "\<forall>i \<in> set is. files i \<noteq> None \<Longrightarrow>
     gather_pieces is files out = (Inr (), out @ concat (map (the \<circ> files) is))"
  by (induction "is" files out rule: gather_pieces.induct) auto

lemma gather_pieces_missing:
  "i \<in> set is \<Longrightarrow> files i = None \<Longrightarrow>
     \<exists>out'. gather_pieces is files out =
       (Inl (Runtime_error ''Gathering file error. Piece not found.''), out')"
  by (induction "is" files out rule: gather_pieces.induct) (auto split: option.splits)

lemma download_rounds_step:
  "ps \<noteq> [] \<Longrightarrow> collect (fst (start_workers ps ws)) ps fs = (Inr (ps', fs'), ws') \<Longrightarrow>
     download_rounds ps ws fs = download_rounds ps' ws' fs'"
  by (subst download_rounds.simps) simp

lemma download_rounds_end: "download_rounds [] ws fs = Some (Inr fs)"
  by (subst download_rounds.simps) simp

section \<open>A worker in have mode\<close>

text \<open>
  A have-mode worker whose connection has failed fails in every round and is passed over in
  every round: the loop of the code does not end.
\<close>

definition stuck :: "piece_worker \<Rightarrow> bool" where
  "stuck w \<longleftrightarrow> pw_have_mode w \<and> pw_have_piece_idx w = None \<and> \<not> started w \<and> is_open (pw_socket w) \<and>
     (\<exists>ec as. incoming (pw_socket w) = Closed ec # as \<and> ec \<noteq> Operation_aborted)"

lemma stuck_round:
  assumes "stuck w" "ps \<noteq> []"
  shows "\<exists>w'. collect (fst (start_workers ps [w])) ps fs = (Inr (ps, fs), [w']) \<and> stuck w'"
proof -
  obtain i ps' where ps: "ps = i # ps'" using assms(2) by (cases ps) auto
  obtain ec as where inc: "incoming (pw_socket w) = Closed ec # as" "ec \<noteq> Operation_aborted"
    using assms(1) by (auto simp: stuck_def)
  let ?w0 = "w\<lparr>pw_complete := False, pw_thread := Some (Job_download i)\<rparr>"
  let ?w1 = "w\<lparr>pw_complete := False, pw_thread := None, pw_buffer := []\<rparr>"
  have start: "fst (start_workers ps [w]) = [?w0]"
    using assms(1) ps
    by (simp add: start_workers_def get_some_indexes_def download_piece_async_def started_def stuck_def)
  have rd: "do_read 5 (pw_socket w) = (Inl ec, pw_socket w)"
    using assms(1) inc by (simp add: stuck_def do_read_receive)
  have "do_download_piece i (?w0\<lparr>pw_thread := None\<rparr>) = (Inl connection_error, ?w1)"
    using assms(1) rd inc(2)
    by (simp add: do_download_piece_def choose_piece_def wait_have_def net_read_def stuck_def
        MSG_HEADER_SIZE_def act_defs)
  then have "wait_piece_transfer ?w0 = (Inr False, ?w1\<lparr>pw_exception := Some connection_error\<rparr>)"
    using wait_piece_transfer_job [of ?w0 i] by (simp add: connection_error_def)
  then have "collect [?w0] ps fs = (Inr (ps, fs), [?w1\<lparr>pw_exception := Some connection_error\<rparr>])"
    using assms(1) by (simp add: started_def stuck_def)
  moreover have "stuck (?w1\<lparr>pw_exception := Some connection_error\<rparr>)"
    using assms(1) by (simp add: stuck_def started_def)
  ultimately show ?thesis using start by auto
qed

lemma download_rounds_stuck:
  assumes "stuck w" "ps \<noteq> []"
  shows "download_rounds ps [w] fs = None"
proof (rule ccontr)
  assume "download_rounds ps [w] fs \<noteq> None"
  then obtain r where "download_rounds ps [w] fs = Some r" by blast
  moreover have "download_rounds ps ws fs = Some r \<Longrightarrow> \<not> (\<exists>w. ws = [w] \<and> stuck w \<and> ps \<noteq> [])" for ps ws fs r
  proof (rule download_rounds.raw_induct [where P = "\<lambda>ps ws fs r. \<not> (\<exists>w. ws = [w] \<and> stuck w \<and> ps \<noteq> [])"])
    fix dr :: "nat list \<Rightarrow> piece_worker list \<Rightarrow> files \<Rightarrow> files result option" and ps ws fs r
    assume ih: "\<And>ps ws fs r. dr ps ws fs = Some r \<Longrightarrow> \<not> (\<exists>w. ws = [w] \<and> stuck w \<and> ps \<noteq> [])"
      and step: "(if ps = [] then Some (Inr fs)
        else case collect (fst (start_workers ps ws)) ps fs of
               (Inl e, _) \<Rightarrow> Some (Inl e) | (Inr (ps, fs), ws) \<Rightarrow> dr ps ws fs) = Some r"
    show "\<not> (\<exists>w. ws = [w] \<and> stuck w \<and> ps \<noteq> [])"
    proof
      assume "\<exists>w. ws = [w] \<and> stuck w \<and> ps \<noteq> []"
      then obtain w where w: "ws = [w]" "stuck w" "ps \<noteq> []" by blast
      obtain w' where c: "collect (fst (start_workers ps [w])) ps fs = (Inr (ps, fs), [w'])" "stuck w'"
        using stuck_round [OF w(2,3)] by blast
      with step w have "dr ps [w'] fs = Some r" by simp
      from ih [OF this] c(2) w(3) show False by blast
    qed
  qed
  ultimately show False using assms by blast
qed

text \<open>
  A have-mode worker that times out before its first piece reports piece 0, which is taken off
  the list with no bytes.
\<close>

lemma collect_have_timeout:
  assumes "pw_have_mode w" "pw_have_piece_idx w = None" "\<not> started w" "is_open (pw_socket w)"
    and "incoming (pw_socket w) = Deadline # as" "pw_last_piece_idx w = 0" "0 \<in> set ps"
  shows "\<exists>w'. collect (fst (start_workers ps [w])) ps fs = (Inr (remove1 0 ps, fs(0 \<mapsto> [])), [w'])"
proof -
  obtain i ps' where ps: "ps = i # ps'" using assms(7) by (cases ps) auto
  let ?w0 = "w\<lparr>pw_complete := False, pw_thread := Some (Job_download i)\<rparr>"
  let ?w1 = "w\<lparr>pw_complete := False, pw_thread := None\<rparr>"
  have start: "fst (start_workers ps [w]) = [?w0]"
    using assms(3) ps
    by (simp add: start_workers_def get_some_indexes_def download_piece_async_def started_def)
  have "do_download_piece i ?w1 =
      (Inr (), ?w1\<lparr>pw_buffer := [], pw_socket := (pw_socket w)\<lparr>incoming := as\<rparr>\<rparr>)"
    using do_download_have_timeout [of ?w1 as i] assms(1,2,4,5) by simp
  then have "wait_piece_transfer ?w0 = (Inr True, ?w1\<lparr>pw_buffer := [],
      pw_socket := (pw_socket w)\<lparr>incoming := as\<rparr>, pw_complete := True\<rparr>)"
    using wait_piece_transfer_job [of ?w0 i] by simp
  then show ?thesis
    using start assms(6,7) by (simp add: started_def pop_piece_def)
qed

section \<open>Setting up\<close>

lemma assign_length: "length (fst (assign is ws)) = length ws"
  by (induction "is" ws rule: assign.induct) (auto split: prod.splits)

lemma assign_meta: "map pw_meta (fst (assign is ws)) = map pw_meta ws"
  by (induction "is" ws rule: assign.induct) (auto simp: download_piece_async_def split: prod.splits)

lemma setup_workers_connected:
  "setup_workers env meta peers ws = Inr ws' \<Longrightarrow> list_all pw_connected ws \<Longrightarrow>
     list_all pw_connected ws' \<and> length ws' \<le> length ws + length peers"
proof (induction env meta peers ws rule: setup_workers.induct)
  case (2 env meta peer peers workers)
  from "2.prems"(1) obtain ip port p w0 ok w where s: "parse_ip_port peer = Inr (ip, port)"
    "stoull port = Inr p"
    "new_worker (env_is_address env) (env_peer_at env) meta ip p True [] = Inr w0"
    "wait_connection_established (snd (check_connection_async w0)) = (Inr ok, w)"
    "setup_workers env meta peers (if ok then workers @ [w] else workers) = Inr ws'"
    by (auto split: sum.splits prod.splits)
  have "ok = pw_connected w"
    using s(4) by (auto simp: wait_connection_established_def act_bind_Inr)
  then have "list_all pw_connected (if ok then workers @ [w] else workers)"
    using "2.prems"(2) by simp
  from "2.IH" [OF s(1) refl s(2) s(3) s(4) [symmetric] refl s(5) this]
  show ?case by (auto split: if_splits)
qed simp

lemma wait_connection:
  assumes "pw_thread w = None"
  shows "wait_connection_established (snd (check_connection_async w)) =
    (case connect_to_peer w of
       (Inr _, w') \<Rightarrow> (Inr (pw_connected w'), w')
     | (Inl e, w') \<Rightarrow> if is_std_exception e then (Inr (pw_connected w'), w'\<lparr>pw_exception := Some e\<rparr>)
                     else (Inl e, w'))"
proof -
  have w: "w\<lparr>pw_thread := None\<rparr> = w" using assms by simp
  obtain r w' where c: "connect_to_peer w = (r, w')" by fastforce
  then have "connect_to_peer (w\<lparr>pw_thread := None\<rparr>) = (r, w')" by (simp only: w)
  with c show ?thesis
    using assms
    by (cases r) (auto simp: wait_connection_established_def check_connection_async_def
        join_thread_def run_job_def act_bind_def Let_def split: unit.splits)
qed

lemma setup_workers_frame:
  "setup_workers env meta peers ws = Inr ws' \<Longrightarrow>
     \<forall>w \<in> set ws. pw_owned w \<and> pw_meta w = meta \<and> pw_thread w = None \<Longrightarrow>
     \<forall>w \<in> set ws'. pw_owned w \<and> pw_meta w = meta \<and> pw_thread w = None"
proof (induction env meta peers ws rule: setup_workers.induct)
  case (2 env meta peer peers workers)
  from "2.prems"(1) obtain ip port p w0 ok w where s: "parse_ip_port peer = Inr (ip, port)"
    "stoull port = Inr p"
    "new_worker (env_is_address env) (env_peer_at env) meta ip p True [] = Inr w0"
    "wait_connection_established (snd (check_connection_async w0)) = (Inr ok, w)"
    "setup_workers env meta peers (if ok then workers @ [w] else workers) = Inr ws'"
    by (auto split: sum.splits prod.splits)
  have "framed w0 (snd (connect_to_peer w0))" using keeps_connect by (simp add: keeps_def)
  moreover have w0: "pw_owned w0" "pw_meta w0 = meta" "pw_thread w0 = None"
    using s(3) by (auto simp: new_worker_def split: if_splits)
  moreover obtain r w1 where "connect_to_peer w0 = (r, w1)" by fastforce
  ultimately have "pw_owned w \<and> pw_meta w = meta \<and> pw_thread w = None"
    using s(4) unfolding wait_connection [OF w0(3)]
    by (cases r) (auto simp: framed_def split: if_splits)
  then have "\<forall>w \<in> set (if ok then workers @ [w] else workers). pw_owned w \<and> pw_meta w = meta \<and> pw_thread w = None"
    using "2.prems"(2) by simp
  from "2.IH" [OF s(1) refl s(2) s(3) s(4) [symmetric] refl s(5) this] show ?case .
qed simp

section \<open>Every piece has its length\<close>

text \<open>A worker in normal mode that is idle or has a download to be waited for.\<close>

definition fit :: "metainfo \<Rightarrow> piece_worker \<Rightarrow> bool" where
  "fit meta w \<longleftrightarrow> normal_mode w \<and> pw_owned w \<and> pw_meta w = meta \<and>
     (pw_thread w = None \<or> (\<exists>i. pw_thread w = Some (Job_download i)) \<and> \<not> pw_complete w)"

lemma fit_async: "fit meta w \<Longrightarrow> fit meta (snd (download_piece_async i w))"
  by (auto simp: fit_def download_piece_async_def normal_mode_def)

lemma fit_assign: "list_all (fit meta) ws \<Longrightarrow> list_all (fit meta) (fst (assign is ws))"
  by (induction "is" ws rule: assign.induct) (auto split: prod.splits intro: fit_async)

lemma fit_wait:
  assumes "fit meta w" "started w" "metainfo_pieces meta = Inr hs"
    and "wait_piece_transfer w = (Inr True, w')"
  shows "fit meta w' \<and> sized meta (length hs) (pw_last_piece_idx w') (pw_buffer w')"
proof -
  obtain i where i: "pw_thread w = Some (Job_download i)" "\<not> pw_complete w"
    using assms(1,2) by (auto simp: fit_def started_def)
  let ?w = "w\<lparr>pw_thread := None\<rparr>"
  obtain w1 where run: "do_download_piece i ?w = (Inr (), w1)" and w': "w' = w1\<lparr>pw_complete := True\<rparr>"
    using assms(4) unfolding wait_piece_transfer_job [OF i] by (auto split: prod.splits sum.splits if_splits)
  have "normal_mode ?w" "pw_owned ?w" "metainfo_pieces (pw_meta ?w) = Inr hs"
    using assms(1,3) by (simp_all add: fit_def normal_mode_def)
  from do_download_sized [OF this run] framed_do_download_piece [of ?w i] assms(1) run w'
  show ?thesis by (simp add: fit_def normal_mode_def framed_def)
qed

lemma fit_wait_failed:
  assumes "fit meta w" "started w" "wait_piece_transfer w = (Inr False, w')"
  shows "\<not> pw_have_mode w'"
proof -
  obtain i where i: "pw_thread w = Some (Job_download i)" "\<not> pw_complete w"
    using assms(1,2) by (auto simp: fit_def started_def)
  let ?w = "w\<lparr>pw_thread := None\<rparr>"
  have "normal_mode ?w" using assms(1) by (simp add: fit_def normal_mode_def)
  then have "pw_have_mode (snd (do_download_piece i ?w)) = pw_have_mode ?w"
    using download_loop_have_mode [of i _ 0 "w\<lparr>pw_thread := None, pw_buffer := []\<rparr>"]
    by (auto simp: do_download_piece_def choose_piece_def normal_mode_def download_piece_body_def
        connect_if_needed_def act_defs split: prod.split sum.split)
      (metis snd_conv)+
  then show ?thesis
    using assms(1,3) unfolding wait_piece_transfer_job [OF i]
    by (auto simp: fit_def normal_mode_def split: prod.splits sum.splits if_splits)
qed

text \<open>The pieces that are not on the list any more have a file of the right length.\<close>

definition stored :: "metainfo \<Rightarrow> nat \<Rightarrow> nat list \<Rightarrow> files \<Rightarrow> bool" where
  "stored meta n ps fs \<longleftrightarrow> (\<forall>i \<in> {0..<n} - set ps. \<exists>c. fs i = Some c \<and> sized meta n i c)"

lemma stored_pop:
  "stored meta n ps fs \<Longrightarrow> distinct ps \<Longrightarrow> sized meta n i c \<Longrightarrow> stored meta n (remove1 i ps) (fs(i \<mapsto> c))"
  by (auto simp: stored_def)

lemma collect_sized:
  "collect ws ps fs = (Inr (ps', fs'), ws') \<Longrightarrow> list_all (fit meta) ws \<Longrightarrow> distinct ps \<Longrightarrow>
     metainfo_pieces meta = Inr hs \<Longrightarrow> stored meta (length hs) ps fs \<Longrightarrow>
     list_all (fit meta) ws' \<and> stored meta (length hs) ps' fs'"
proof (induction ws ps fs arbitrary: ws' rule: collect.induct)
  case (2 w workers pieces files)
  show ?case
  proof (cases "started w")
    case False
    with 2 show ?thesis by (auto split: prod.splits)
  next
    case True
    have not_have: "\<not> pw_have_mode w1" if "wait_piece_transfer w = (Inr False, w1)" for w1
      using fit_wait_failed [of meta w w1] that True "2.prems"(2) by simp
    obtain w1 pieces1 ws1 where s: "wait_piece_transfer w = (Inr True, w1)"
      "pop_piece pieces (pw_last_piece_idx w1) = Inr pieces1" and
      c: "collect workers pieces1 (write_piece (pw_buffer w1) (pw_last_piece_idx w1) files) = (Inr (ps', fs'), ws1)"
      "ws' = w1 # ws1" 
      using "2.prems"(1) True not_have by (auto split: prod.splits sum.splits if_splits)
    have pop: "distinct pieces1" "pieces1 = remove1 (pw_last_piece_idx w1) pieces"
      using s(2) "2.prems"(3) by (auto simp: pop_piece_Inr)
    have w1: "fit meta w1" "sized meta (length hs) (pw_last_piece_idx w1) (pw_buffer w1)"
      using fit_wait [of meta w hs w1] s(1) True "2.prems"(2,4) by simp_all
    have st: "stored meta (length hs) pieces1 (write_piece (pw_buffer w1) (pw_last_piece_idx w1) files)"
      using stored_pop [OF "2.prems"(5,3) w1(2)] pop(2) by simp
    have "list_all (fit meta) workers" using "2.prems"(2) by simp
    from "2.IH"(3) [OF _ s(1) [symmetric] refl _ s(2) c(1) this pop(1) "2.prems"(4) st] True
    show ?thesis using w1(1) c(2) by simp
  qed
qed auto


lemma start_workers_fit: "list_all (fit meta) ws \<Longrightarrow> list_all (fit meta) (fst (start_workers ps ws))"
  by (simp add: start_workers_def fit_assign)

lemma download_rounds_sized:
  assumes run: "download_rounds ps ws fs = Some (Inr fs')" and ps: "distinct ps" "{0..<length hs} \<subseteq> set ps"
    and ws: "list_all (fit meta) ws" and hs: "metainfo_pieces meta = Inr hs"
  shows "stored meta (length hs) [] fs'"
proof -
  let ?P = "\<lambda>ps1 ws1 fs1. distinct ps1 \<and> list_all (fit meta) ws1 \<and> stored meta (length hs) ps1 fs1"
  have "?P ps ws fs" using ps ws by (auto simp: stored_def)
  moreover have "?P ps2 ws2 fs2" if "?P ps1 ws1 fs1"
    "collect (fst (start_workers ps1 ws1)) ps1 fs1 = (Inr (ps2, fs2), ws2)" for ps1 ws1 fs1 ps2 ws2 fs2
    using collect_progress [OF that(2)] collect_sized [OF that(2) start_workers_fit _ hs] that(1)
    by (simp add: progress_made_def)
  ultimately show ?thesis using download_rounds_invariant [of ps ws fs fs' ?P, OF run] by blast
qed

section \<open>Properties\<close>

text \<open>C39: a worker in have mode whose connection has failed fails in every round and is passed over in
  every round: when it is the only one, the download of the file does not return.\<close>

theorem failed_have_worker_never_returns:
  assumes "stuck w" "ps \<noteq> []"
  shows "download_rounds ps [w] files = None"
  by (rule download_rounds_stuck [OF assms])

definition have_worker :: "arrival list \<Rightarrow> piece_worker" where
  "have_worker as =
     (example_worker \<lparr>is_open = True, incoming = as, writes = [], outgoing = []\<rparr>)\<lparr>pw_have_mode := True\<rparr>"

theorem failed_have_worker_never_returns_witness:
  "download_rounds [0] [have_worker [Closed Eof]] (\<lambda>_. None) = None"
  by (rule failed_have_worker_never_returns) (simp_all add: stuck_def have_worker_def example_worker_def started_def)



end
