(* ===== verification/Curl.thy ===== *)
theory Curl
  imports Prelude Digits
begin

text \<open>
  \<open>src/src/misc/url.hpp\<close> and \<open>src/src/misc/curl.cpp\<close>: the wrappers of libcurl. libcurl itself is
  not in the repository. Its URL parser is a parameter, the record \<open>url_api\<close> of its three
  functions over a handle type; a request is what \<open>curl_easy_perform\<close> delivers, the blocks
  it passes to the write callback and a code; a socket is the results of the calls of
  \<open>curl_easy_recv\<close> in order.
\<close>

datatype curl_code =
    CURLE_OK
  | CURLE_AGAIN
  | CURLE_OTHER nat

section \<open>URLs\<close>

datatype url_part = CURLUPART_URL | CURLUPART_QUERY

datatype url_flag = CURLU_NO_DEFAULT_PORT | CURLU_URLENCODE | CURLU_APPENDQUERY

record 'u url_api =
  curl_url :: 'u
  curl_url_set :: "'u \<Rightarrow> url_part \<Rightarrow> string \<Rightarrow> url_flag list \<Rightarrow> bool \<times> 'u"
  curl_url_get :: "'u \<Rightarrow> url_part \<Rightarrow> url_flag list \<Rightarrow> string option"

text \<open>libcurl takes a C string: what it is given ends before the first NUL character.\<close>

definition c_string :: "string \<Rightarrow> string" where
  "c_string s = takeWhile (\<lambda>c. c \<noteq> CHR 0x00) s"

definition url_set :: "'u url_api \<Rightarrow> 'u \<Rightarrow> url_part \<Rightarrow> string \<Rightarrow> url_flag list \<Rightarrow> 'u result" where
  "url_set api h what part flags =
     (case curl_url_set api h what (c_string part) flags of
        (ok, h') \<Rightarrow> if ok then Inr h'
                    else Inl (Invalid_argument ''Can not set URL part with provided argument''))"

definition url_get :: "'u url_api \<Rightarrow> 'u \<Rightarrow> url_part \<Rightarrow> url_flag list \<Rightarrow> string result" where
  "url_get api h what flags =
     (case curl_url_get api h what flags of
        None \<Rightarrow> Inl (Invalid_argument ''Can not get URL part'')
      | Some s \<Rightarrow> Inr (c_string s))"

definition url_base :: "'u url_api \<Rightarrow> 'u \<Rightarrow> string \<Rightarrow> 'u result" where
  "url_base api h base = url_set api h CURLUPART_URL base []"

definition url_query :: "'u url_api \<Rightarrow> string \<Rightarrow> string \<Rightarrow> 'u \<Rightarrow> 'u result" where
  "url_query api name param h =
     url_set api h CURLUPART_QUERY (name @ ''='' @ param) [CURLU_APPENDQUERY]"

text \<open>
  The specialisation for bytes formats the bytes into a string and passes its \<open>data()\<close>, a
  \<open>const char *\<close>, as a \<open>string_view\<close>: the view already ends before the first NUL.
\<close>

definition url_query_bytes :: "'u url_api \<Rightarrow> string \<Rightarrow> bytes \<Rightarrow> 'u \<Rightarrow> 'u result" where
  "url_query_bytes api name param h =
     url_set api h CURLUPART_QUERY (c_string (name @ ''='' @ string_of_bytes param))
       [CURLU_APPENDQUERY, CURLU_URLENCODE]"

definition url_to_string :: "'u url_api \<Rightarrow> 'u \<Rightarrow> string result" where
  "url_to_string api h = url_get api h CURLUPART_URL [CURLU_NO_DEFAULT_PORT]"

lemma c_string_idem [simp]: "c_string (c_string s) = c_string s"
proof -
  have "takeWhile p (takeWhile p s) = takeWhile p s" for p :: "char \<Rightarrow> bool"
    by (rule takeWhile_eq_all_conv [THEN iffD2]) (auto dest: set_takeWhileD)
  then show ?thesis by (simp add: c_string_def)
qed

lemma c_string_id: "CHR 0x00 \<notin> set s \<Longrightarrow> c_string s = s"
  by (auto simp: c_string_def takeWhile_eq_all_conv)

lemma c_string_eq_iff: "c_string s = s \<longleftrightarrow> CHR 0x00 \<notin> set s"
  by (auto simp: c_string_def takeWhile_eq_all_conv)

lemma c_string_append: "CHR 0x00 \<notin> set s \<Longrightarrow> c_string (s @ t) = s @ c_string t"
  by (induction s) (auto simp: c_string_def)

lemma char_of_byte_0: "char_of_byte b = CHR 0x00 \<longleftrightarrow> b = 0"
proof
  assume "char_of_byte b = CHR 0x00"
  then have "byte_of_char (char_of_byte b) = byte_of_char (CHR 0x00)" by simp
  moreover have "byte_of_char (CHR 0x00) = 0" by code_simp
  ultimately show "b = 0" by simp
next
  have "char_of_byte 0 = CHR 0x00" by code_simp
  then show "b = 0 \<Longrightarrow> char_of_byte b = CHR 0x00" by simp
qed

lemma c_string_of_bytes: "c_string (string_of_bytes bs) = string_of_bytes (takeWhile (\<lambda>b. b \<noteq> 0) bs)"
  by (induction bs) (auto simp: c_string_def char_of_byte_0)

section \<open>Requests\<close>

definition write_callback :: "bytes \<Rightarrow> bytes \<Rightarrow> bytes \<times> nat" where
  "write_callback block userdata = (userdata @ block, length block)"

definition curl_get :: "(string \<Rightarrow> curl_code \<times> bytes list) \<Rightarrow> string \<Rightarrow> curl_code \<times> bytes" where
  "curl_get http url =
     (case http (c_string url) of
        (code, blocks) \<Rightarrow> (code, foldl (\<lambda>data block. fst (write_callback block data)) [] blocks))"

lemma curl_get_concat: "curl_get http url = (fst (http (c_string url)), concat (snd (http (c_string url))))"
proof -
  have "foldl (\<lambda>data block. fst (write_callback block data)) acc blocks = acc @ concat blocks"
    for acc blocks
    by (induction blocks arbitrary: acc) (simp_all add: write_callback_def)
  then show ?thesis by (simp add: curl_get_def split: prod.split)
qed

section \<open>A transfer over a raw connection\<close>

text \<open>
  \<open>tcp_transfer\<close> connects, sends the message once (what \<open>sent\<close> says is not looked at) and
  repeats \<open>curl_easy_recv\<close> while it answers \<open>CURLE_AGAIN\<close>, for ever if need be. The buffer has
  256 bytes, zero at first, and is returned whole: the number of bytes received is not.
\<close>

record connection =
  perform_code :: curl_code
  send_code :: curl_code
  recv_call :: "nat \<Rightarrow> curl_code \<times> bytes"

definition RECV_SIZE :: nat where
  "RECV_SIZE = 256"

partial_function (option) recv_loop :: "(nat \<Rightarrow> curl_code \<times> bytes) \<Rightarrow> nat \<Rightarrow> (curl_code \<times> bytes) option"
where
  "recv_loop recv i =
     (case recv i of
        (code, received) \<Rightarrow> if code = CURLE_AGAIN then recv_loop recv (i + 1) else Some (code, received))"

definition fill_buffer :: "bytes \<Rightarrow> bytes" where
  "fill_buffer received = take RECV_SIZE (received @ drop (length received) (replicate RECV_SIZE 0))"

definition curl_tcp_transfer :: "connection \<Rightarrow> (curl_code \<times> bytes) option" where
  "curl_tcp_transfer c =
     (if perform_code c \<noteq> CURLE_OK then Some (perform_code c, [])
      else if send_code c \<noteq> CURLE_OK then Some (send_code c, [])
      else (case recv_loop (recv_call c) 0 of
              None \<Rightarrow> None
            | Some (code, received) \<Rightarrow> Some (code, fill_buffer received)))"

lemma recv_loop_step:
  "fst (recv i) = CURLE_AGAIN \<Longrightarrow> recv_loop recv i = recv_loop recv (i + 1)"
  "fst (recv i) \<noteq> CURLE_AGAIN \<Longrightarrow> recv_loop recv i = Some (recv i)"
  by (cases "recv i", subst recv_loop.simps, simp)+

text \<open>The loop ends at the first answer other than \<open>CURLE_AGAIN\<close>, if there is one.\<close>

lemma recv_loop_first:
  assumes "fst (recv (i + n)) \<noteq> CURLE_AGAIN" "\<forall>k < n. fst (recv (i + k)) = CURLE_AGAIN"
  shows "recv_loop recv i = Some (recv (i + n))"
  using assms
proof (induction n arbitrary: i)
  case (Suc n)
  from Suc.prems(2) have "fst (recv i) = CURLE_AGAIN" by (auto dest: spec [of _ 0])
  moreover have "\<forall>k < n. fst (recv (i + 1 + k)) = CURLE_AGAIN"
    using Suc.prems(2) by (auto dest: spec [of _ "Suc _"])
  ultimately show ?case
    using Suc.IH [of "i + 1"] Suc.prems(1) by (simp add: recv_loop_step)
qed (simp add: recv_loop_step)

lemma recv_loop_result:
  assumes "recv_loop recv i = Some r"
  shows "fst r \<noteq> CURLE_AGAIN \<and> (\<exists>n. recv n = r)"
proof (rule recv_loop.raw_induct [where P = "\<lambda>recv i r. fst r \<noteq> CURLE_AGAIN \<and> (\<exists>n. recv n = r)"])
  fix rl :: "(nat \<Rightarrow> curl_code \<times> bytes) \<Rightarrow> nat \<Rightarrow> (curl_code \<times> bytes) option"
    and recv :: "nat \<Rightarrow> curl_code \<times> bytes" and i r
  assume ih: "\<And>recv i r. rl recv i = Some r \<Longrightarrow> fst r \<noteq> CURLE_AGAIN \<and> (\<exists>n. recv n = r)"
    and step: "(case recv i of (code, received) \<Rightarrow>
      if code = CURLE_AGAIN then rl recv (i + 1) else Some (code, received)) = Some r"
  obtain code received where c: "recv i = (code, received)" by fastforce
  show "fst r \<noteq> CURLE_AGAIN \<and> (\<exists>n. recv n = r)"
  proof (cases "code = CURLE_AGAIN")
    case True
    then have "rl recv (i + 1) = Some r" using step c by simp
    then show ?thesis by (rule ih)
  next
    case False
    with step c have "r = recv i" by simp
    with False c show ?thesis by auto
  qed
qed (rule assms)

lemma recv_loop_returns_iff: "(\<exists>r. recv_loop recv 0 = Some r) \<longleftrightarrow> (\<exists>n. fst (recv n) \<noteq> CURLE_AGAIN)"
proof
  assume "\<exists>r. recv_loop recv 0 = Some r"
  then obtain r where "recv_loop recv 0 = Some r" by blast
  from recv_loop_result [OF this] show "\<exists>n. fst (recv n) \<noteq> CURLE_AGAIN" by blast
next
  let ?P = "\<lambda>n. fst (recv n) \<noteq> CURLE_AGAIN"
  assume "\<exists>n. ?P n"
  then obtain n where "?P n" "\<forall>k < n. \<not> ?P k"
    using exists_least_iff [of ?P] by blast
  then have "recv_loop recv 0 = Some (recv n)"
    using recv_loop_first [of recv 0 n] by simp
  then show "\<exists>r. recv_loop recv 0 = Some r" by blast
qed

lemma length_fill_buffer [simp]: "length (fill_buffer received) = 256"
  by (simp add: fill_buffer_def RECV_SIZE_def)

lemma fill_buffer_nth:
  "i < 256 \<Longrightarrow> fill_buffer received ! i = (if i < length received then received ! i else 0)"
  by (simp add: fill_buffer_def RECV_SIZE_def nth_append)

lemma fill_buffer_prefix: "n \<le> length received \<Longrightarrow> n \<le> 256 \<Longrightarrow> take n (fill_buffer received) = take n received"
  by (simp add: fill_buffer_def RECV_SIZE_def)

section \<open>Properties\<close>

text \<open>C37: the transfer over a raw connection returns exactly when connecting or sending fails or some
  receive answers something other than "again"; with a peer that never answers it does not
  return. What it then returns is a buffer of 256 bytes, whatever arrived.\<close>

theorem curl_tcp_transfer_returns:
  "((\<exists>r. curl_tcp_transfer c = Some r) \<longleftrightarrow>
      (perform_code c = CURLE_OK \<and> send_code c = CURLE_OK \<longrightarrow> (\<exists>n. fst (recv_call c n) \<noteq> CURLE_AGAIN))) \<and>
   (\<forall>code data. curl_tcp_transfer c = Some (code, data) \<and> perform_code c = CURLE_OK \<and> send_code c = CURLE_OK
      \<longrightarrow> length data = 256)"
  using recv_loop_returns_iff [of "recv_call c"]
  by (auto simp: curl_tcp_transfer_def split: option.splits prod.splits if_splits)

theorem curl_tcp_transfer_returns_witness:
  "\<exists>r. curl_tcp_transfer \<lparr>perform_code = CURLE_OK, send_code = CURLE_OK,
      recv_call = (\<lambda>n. if n < 3 then (CURLE_AGAIN, []) else (CURLE_OK, [1]))\<rparr> = Some r"
  by (subst curl_tcp_transfer_returns [THEN conjunct1]) (auto intro!: exI [of _ 3])

text \<open>A hash in the query of the tracker is cut at its first zero byte, before libcurl sees it; it
  arrives whole exactly when it has none.\<close>

theorem query_bytes_cut:
  assumes "CHR 0x00 \<notin> set name"
  shows "url_query_bytes api name bs h =
      url_query_bytes api name (takeWhile (\<lambda>b. b \<noteq> 0) bs) h \<and>
    (c_string (string_of_bytes bs) = string_of_bytes bs \<longleftrightarrow> 0 \<notin> set bs)"
proof
  have name: "CHR 0x00 \<notin> set (name @ ''='')" using assms by simp
  have "c_string ((name @ ''='') @ string_of_bytes bs) =
      c_string ((name @ ''='') @ string_of_bytes (takeWhile (\<lambda>b. b \<noteq> 0) bs))"
    by (simp only: c_string_append [OF name] c_string_of_bytes takeWhile_idem)
  then show "url_query_bytes api name bs h = url_query_bytes api name (takeWhile (\<lambda>b. b \<noteq> 0) bs) h"
    by (simp add: url_query_bytes_def)
  show "c_string (string_of_bytes bs) = string_of_bytes bs \<longleftrightarrow> 0 \<notin> set bs"
    by (auto simp: c_string_eq_iff char_of_byte_0 image_iff eq_commute [of "CHR 0x00"])
qed

theorem query_bytes_cut_witness:
  "c_string (string_of_bytes [65, 0, 66]) \<noteq> string_of_bytes [65, 0, 66]"
proof -
  have "CHR 0x00 \<notin> set ''info_hash''" by simp
  from query_bytes_cut [OF this, THEN conjunct2, of "[65, 0, 66]"] show ?thesis by simp
qed

end
