(* ===== verification/Client.thy ===== *)
theory Client
  imports Download_File Curl
begin

text \<open>
  \<open>src/src/client/client.cpp\<close>: asking the tracker for peers, shaking hands with one peer, and
  downloading one piece. The tracker is reached through libcurl (the parameters of the theory
  \<open>Curl\<close>): \<open>http\<close> is what a request to a URL delivers, \<open>connect_to\<close> the raw connection to an
  address.
\<close>

section \<open>The tracker\<close>

definition announce_url :: "'u url_api \<Rightarrow> metainfo \<Rightarrow> string result" where
  "announce_url api meta =
     result_bind (url_base api (curl_url api) (mi_announce meta)) (\<lambda>url.
     result_bind (url_query api ''peer_id'' PEER_ID url) (\<lambda>url.
     result_bind (url_query api ''port'' (dec_of_int 6881) url) (\<lambda>url.
     result_bind (url_query api ''uploaded'' (dec_of_int 0) url) (\<lambda>url.
     result_bind (url_query api ''downloaded'' (dec_of_int 0) url) (\<lambda>url.
     result_bind (url_query api ''left'' (dec_of_int (mi_length meta)) url) (\<lambda>url.
     result_bind (url_query api ''compact'' (dec_of_int 1) url) (\<lambda>url.
     result_bind (metainfo_hash meta) (\<lambda>hash.
     result_bind (sha1_hash_to_bytes hash) (\<lambda>hash_bytes.
     result_bind (url_query_bytes api ''info_hash'' hash_bytes url) (\<lambda>url.
     url_to_string api url))))))))))"

definition peers_of_response :: "string \<Rightarrow> string list result" where
  "peers_of_response response_str =
     result_bind (decode_bencoded_value response_str) (\<lambda>decoded_result.
       case decoded_result of
         None \<Rightarrow> Inl (Runtime_error ''Bad response from server'')
       | Some (_, result_json) \<Rightarrow>
           if contains ''failure reason'' result_json
           then result_bind (json_value get_json ''failure reason'' Json_null result_json) (\<lambda>reason.
                result_bind (json_dump (- 1) (CHR '' '') False Strict reason) (\<lambda>_.
                Inl (Runtime_error ''Error while fetching peers'')))
           else result_bind (json_value get_binary ''peers'' [] result_json) decode_peers)"

definition get_peers ::
  "'u url_api \<Rightarrow> (string \<Rightarrow> curl_code \<times> bytes list) \<Rightarrow> metainfo \<Rightarrow> string list result" where
  "get_peers api http meta =
     result_bind (announce_url api meta) (\<lambda>url.
       case curl_get http url of
         (code, response) \<Rightarrow>
           if code \<noteq> CURLE_OK then Inl (Runtime_error ''Error while fetching peers: code'')
           else peers_of_response (string_of_bytes response))"

text \<open>What a tracker's answer gives, by the kind of value under \<open>peers\<close>.\<close>

lemma peers_of_response_compact:
  assumes "decode_bencoded_value s = Inr (Some (enc, Json_object m))"
    and "object_find m ''failure reason'' = None"
    and "object_find m ''peers'' = Some (Json_binary bs)" "length bs mod 6 = 0"
  shows "peers_of_response s = Inr (map peer_text (chunks 6 bs))"
  using assms by (simp add: peers_of_response_def json_value_object get_binary_def decode_peers_text)

lemma peers_of_response_text:
  assumes "decode_bencoded_value s = Inr (Some (enc, Json_object m))"
    and "object_find m ''failure reason'' = None"
    and "object_find m ''peers'' = Some (Json_string t)"
  shows "peers_of_response s = Inl (Json_type_error 302)"
  using assms by (simp add: peers_of_response_def json_value_object get_binary_def)

lemma decode_peers_error: "decode_peers bs = Inl e \<Longrightarrow> is_runtime_error e"
  using decode_peers_text [of bs]
  by (cases "length bs mod 6 = 0") (auto simp: decode_peers_def PEERS_CHUNK_SIZE_BYTES_def)

lemma peers_of_response_error:
  assumes "peers_of_response s = Inl e" "int (length s) < 2 ^ 63"
  shows "is_runtime_error e \<or> e = Json_type_error 302 \<or> e = Json_type_error 306"
proof (cases "decode_bencoded_value s")
  case (Inl e')
  with assms(1) decode_error(1) [OF Inl] show ?thesis by (simp add: peers_of_response_def)
next
  case (Inr d)
  show ?thesis
  proof (cases d)
    case None
    with Inr assms(1) show ?thesis by (auto simp: peers_of_response_def)
  next
    case (Some ej)
    obtain enc j where d: "d = Some (enc, j)" using Some by (cases ej) auto
    have "bencodable j" using decode_bencodable(1) [OF assms(2), of enc j] Inr d by simp
    have reason: False if "dump False r = Inl e''" "j = Json_object m"
      "object_find m ''failure reason'' = Some r" for r e'' m
    proof -
      have "bencodable r"
        using object_find_bencodable [OF _ that(3)] \<open>bencodable j\<close> that(2) by simp
      with dump_bencodable [of r False] that(1) show False by auto
    qed
    show ?thesis
      using assms(1) Inr d reason
      by (auto simp: peers_of_response_def result_bind_Inl contains_iff json_value_object get_json_def
          split: if_splits dest: json_value_errors(4) decode_peers_error)
  qed
qed

section \<open>A handshake\<close>

text \<open>\<open>None\<close> when the transfer does not return.\<close>

definition client_handshake ::
  "(string \<Rightarrow> connection) \<Rightarrow> string \<Rightarrow> string \<Rightarrow> metainfo \<Rightarrow> string result option" where
  "client_handshake connect_to ip port meta =
     (case metainfo_hash meta of
        Inl e \<Rightarrow> Some (Inl e)
      | Inr hash \<Rightarrow>
          (case pack_handshake (peer_handshake hash PEER_ID) of
             Inl e \<Rightarrow> Some (Inl e)
           | Inr msg \<Rightarrow>
               (case curl_tcp_transfer (connect_to (ip @ '':'' @ port)) of
                  None \<Rightarrow> None
                | Some (code, data) \<Rightarrow>
                    if code \<noteq> CURLE_OK
                    then Some (Inl (Runtime_error ''Error while peer handshake: code''))
                    else Some (result_bind (unpack_handshake (span_of data)) (\<lambda>answer.
                           Inr (hs_peer_id answer))))))"

text \<open>
  The answer is looked for in a buffer of 256 bytes whatever was received, so a short answer is
  never noticed, and the first byte can point past the buffer.
\<close>

lemma unpack_handshake_buffer:
  "unpack_handshake (span_of (fill_buffer recvd)) =
     (let n = (if recvd = [] then 0 else unat (hd recvd)) in
      if n \<le> 207
      then Inr (peer_handshake (hex_of_bytes (take 20 (drop (n + 9) (fill_buffer recvd))))
                               (hex_of_bytes (take 20 (drop (n + 29) (fill_buffer recvd)))))
      else Inl (Undefined Read_past_end))"
proof -
  have "unat (fill_buffer recvd ! 0) = (if recvd = [] then 0 else unat (hd recvd))"
    by (simp add: fill_buffer_nth hd_conv_nth)
  then show ?thesis
    unfolding unpack_handshake_of by (simp add: Let_def)
qed

section \<open>One piece\<close>

text \<open>The caller's stream is \<open>stream\<close>; what was written to it is there whatever happens.\<close>

definition download_piece ::
  "environment \<Rightarrow> metainfo \<Rightarrow> string \<Rightarrow> string \<Rightarrow> nat \<Rightarrow> bytes \<Rightarrow> unit result \<times> bytes" where
  "download_piece env meta peer_ip peer_port piece_idx stream =
     (case stoull peer_port of
        Inl e \<Rightarrow> (Inl e, stream)
      | Inr port \<Rightarrow>
          (case new_worker (env_is_address env) (env_peer_at env) meta peer_ip port False stream of
             Inl e \<Rightarrow> (Inl e, stream)
           | Inr worker \<Rightarrow>
               (case wait_piece_transfer (snd (download_piece_async piece_idx worker)) of
                  (Inl e, worker) \<Rightarrow> (Inl e, pw_stream worker)
                | (Inr ok, worker) \<Rightarrow>
                    (if \<not> ok then Inl (raise worker) else Inr (), pw_stream worker))))"

text \<open>
  When the download fails, the exception that is raised is the one the thread stored: the
  null \<open>exception_ptr\<close> a fresh worker starts with is never rethrown.
\<close>

lemma download_piece_job:
  assumes "stoull peer_port = Inr port"
    and "new_worker (env_is_address env) (env_peer_at env) meta peer_ip port False stream = Inr w"
  shows "download_piece env meta peer_ip peer_port piece_idx stream =
    (case do_download_piece piece_idx w of (r, w') \<Rightarrow> (r, pw_stream w'))"
proof -
  let ?w0 = "w\<lparr>pw_complete := False, pw_thread := Some (Job_download piece_idx)\<rparr>"
  have w: "pw_thread w = None" "\<not> pw_complete w"
    using assms(2) by (auto simp: new_worker_def split: if_splits)
  then have same: "?w0\<lparr>pw_thread := None\<rparr> = w" by simp
  have start: "snd (download_piece_async piece_idx w) = ?w0"
    using w by (simp add: download_piece_async_def)
  obtain r w' where d: "do_download_piece piece_idx w = (r, w')" by fastforce
  have "wait_piece_transfer ?w0 =
    (case do_download_piece piece_idx w of
       (Inr _, w') \<Rightarrow> (Inr True, w'\<lparr>pw_complete := True\<rparr>)
     | (Inl e, w') \<Rightarrow> if is_std_exception e then (Inr False, w'\<lparr>pw_exception := Some e\<rparr>) else (Inl e, w'))"
    using wait_piece_transfer_job [of ?w0 piece_idx] by (simp add: same)
  then show ?thesis
    using assms d by (cases r) (simp_all add: download_piece_def start raise_def)
qed

section \<open>Properties\<close>

text \<open>Whatever a tracker answers, the answer is turned into peers or into an exception; the only
  exceptions that are not a \<open>runtime_error\<close> are the type errors 302 and 306 of the JSON library.\<close>

theorem tracker_answer_errors:
  assumes "int (length s) < 2 ^ 63"
  shows "case peers_of_response s of
      Inr _ \<Rightarrow> True
    | Inl e \<Rightarrow> is_runtime_error e \<or> e = Json_type_error 302 \<or> e = Json_type_error 306"
  using peers_of_response_error [OF _ assms] by (auto split: sum.split)

theorem tracker_answer_errors_witness:
  "case peers_of_response ''i5e'' of
      Inr _ \<Rightarrow> True
    | Inl e \<Rightarrow> is_runtime_error e \<or> e = Json_type_error 302 \<or> e = Json_type_error 306"
  by (rule tracker_answer_errors) simp

definition compact_answer :: "bytes \<Rightarrow> string" where
  "compact_answer peers =
     ''d5:peers'' @ dec_of_nat (length peers) @ '':'' @ string_of_bytes peers @ ''e''"

lemma decode_compact_answer:
  assumes "int (length peers) < 2 ^ 63"
  shows "\<exists>enc. decode_bencoded_value (compact_answer peers) =
    Inr (Some (enc, Json_object [(''peers'', json_of_chars (string_of_bytes peers))]))"
proof -
  let ?v = "json_of_chars (string_of_bytes peers)"
  let ?j = "Json_object [(''peers'', ?v)]"
  have ok: "bencodable ?j"
    using assms by (auto simp: object_sorted_def json_of_chars_def utf8_string_def)
  have "encode ?v = Inr (Some (length_prefixed (string_of_bytes peers)))"
    by (simp add: json_of_chars_def)
  moreover have "length_prefixed ''peers'' = ''5:peers''"
    by code_simp
  ultimately have "encode ?j = Inr (Some (compact_answer peers))"
    by (simp add: compact_answer_def length_prefixed_def STRING_DELIMITER_SYMBOL_def
        DICT_START_SYMBOL_def END_SYMBOL_def)
  from decode_encode [OF ok this, of "[]"] show ?thesis by auto
qed

lemma tracker_peers:
  assumes "announce_url api meta = Inr url" "http (c_string url) = (CURLE_OK, parts)"
    and "string_of_bytes (concat parts) = compact_answer (concat addrs)" "\<forall>a \<in> set addrs. length a = 6"
    and "int (length (concat addrs)) < 2 ^ 63" "\<not> utf8_string (string_of_bytes (concat addrs))"
  shows "get_peers api http meta = Inr (map peer_text addrs)"
proof -
  have cut: "chunks 6 (concat addrs) = addrs" using assms(4) by (intro chunks_concat) auto
  have len: "length (concat addrs) mod 6 = 0"
    using assms(4) by (induction addrs) auto
  obtain enc where "decode_bencoded_value (compact_answer (concat addrs)) =
      Inr (Some (enc, Json_object [(''peers'', json_of_chars (string_of_bytes (concat addrs)))]))"
    using decode_compact_answer [OF assms(5)] by blast
  then have "peers_of_response (compact_answer (concat addrs)) = Inr (map peer_text addrs)"
    using assms(6) len cut peers_of_response_compact [of _ enc "[(''peers'', Json_binary (concat addrs))]" "concat addrs"]
    by (simp add: json_of_chars_def object_find_def)
  then show ?thesis
    using assms(1-3) by (simp add: get_peers_def curl_get_concat)
qed



end
