(* ===== verification/Many_Peers.thy ===== *)
theory Many_Peers
  imports Download_File
begin

text \<open>
  The download of a file (\<open>src/src/client/download_file.cpp\<close>) from any number of peers that follow the
  protocol. The rounds hand the pieces out in turn, so that of \<open>n\<close> workers the worker number \<open>k\<close> is
  asked for the pieces number \<open>k\<close>, \<open>k + n\<close>, \<open>k + 2 n\<close> and so on of the shuffled list. Each peer may cut
  its pieces into blocks in its own way; an address at which connecting fails is left out. With
  peers of any kind, what a download that returns has written.
\<close>

section \<open>The share of a worker\<close>

definition share :: "nat \<Rightarrow> nat \<Rightarrow> nat list \<Rightarrow> nat list" where
  "share n k order = nths order {j. j mod n = k}"

lemma nths_one: "nths xs {k} = (if k < length xs then [xs ! k] else [])"
proof (induction xs arbitrary: k)
  case (Cons x xs)
  show ?case
  proof (cases k)
    case 0
    then show ?thesis by (simp add: nths_Cons)
  next
    case (Suc k')
    then show ?thesis using Cons [of k'] by (simp add: nths_Cons)
  qed
qed simp

lemma share_short:
  assumes "length xs \<le> n" "k < n"
  shows "share n k xs = (if k < length xs then [xs ! k] else [])"
proof -
  have "nths xs {j. j mod n = k} = nths xs {k}"
    unfolding nths_def using assms by (intro arg_cong [where f = "map fst"] filter_cong) (auto simp: set_zip)
  then show ?thesis by (simp add: share_def nths_one)
qed

lemma share_round:
  assumes "k < n"
  shows "share n k order = (if k < length (take n order) then [take n order ! k] else []) @ share n k (drop n order)"
proof (cases "length order \<le> n")
  case True
  with assms show ?thesis by (simp add: share_short)
next
  case False
  have "share n k (take n order @ drop n order) =
      share n k (take n order) @ nths (drop n order) {j. (j + length (take n order)) mod n = k}"
    by (simp only: share_def nths_append mem_Collect_eq)
  moreover have "{j. (j + length (take n order)) mod n = k} = {j. j mod n = k}" using False by simp
  ultimately have "share n k order = share n k (take n order) @ share n k (drop n order)"
    by (simp add: share_def)
  with assms False show ?thesis by (simp add: share_short)
qed

lemma set_share: "set (share n k order) \<subseteq> set order"
  by (auto simp: share_def set_nths)

section \<open>A peer that serves its pieces\<close>

text \<open>\<open>plan i\<close> is the list of answers of a peer for piece \<open>i\<close>.\<close>

definition serves :: "(nat \<Rightarrow> answer list) \<Rightarrow> metainfo \<Rightarrow> nat \<Rightarrow> nat list \<Rightarrow> bool" where
  "serves plan meta n_pieces order \<longleftrightarrow>
     (\<forall>i \<in> set order. good_answers (plan i) \<and>
        (\<exists>plen. piece_len meta n_pieces i = Inr plen \<and>
           length (concat (map answer_block (plan i))) = unat plen))"

abbreviation piece_data :: "(nat \<Rightarrow> answer list) \<Rightarrow> nat \<Rightarrow> bytes" where
  "piece_data plan i \<equiv> concat (map answer_block (plan i))"

text \<open>The files when the pieces have been taken in order.\<close>

fun with_files :: "(nat \<Rightarrow> bytes) \<Rightarrow> nat list \<Rightarrow> files \<Rightarrow> files" where
  "with_files data [] fs = fs"
| "with_files data (i # is) fs = with_files data is (fs(i \<mapsto> data i))"

lemma with_files_at: "with_files data is fs i = (if i \<in> set is then Some (data i) else fs i)"
  by (induction "is" arbitrary: fs) (auto simp: fun_upd_def [symmetric])

lemma gather_with_files:
  assumes "set order = {0..<n}"
  shows "gather_pieces [0..<n] (with_files data order fs) [] = (Inr (), concat (map data [0..<n]))"
proof -
  have m: "map (the \<circ> with_files data order fs) [0..<n] = map data [0..<n]"
    using assms by (simp add: with_files_at)
  have "\<forall>i \<in> set [0..<n]. with_files data order fs i \<noteq> None"
    using assms by (simp add: with_files_at)
  from gather_pieces_all [OF this, of "[]"] show ?thesis by (simp only: m append_Nil)
qed

section \<open>A round\<close>

text \<open>A worker whose session is set up, over a socket on which its peer serves the pieces \<open>is\<close>.\<close>

definition answers_of :: "(nat \<Rightarrow> answer list) \<Rightarrow> nat list \<Rightarrow> bytes" where
  "answers_of plan is = concat (map (\<lambda>i. concat (map answer_bytes (plan i))) is)"

definition requests_of :: "(nat \<Rightarrow> answer list) \<Rightarrow> nat list \<Rightarrow> nat list" where
  "requests_of plan is = replicate (length (concat (map plan is))) 17"

definition serving :: "(nat \<Rightarrow> answer list) \<Rightarrow> (nat \<Rightarrow> bytes) \<Rightarrow> bytes list \<Rightarrow> nat list \<Rightarrow> piece_worker \<Rightarrow> bool" where
  "serving plan data hashes is w \<longleftrightarrow>
     normal_mode w \<and> \<not> started w \<and> pw_owned w \<and> is_open (pw_socket w) \<and>
     metainfo_pieces (pw_meta w) = Inr hashes \<and> serves plan (pw_meta w) (length hashes) is \<and>
     (\<forall>i \<in> set is. piece_data plan i = data i) \<and>
     (\<exists>ws. accepts (requests_of plan is) (writes (pw_socket w)) ws) \<and>
     (\<exists>rest. delivers (incoming (pw_socket w)) (answers_of plan is) rest)"

lemma answers_of_Cons: "answers_of plan (i # is) = concat (map answer_bytes (plan i)) @ answers_of plan is"
  by (simp add: answers_of_def)

lemma requests_of_Cons: "requests_of plan (i # is) = replicate (length (plan i)) 17 @ requests_of plan is"
  by (simp add: requests_of_def replicate_add)

lemma collect_head:
  assumes "serving plan data hashes (i # is) w"
  shows "\<exists>w'. serving plan data hashes is w' \<and>
    (\<forall>workers ps fs. collect (snd (download_piece_async i w) # workers) (i # ps) fs =
       (case collect workers ps (fs(i \<mapsto> data i)) of (r, ws) \<Rightarrow> (r, w' # ws)))"
proof -
  have idle: "pw_thread w = None" "pw_owned w" "normal_mode w"
    using assms by (auto simp: serving_def started_def)
  let ?w0 = "w\<lparr>pw_complete := False, pw_thread := Some (Job_download i)\<rparr>"
  let ?w1 = "w\<lparr>pw_complete := False, pw_thread := None\<rparr>"
  have start: "snd (download_piece_async i w) = ?w0"
    using idle by (simp add: download_piece_async_def)
  have thread: "?w0\<lparr>pw_thread := None\<rparr> = ?w1" by simp
  have hashes: "metainfo_pieces (pw_meta ?w1) = Inr hashes" "is_open (pw_socket ?w1)" "pw_owned ?w1" "normal_mode ?w1"
    using assms idle by (simp_all add: serving_def normal_mode_def)
  obtain plen where serve: "good_answers (plan i)" "piece_len (pw_meta ?w1) (length hashes) i = Inr plen"
    "length (piece_data plan i) = unat plen" "piece_data plan i = data i"
    using assms by (auto simp: serving_def serves_def)
  obtain ws1 ws where wr: "accepts (replicate (length (plan i)) 17) (writes (pw_socket ?w1)) ws1"
    "accepts (requests_of plan is) ws1 ws"
    using assms by (auto simp: serving_def requests_of_Cons accepts_append)
  obtain as1 rest where d: "delivers (incoming (pw_socket ?w1)) (concat (map answer_bytes (plan i))) as1"
    "delivers as1 (answers_of plan is) rest"
    using assms by (auto simp: serving_def answers_of_Cons delivers_append)
  obtain w' where run: "do_download_piece i ?w1 = (Inr (), w')"
    and res: "pw_buffer w' = data i" "pw_last_piece_idx w' = i" "incoming (pw_socket w') = as1"
      "is_open (pw_socket w')" "writes (pw_socket w') = ws1" "normal_mode w'"
    using do_download_answers [OF hashes(4,1) serve(2,1,3) hashes(2) wr(1) d(1) hashes(3)] serve(4) by auto
  have fr: "framed ?w1 w'" using framed_do_download_piece [of ?w1 i] run by simp
  have "wait_piece_transfer ?w0 = (Inr True, w'\<lparr>pw_complete := True\<rparr>)"
    using wait_piece_transfer_job [of ?w0 i] run by (simp add: thread)
  then have "collect (?w0 # workers) (i # ps) fs =
      (case collect workers ps (fs(i \<mapsto> data i)) of (r, ws) \<Rightarrow> (r, w'\<lparr>pw_complete := True\<rparr> # ws))" for workers ps fs
    using res by (simp add: started_def pop_piece_def)
  moreover have "serving plan data hashes is (w'\<lparr>pw_complete := True\<rparr>)"
    using assms fr res d(2) wr(2) by (auto simp: serving_def framed_def normal_mode_def started_def serves_def)
  ultimately show ?thesis unfolding start by blast
qed

lemma collect_idle: "list_all (\<lambda>w. \<not> started w) ws \<Longrightarrow> collect ws ps fs = (Inr (ps, fs), ws)"
  by (induction ws) auto

text \<open>What each worker still has to do, before and after the pieces \<open>is\<close> of a round.\<close>

lemma collect_round:
  assumes "length is \<le> length ws"
    and "\<And>k. k < length ws \<Longrightarrow>
      serving (plan k) data hashes ((if k < length is then [is ! k] else []) @ later k) (ws ! k)"
  shows "\<exists>ws'. collect (fst (assign is ws)) (is @ ps) fs = (Inr (ps, with_files data is fs), ws') \<and>
    length ws' = length ws \<and> (\<forall>k < length ws. serving (plan k) data hashes (later k) (ws' ! k))"
  using assms
proof (induction ws arbitrary: "is" plan later fs)
  case (Cons w ws)
  show ?case
  proof (cases "is")
    case Nil
    have ready: "serving (plan k) data hashes (later k) ((w # ws) ! k)" if "k < length (w # ws)" for k
      using Cons.prems(2) [OF that] Nil by simp
    then have "list_all (\<lambda>w. \<not> started w) (w # ws)"
      unfolding list_all_length by (metis serving_def)
    then show ?thesis using ready Nil by (simp add: collect_idle)
  next
    case (Cons i is')
    have w: "serving (plan 0) data hashes (i # later 0) w"
      using Cons.prems(2) [of 0] Cons by simp
    obtain w' where w': "serving (plan 0) data hashes (later 0) w'"
      and c: "\<And>workers ps fs. collect (snd (download_piece_async i w) # workers) (i # ps) fs =
        (case collect workers ps (fs(i \<mapsto> data i)) of (r, ws) \<Rightarrow> (r, w' # ws))"
      using collect_head [OF w] by blast
    have "serving (plan (Suc k)) data hashes ((if k < length is' then [is' ! k] else []) @ later (Suc k)) (ws ! k)"
      if "k < length ws" for k
      using Cons.prems(2) [of "Suc k", unfolded Cons] that by (simp split: if_splits)
    moreover have "length is' \<le> length ws" using Cons.prems(1) Cons by simp
    ultimately obtain ws' where ws': "collect (fst (assign is' ws)) (is' @ ps) (fs(i \<mapsto> data i)) =
        (Inr (ps, with_files data is' (fs(i \<mapsto> data i))), ws')" "length ws' = length ws"
      "\<forall>k < length ws. serving (plan (Suc k)) data hashes (later (Suc k)) (ws' ! k)"
      using Cons.IH [of is' "\<lambda>k. plan (Suc k)" "\<lambda>k. later (Suc k)" "fs(i \<mapsto> data i)"] by blast
    have "fst (assign is (w # ws)) = snd (download_piece_async i w) # fst (assign is' ws)"
      using w Cons by (simp add: serving_def split: prod.split)
    then have "collect (fst (assign is (w # ws))) (is @ ps) fs = (Inr (ps, with_files data is fs), w' # ws')"
      using c [of "fst (assign is' ws)" "is' @ ps" fs] ws'(1) Cons by simp
    moreover have "\<forall>k < length (w # ws). serving (plan k) data hashes (later k) ((w' # ws') ! k)"
      using w' ws'(3) by (simp add: nth_Cons split: nat.split)
    ultimately show ?thesis using ws'(2) by auto
  qed
qed simp

lemma start_idle:
  assumes "list_all (\<lambda>w. \<not> started w) ws"
  shows "start_workers ps ws = assign (take (length ws) ps) ws"
proof -
  have "filter (\<lambda>w. \<not> started w) ws = ws" using assms by (simp add: list_all_iff)
  then show ?thesis by (simp add: start_workers_def get_some_indexes_def min_def)
qed

lemma with_files_append: "with_files data (xs @ ys) fs = with_files data ys (with_files data xs fs)"
  by (induction xs arbitrary: fs) simp_all

lemma download_rounds_shares:
  assumes "ws \<noteq> []"
    and "\<And>k. k < length ws \<Longrightarrow> serving (plan k) data hashes (share (length ws) k order) (ws ! k)"
  shows "download_rounds order ws fs = Some (Inr (with_files data order fs))"
  using assms
proof (induction "length order" arbitrary: order ws fs rule: less_induct)
  case less
  let ?n = "length ws"
  show ?case
  proof (cases "order = []")
    case True
    then show ?thesis by (simp add: download_rounds_end)
  next
    case False
    have "list_all (\<lambda>w. \<not> started w) ws"
      unfolding list_all_length using less.prems(2) by (metis serving_def)
    then have start: "fst (start_workers order ws) = fst (assign (take ?n order) ws)" by (simp add: start_idle)
    have "serving (plan k) data hashes
        ((if k < length (take ?n order) then [take ?n order ! k] else []) @ share ?n k (drop ?n order)) (ws ! k)"
      if "k < ?n" for k
      using less.prems(2) [OF that] share_round [OF that, of order] by simp
    then obtain ws' where c: "collect (fst (assign (take ?n order) ws)) (take ?n order @ drop ?n order) fs =
        (Inr (drop ?n order, with_files data (take ?n order) fs), ws')" and len: "length ws' = ?n"
      and ws': "\<forall>k < ?n. serving (plan k) data hashes (share ?n k (drop ?n order)) (ws' ! k)"
      using collect_round [of "take ?n order" ws plan data hashes "\<lambda>k. share ?n k (drop ?n order)" "drop ?n order" fs]
      by auto
    have "length (drop ?n order) < length order" using False less.prems(1) by (cases order) auto
    then have "download_rounds (drop ?n order) ws' (with_files data (take ?n order) fs) =
        Some (Inr (with_files data (drop ?n order) (with_files data (take ?n order) fs)))"
      using len ws' less.prems(1) by (intro less.hyps) auto
    also have "with_files data (drop ?n order) (with_files data (take ?n order) fs) = with_files data order fs"
      by (simp flip: with_files_append)
    finally show ?thesis
      using download_rounds_step [OF False, of ws fs] c start by simp
  qed
qed

section \<open>Setting up the workers\<close>

text \<open>
  What connecting leaves alone: a field that a change of the socket and of the have mode does not
  touch. Two such fields are needed: the connection flag, which is set only at the end, and
  what was written out.
\<close>

definition quiet :: "(piece_worker \<Rightarrow> 'f) \<Rightarrow> 'a act \<Rightarrow> bool" where
  "quiet f m \<longleftrightarrow> (\<forall>w. f (snd (m w)) = f w)"

locale session_field =
  fixes f :: "piece_worker \<Rightarrow> 'f"
  assumes socket: "f (w\<lparr>pw_socket := s\<rparr>) = f w"
    and have_mode: "f (w\<lparr>pw_have_mode := b\<rparr>) = f w"
    and have_idx: "f (w\<lparr>pw_have_piece_idx := i\<rparr>) = f w"
begin

lemma quiet_bind: "quiet f m \<Longrightarrow> (\<And>x. quiet f (g x)) \<Longrightarrow> quiet f (act_bind m g)"
  unfolding quiet_def act_bind_def by (auto split: prod.splits sum.splits) (metis snd_conv)+

lemma quiet_simple: "quiet f (act_return x)" "quiet f (act_throw e)" "quiet f (act_lift r)"
  "quiet f (net_read n)" "quiet f (net_exchange request n)"
  by (auto simp: quiet_def act_defs net_read_def net_exchange_def socket split: prod.splits)

lemma quiet_cases: "quiet f (received r)" "quiet f (parsed p)"
  by (auto simp: received_def parsed_def quiet_simple split: sum.splits)

lemma quiet_update: "quiet f (act_update (\<lambda>w. w\<lparr>pw_have_mode := b\<rparr>))"
  "quiet f (act_update (\<lambda>w. w\<lparr>pw_have_piece_idx := i\<rparr>))"
  by (simp_all add: quiet_def act_update_def have_mode have_idx)

lemma quiet_if: "quiet f m \<Longrightarrow> quiet f n \<Longrightarrow> quiet f (if b then m else n)"
  by simp

lemmas quiet_intros = quiet_bind quiet_simple quiet_cases quiet_if quiet_update

lemma quiet_connecting:
  "quiet f socket_connect" "quiet f do_handshake" "quiet f do_bitfield_or_unchoke" "quiet f do_interested"
proof -
  show "quiet f socket_connect" by (auto simp: quiet_def socket_connect_def socket split: option.split)
  show "quiet f do_bitfield_or_unchoke"
    unfolding do_bitfield_or_unchoke_def read_or_throw_def by (intro quiet_intros)
  show "quiet f do_interested"
    unfolding do_interested_def read_have_def read_or_throw_def exchange_or_throw_def
    by (intro quiet_intros)
  have "quiet f (act_bind (act_lift (metainfo_hash m)) (\<lambda>hash.
         act_bind (act_lift (pack_handshake (peer_handshake hash PEER_ID))) (\<lambda>handshake_msg.
         act_bind (exchange_or_throw handshake_msg (length handshake_msg)) (\<lambda>answer_bytes.
         act_bind (act_lift (unpack_handshake (span_of answer_bytes))) (\<lambda>answer.
         if hs_info_hash answer \<noteq> hash then act_throw (Runtime_error ''Invalid info hash'')
         else act_return ())))))" for m
    unfolding exchange_or_throw_def by (intro quiet_intros)
  then show "quiet f do_handshake" by (auto simp: quiet_def do_handshake_def)
qed

lemma connect_failed:
  assumes "connect_to_peer w = (Inl e, w')"
  shows "f w' = f w"
proof -
  have step: "quiet f m \<Longrightarrow> act_bind m g w = (Inl e, w') \<Longrightarrow>
      (\<And>x w. g x w = (Inl e, w') \<Longrightarrow> f w' = f w) \<Longrightarrow> f w' = f w"
    for m :: "unit act" and g :: "unit \<Rightarrow> unit act" and w
    by (auto simp: act_bind_def quiet_def split: prod.splits sum.splits) (metis snd_conv)+
  show ?thesis
    using assms unfolding connect_to_peer_def
    by (elim step [OF quiet_connecting(1)] step [OF quiet_connecting(2)] step [OF quiet_connecting(3)]
        step [OF quiet_connecting(4)]) (simp add: act_update_def)
qed

lemma connect_quiet:
  assumes "\<And>w. f (w\<lparr>pw_connected := True\<rparr>) = f w"
  shows "f (snd (connect_to_peer w)) = f w"
proof -
  have "quiet f (act_update (\<lambda>w. w\<lparr>pw_connected := True\<rparr>))"
    using assms by (simp add: quiet_def act_update_def)
  then have "quiet f connect_to_peer"
    unfolding connect_to_peer_def by (intro quiet_bind quiet_connecting)
  then show ?thesis by (simp add: quiet_def)
qed

end

interpretation connection_flag: session_field pw_connected
  by unfold_locales simp_all

interpretation written_out: session_field written
  by unfold_locales (simp_all add: written_def)

text \<open>
  An address is dead when connecting to it throws: nobody listens, the peer hangs up, is silent
  or answers with another torrent.
\<close>

definition peer_worker :: "environment \<Rightarrow> metainfo \<Rightarrow> bytes \<Rightarrow> piece_worker result" where
  "peer_worker env meta a =
     new_worker (env_is_address env) (env_peer_at env) meta (ip_text a) (of_nat (port_number a)) True []"

definition dead :: "environment \<Rightarrow> metainfo \<Rightarrow> bytes \<Rightarrow> bool" where
  "dead env meta a \<longleftrightarrow>
     (case peer_worker env meta a of
        Inl _ \<Rightarrow> False
      | Inr w \<Rightarrow> (case connect_to_peer w of (Inl e, _) \<Rightarrow> is_std_exception e | _ \<Rightarrow> False))"

text \<open>A peer that follows the protocol, and serves the pieces \<open>is\<close> when it is asked for them in this order.\<close>

definition honest_peer :: "environment \<Rightarrow> metainfo \<Rightarrow> bytes \<Rightarrow> (nat \<Rightarrow> bytes) \<Rightarrow> nat \<Rightarrow> (nat \<Rightarrow> answer list) \<Rightarrow>
    nat list \<Rightarrow> bytes \<Rightarrow> bool" where
  "honest_peer env meta h data n plan is a \<longleftrightarrow>
     env_is_address env (ip_text a) \<and> serves plan meta n is \<and> (\<forall>i \<in> set is. piece_data plan i = data i) \<and>
     (\<exists>s ws peer_id field rest. env_peer_at env (ip_text a) (port_number a) = Some s \<and> is_open s \<and>
        accepts (68 # 5 # requests_of plan is) (writes s) ws \<and>
        length peer_id = 20 \<and> length field + 1 < 2 ^ 32 \<and>
        delivers (incoming s) (peer_hello h peer_id @ bitfield_message field @ pack_unchoke_msg @
          answers_of plan is) rest)"

lemma peer_worker_cases:
  assumes "env_is_address env (ip_text a)"
  obtains w where "peer_worker env meta a = Inr w" "pw_meta w = meta"
    "pw_peer w = env_peer_at env (ip_text a) (port_number a)" "pw_thread w = None" "pw_owned w"
    "\<not> pw_have_mode w" "pw_have_piece_idx w = None" "\<not> pw_connected w"
proof -
  have port: "unat (of_nat (port_number a) :: u64) mod 2 ^ 16 = port_number a"
    using port_number_less [of a] by (simp add: unat_of_nat)
  obtain w where w: "peer_worker env meta a = Inr w"
    using assms by (simp add: peer_worker_def new_worker_def)
  show thesis
    by (rule that [OF w]) (use w assms port in \<open>auto simp: peer_worker_def new_worker_def\<close>)
qed

lemma setup_dead:
  assumes "dead env meta a"
  shows "setup_workers env meta (peer_text a # peers) acc = setup_workers env meta peers acc"
proof -
  obtain w e w' where w: "peer_worker env meta a = Inr w" "connect_to_peer w = (Inl e, w')" "is_std_exception e"
    using assms by (auto simp: dead_def split: sum.splits prod.splits)
  then have "pw_thread w = None" "\<not> pw_connected w"
    by (auto simp: peer_worker_def new_worker_def split: if_splits)
  then show ?thesis
    using w connection_flag.connect_failed [OF w(2)]
    by (simp add: parse_peer_text stoull_peer_port wait_connection peer_worker_def)
qed

lemma setup_honest:
  assumes "honest_peer env meta h data (length hashes) plan is a"
    and "metainfo_hash meta = Inr (hex_of_bytes h)" "length h = 20" "metainfo_pieces meta = Inr hashes"
  shows "\<exists>w. serving plan data hashes is w \<and> \<not> dead env meta a \<and>
    (\<forall>peers acc. setup_workers env meta (peer_text a # peers) acc = setup_workers env meta peers (acc @ [w]))"
proof -
  obtain s ws peer_id field rest where peer: "env_is_address env (ip_text a)" "serves plan meta (length hashes) is"
    "\<forall>i \<in> set is. piece_data plan i = data i" "env_peer_at env (ip_text a) (port_number a) = Some s" "is_open s"
    "accepts (68 # 5 # requests_of plan is) (writes s) ws" "length peer_id = 20" "length field + 1 < 2 ^ 32"
    "delivers (incoming s) ((peer_hello h peer_id @ bitfield_message field @ pack_unchoke_msg) @ answers_of plan is) rest"
    using assms(1) by (auto simp: honest_peer_def)
  obtain w0 where w0: "peer_worker env meta a = Inr w0" "pw_meta w0 = meta" "pw_peer w0 = Some s"
    "pw_thread w0 = None" "pw_owned w0" "\<not> pw_have_mode w0" "pw_have_piece_idx w0 = None"
    using peer_worker_cases [OF peer(1), of meta] peer(4) by metis
  obtain as1 where d: "delivers (incoming s) (peer_hello h peer_id @ bitfield_message field @ pack_unchoke_msg) as1"
    "delivers as1 (answers_of plan is) rest"
    using peer(9) unfolding delivers_append by blast
  obtain ws1 where wr: "accepts [68, 5] (writes s) ws1" "accepts (requests_of plan is) ws1 ws"
    using peer(6) accepts_append [of "[68, 5]" "requests_of plan is"] by auto
  obtain w where w: "connect_to_peer w0 = (Inr (), w)" "pw_connected w" "incoming (pw_socket w) = as1"
    "is_open (pw_socket w)" "writes (pw_socket w) = ws1" "\<not> pw_have_mode w" "pw_have_piece_idx w = None"
    using connect_to_peer_delivered [OF _ assms(3) w0(3) peer(5) wr(1) d(1) peer(7,8)] assms(2) w0 by auto
  have "framed w0 w" using keeps_connect w(1) by (auto simp: keeps_def dest: spec [of _ w0])
  then have "pw_owned w" "pw_meta w = meta" "\<not> started w"
    using w0 by (simp_all add: framed_def started_def)
  then have "serving plan data hashes is w"
    using w assms(4) peer(2,3) d(2) wr(2) by (auto simp: serving_def normal_mode_def)
  moreover have "\<not> dead env meta a" using w0(1) w(1) by (simp add: dead_def)
  moreover have "setup_workers env meta (peer_text a # peers) acc = setup_workers env meta peers (acc @ [w])" for peers acc
    using w0(1) w(1,2) by (simp add: parse_peer_text stoull_peer_port wait_connection [OF w0(4)] peer_worker_def)
  ultimately show ?thesis by blast
qed

lemma setup_live:
  assumes meta: "metainfo_hash meta = Inr (hex_of_bytes h)" "length h = 20" "metainfo_pieces meta = Inr hashes"
    and live: "\<And>k. k < length (filter (\<lambda>a. \<not> dead env meta a) addrs) \<Longrightarrow>
      honest_peer env meta h data (length hashes) (plan k) (todo k) (filter (\<lambda>a. \<not> dead env meta a) addrs ! k)"
  shows "\<exists>ws. setup_workers env meta (map peer_text addrs) acc = Inr (acc @ ws) \<and>
    length ws = length (filter (\<lambda>a. \<not> dead env meta a) addrs) \<and>
    (\<forall>k < length ws. serving (plan k) data hashes (todo k) (ws ! k))"
  using live
proof (induction addrs arbitrary: acc plan todo)
  case (Cons a addrs)
  show ?case
  proof (cases "dead env meta a")
    case True
    with Cons show ?thesis by (simp add: setup_dead del: setup_workers.simps(2))
  next
    case False
    obtain w where w: "serving (plan 0) data hashes (todo 0) w"
      "\<And>peers acc. setup_workers env meta (peer_text a # peers) acc = setup_workers env meta peers (acc @ [w])"
      using setup_honest [OF _ meta, of env data "plan 0" "todo 0" a] Cons.prems [of 0] False by auto
    obtain ws where ws: "setup_workers env meta (map peer_text addrs) (acc @ [w]) = Inr ((acc @ [w]) @ ws)"
      "length ws = length (filter (\<lambda>a. \<not> dead env meta a) addrs)"
      "\<forall>k < length ws. serving (plan (Suc k)) data hashes (todo (Suc k)) (ws ! k)"
      using Cons.IH [of "\<lambda>k. plan (Suc k)" "\<lambda>k. todo (Suc k)" "acc @ [w]"] Cons.prems [of "Suc _"] False by auto
    show ?thesis
      using w ws False by (intro exI [of _ "w # ws"]) (auto simp: nth_Cons split: nat.split)
  qed
qed simp

section \<open>The file\<close>

definition progress_text :: string where
  "progress_text = ''Setup connection...'' @ [CHR 0x0A] @ ''Downloading...'' @ [CHR 0x0A]"

lemma file_from_many:
  assumes meta: "metainfo_hash meta = Inr (hex_of_bytes h)" "length h = 20" "metainfo_pieces meta = Inr hashes"
    and order: "env_shuffle env [0..<length hashes] = order" "set order = {0..<length hashes}"
    and dir: "env_dir_exists env \<or> env_dir_created env"
    and live: "filter (\<lambda>a. \<not> dead env meta a) addrs = live" "live \<noteq> []"
    and honest: "\<And>k. k < length live \<Longrightarrow>
      honest_peer env meta h data (length hashes) (plan k) (share (length live) k order) (live ! k)"
  shows "download_file env meta (map peer_text addrs) files =
    Some (progress_text, Inr (), concat (map data [0..<length hashes]))"
proof -
  obtain ws where ws: "setup_workers env meta (map peer_text addrs) [] = Inr ws" "length ws = length live"
    "\<forall>k < length ws. serving (plan k) data hashes (share (length live) k order) (ws ! k)"
    using setup_live [OF meta, of env addrs data plan "\<lambda>k. share (length live) k order" "[]"] honest live(1) by auto
  have ne: "ws \<noteq> []" using ws(2) live(2) by auto
  have "download_rounds order ws files = Some (Inr (with_files data order files))"
    using download_rounds_shares [OF ne, of plan data hashes order files] ws(2,3) by simp
  moreover have "gather_pieces [0..<length hashes] (with_files data order files) [] =
      (Inr (), concat (map data [0..<length hashes]))"
    by (rule gather_with_files [OF order(2)])
  ultimately show ?thesis
    using meta(3) dir order(1) ws(1) ne
    by (auto simp: download_file_def shuffled_indexes_def create_dir_for_pieces_def Let_def progress_text_def)
qed

section \<open>Properties\<close>


text \<open>Two peers and an address at which nobody listens, which is asked first.\<close>

definition example_port :: "u8 \<Rightarrow> bytes" where
  "example_port p = [127, 0, 0, 1, 26, p]"

definition example_addresses :: "bytes list" where
  "example_addresses = [example_port 1, example_port 225, example_port 226]"

definition example_plan :: "nat \<Rightarrow> answer list" where
  "example_plan i = (if i = 0 then [(0, 0, [7]), (0, 1, [8])] else [(1, 0, [9])])"

lemma example_plan_serves:
  "serves example_plan example_metainfo (length [replicate 20 (255 :: u8), replicate 20 255]) [1, 0]"
  by (simp add: serves_def example_plan_def good_answers_def example_piece_len flip: numeral_2_eq_2)

definition example_session :: "nat \<Rightarrow> bytes" where
  "example_session i = peer_hello example_hash (replicate 20 7) @ bitfield_message [192] @ pack_unchoke_msg @
     answers_of example_plan [i]"

definition example_swarm :: environment where
  "example_swarm =
     \<lparr>env_shuffle = rev, env_is_address = (\<lambda>ip. True),
      env_peer_at = (\<lambda>ip port.
        if port = 6881 then Some (example_peer (example_session 1) [Wrote 60, Written, Written, Wrote 5, Written])
        else if port = 6882 then Some (example_peer (example_session 0) [Written, Wrote 2, Written, Written, Written])
        else None),
      env_dir_exists = False, env_dir_created = True\<rparr>"

definition example_data :: "nat \<Rightarrow> bytes" where
  "example_data i = (if i = 0 then [7, 8] else [9])"

lemma example_honest:
  assumes "is = [1] \<and> a = example_port 225 \<or> is = [0] \<and> a = example_port 226"
  shows "honest_peer example_swarm example_metainfo example_hash example_data 2 example_plan is a"
proof -
  have session: "delivers [Chunk (example_session i)] (peer_hello example_hash (replicate 20 7) @ bitfield_message [192] @
      pack_unchoke_msg @ answers_of example_plan [i]) []" for i
    unfolding example_session_def by (rule delivers_chunk) (simp add: peer_hello_def)
  have serve: "serves example_plan example_metainfo 2 is" "\<forall>i \<in> set is. piece_data example_plan i = example_data i"
    using example_plan_serves assms by (auto simp: serves_def example_plan_def example_data_def numeral_2_eq_2)
  obtain i s where i: "is = [i]" "env_peer_at example_swarm (ip_text a) (port_number a) = Some s" "is_open s"
    "accepts (68 # 5 # requests_of example_plan is) (writes s) []" "incoming s = [Chunk (example_session i)]"
    using assms by (auto simp: example_swarm_def example_port_def port_number_def example_peer_def requests_of_def
        example_plan_def accepts.simps(2) write_some_def transfer_all_def MAX_TRANSFER_SIZE_def)
  have "\<exists>s ws peer_id field rest. env_peer_at example_swarm (ip_text a) (port_number a) = Some s \<and> is_open s \<and>
      accepts (68 # 5 # requests_of example_plan is) (writes s) ws \<and> length peer_id = 20 \<and>
      length field + 1 < 2 ^ 32 \<and> delivers (incoming s) (peer_hello example_hash peer_id @
        bitfield_message field @ pack_unchoke_msg @ answers_of example_plan is) rest"
    using i session [of i]
    by (intro exI [of _ s] exI [of _ "[]"] exI [of _ "replicate 20 7"] exI [of _ "[192]"]) simp
  with serve show ?thesis by (simp add: honest_peer_def example_swarm_def)
qed

lemma example_live:
  "filter (\<lambda>a. \<not> dead example_swarm example_metainfo a) example_addresses = [example_port 225, example_port 226]"
proof -
  have "\<not> dead example_swarm example_metainfo a"
    if "is = [1] \<and> a = example_port 225 \<or> is = [0] \<and> a = example_port 226" for "is" :: "nat list" and a
    using setup_honest [OF _ example_metainfo_hash example_pieces] example_honest [OF that]
    by (simp add: numeral_2_eq_2) blast
  from this [of "[1]" "example_port 225"] this [of "[0]" "example_port 226"]
  have "\<not> dead example_swarm example_metainfo (example_port 225)"
    "\<not> dead example_swarm example_metainfo (example_port 226)" by simp_all
  moreover have "dead example_swarm example_metainfo (example_port 1)"
    by (simp add: dead_def peer_worker_def new_worker_def example_swarm_def example_port_def port_number_def
        connect_to_peer_def socket_connect_def act_bind_def)
  ultimately show ?thesis by (simp add: example_addresses_def)
qed

lemma example_shares:
  assumes "k < length [example_port 225, example_port 226]"
  shows "honest_peer example_swarm example_metainfo example_hash example_data 2 example_plan
    (share (length [example_port 225, example_port 226]) k [1, 0]) ([example_port 225, example_port 226] ! k)"
proof -
  have "share 2 k [1, 0] = (if k = 0 then [1] else [0])"
    using assms share_short [of "[1, 0]" 2 k] by (auto simp: less_2_cases_iff)
  then show ?thesis
    using assms example_honest by (auto simp: less_2_cases_iff numeral_2_eq_2)
qed

lemma example_order:
  "env_shuffle example_swarm [0..<length [replicate 20 (255 :: u8), replicate 20 255]] = [1, 0]"
  "set [1, 0] = {0..<length [replicate 20 (255 :: u8), replicate 20 255]}"
  "env_dir_exists example_swarm \<or> env_dir_created example_swarm"
  "[example_port 225, example_port 226] \<noteq> []"
  by (auto simp: example_swarm_def upt_rec)

lemma example_contents: "concat (map example_data [0..<length [replicate 20 (255 :: u8), replicate 20 255]]) = [7, 8, 9]"
  by (simp add: example_data_def upt_rec)

lemmas example_scenario = example_metainfo_hash example_pieces example_order(1-3) example_live example_order(4)

lemma example_download:
  "download_file example_swarm example_metainfo (map peer_text example_addresses) (\<lambda>_. None) =
     Some (progress_text, Inr (), [7, 8, 9])"
  using file_from_many [OF example_scenario, of example_data "\<lambda>_. example_plan"] example_shares example_contents
  by (simp add: numeral_2_eq_2)


lemma example_setup:
  "\<exists>ws. setup_workers example_swarm example_metainfo (map peer_text example_addresses) [] = Inr ws \<and>
     (\<forall>w \<in> set ws. normal_mode w)"
proof -
  obtain ws where "setup_workers example_swarm example_metainfo (map peer_text example_addresses) [] = Inr ws"
    "\<forall>k < length ws. serving example_plan example_data [replicate 20 255, replicate 20 255]
      (share (length [example_port 225, example_port 226]) k [1, 0]) (ws ! k)"
    using setup_live [OF example_metainfo_hash example_pieces, of example_swarm example_addresses example_data
        "\<lambda>_. example_plan" "\<lambda>k. share (length [example_port 225, example_port 226]) k [1, 0]" "[]"]
      example_shares unfolding example_live by (auto simp: numeral_2_eq_2)
  then show ?thesis by (auto simp: serving_def in_set_conv_nth)
qed



end
