(* ===== verification/Main_Commands.thy ===== *)
theory Main_Commands
  imports Client Many_Peers
begin

text \<open>
  \<open>src/src/main.cpp\<close>: the command line. The world a command runs in is a record: the files (a
  path that does not exist has no content), the paths that can be opened for writing, and
  the network. A command returns the text it prints and how it ends: with an exit code, or with
  an exception. \<open>main\<close> turns a \<open>std::runtime_error\<close> into exit code 1; any other exception
  leaves \<open>main\<close> and the program is terminated. What goes to the log is left out. \<open>None\<close> is a
  command that does not return.
\<close>

datatype exit_code =
    Success
  | Fail

datatype ending =
    Exit exit_code
  | Terminated error

record 'u world =
  wd_file :: "string \<Rightarrow> string option"
  wd_parent_ok :: "string \<Rightarrow> bool"
  wd_can_open :: "string \<Rightarrow> bool"
  wd_url :: "'u url_api"
  wd_http :: "string \<Rightarrow> curl_code \<times> bytes list"
  wd_connect :: "string \<Rightarrow> connection"
  wd_env :: environment
  wd_pieces :: files

text \<open>
  What a command printed, the bytes of its output file, its result, and what \<open>dump\<close> gives to the
  debug log, which discards it.
\<close>

record outcome =
  oc_text :: string
  oc_output :: bytes
  oc_result :: "exit_code result"
  oc_log :: string

definition returns :: "string \<Rightarrow> exit_code \<Rightarrow> outcome" where
  "returns text code = \<lparr>oc_text = text, oc_output = [], oc_result = Inr code, oc_log = []\<rparr>"

definition throws :: "string \<Rightarrow> error \<Rightarrow> outcome" where
  "throws text e = \<lparr>oc_text = text, oc_output = [], oc_result = Inl e, oc_log = []\<rparr>"

definition newline :: string where
  "newline = [CHR 0x0A]"

definition decode_command :: "string \<Rightarrow> outcome" where
  "decode_command encoded_value =
     (case decode_bencoded_value encoded_value of
        Inl e \<Rightarrow> throws [] e
      | Inr None \<Rightarrow> returns [] Fail
      | Inr (Some (_, decoded_value)) \<Rightarrow>
          (case json_dump (- 1) (CHR '' '') False Strict decoded_value of
             Inl e \<Rightarrow> throws [] e
           | Inr t \<Rightarrow> returns (t @ newline) Success))"

text \<open>The beginning of every command that takes a torrent file.\<close>

definition with_metainfo :: "'u world \<Rightarrow> string \<Rightarrow> (metainfo \<Rightarrow> outcome option) \<Rightarrow> outcome option" where
  "with_metainfo world path body =
     (case wd_file world path of
        None \<Rightarrow> Some (returns [] Fail)
      | Some content \<Rightarrow>
          (case metainfo_from_file content True of
             Inl e \<Rightarrow> Some (throws [] e)
           | Inr None \<Rightarrow> Some (returns [] Fail)
           | Inr (Some meta) \<Rightarrow> body meta))"

definition info_text :: "metainfo \<Rightarrow> string \<Rightarrow> string" where
  "info_text meta hash =
     ''Tracker URL: '' @ mi_announce meta @ newline @ ''Length: '' @ dec_of_int (mi_length meta) @ newline @
     ''Info Hash: '' @ hash @ newline @ ''Piece Length: '' @ dec_of_int (mi_piece_length meta) @ newline"

definition info_command :: "'u world \<Rightarrow> string \<Rightarrow> outcome option" where
  "info_command world path =
     with_metainfo world path (\<lambda>meta. Some
       (case metainfo_hash meta of
          Inl e \<Rightarrow> throws [] e
        | Inr hash \<Rightarrow>
            (case metainfo_pieces meta of
               Inl e \<Rightarrow> throws (info_text meta hash) e
             | Inr pieces \<Rightarrow>
                 returns (info_text meta hash @ ''Piece Hashes:'' @ newline @
                   concat (map (\<lambda>piece. hex_of_bytes piece @ newline) pieces)) Success)))"

text \<open>
  \<open>dump_command\<close> writes to the debug log only, whose level is set to errors: nothing is printed,
  but the dump is computed, and cut when it is long.
\<close>

definition meta_dump_text :: "string \<Rightarrow> string" where
  "meta_dump_text meta_dump =
     (if 1500 < length meta_dump
      then ''Torrent file meta:'' @ newline @ take 1000 meta_dump @ newline @ ''<...SKIPPED..>'' @ newline @
           drop (length meta_dump - 500) meta_dump
      else ''Torrent file meta:'' @ newline @ meta_dump)"

definition dump_command :: "'u world \<Rightarrow> string \<Rightarrow> outcome option" where
  "dump_command world path =
     with_metainfo world path (\<lambda>meta. Some
       (case json_dump 4 (char_of (32 :: nat)) False Replace (mi_raw meta) of
          Inl e \<Rightarrow> throws [] e
        | Inr meta_dump \<Rightarrow>
            (returns [] Success)\<lparr>oc_log := meta_dump_text meta_dump\<rparr>))"

fun join_lines :: "string list \<Rightarrow> string" where
  "join_lines [] = []"
| "join_lines [l] = l"
| "join_lines (l # m # ls) = l @ newline @ join_lines (m # ls)"

definition peers_command :: "'u world \<Rightarrow> string \<Rightarrow> outcome option" where
  "peers_command world path =
     with_metainfo world path (\<lambda>meta. Some
       (case get_peers (wd_url world) (wd_http world) meta of
          Inl e \<Rightarrow> throws [] e
        | Inr peers \<Rightarrow> returns (join_lines peers @ newline) Success))"

definition peer_handshake_command :: "'u world \<Rightarrow> string \<Rightarrow> string \<Rightarrow> outcome option" where
  "peer_handshake_command world path peer_ip_port =
     with_metainfo world path (\<lambda>meta.
       case parse_ip_port peer_ip_port of
         Inl e \<Rightarrow> Some (throws [] e)
       | Inr (ip, port) \<Rightarrow>
           (case client_handshake (wd_connect world) ip port meta of
              None \<Rightarrow> None
            | Some (Inl e) \<Rightarrow> Some (throws [] e)
            | Some (Inr peer_id) \<Rightarrow> Some (returns (''Peer ID: '' @ peer_id @ newline) Success)))"

text \<open>
  The output file is opened, and so created or truncated, before anything is downloaded to it;
  what was written to it is there when the download fails.
\<close>

definition finish_download :: "string \<Rightarrow> unit result \<times> bytes \<Rightarrow> string \<Rightarrow> outcome" where
  "finish_download printed res text =
     (case res of
        (Inl e, out) \<Rightarrow> \<lparr>oc_text = printed, oc_output = out, oc_result = Inl e, oc_log = []\<rparr>
      | (Inr _, out) \<Rightarrow> \<lparr>oc_text = printed @ text, oc_output = out, oc_result = Inr Success, oc_log = []\<rparr>)"

definition download_piece_command :: "'u world \<Rightarrow> string \<Rightarrow> string \<Rightarrow> nat \<Rightarrow> outcome option" where
  "download_piece_command world path out_path piece_idx =
     (if wd_file world path = None then Some (returns [] Fail)
      else if \<not> wd_parent_ok world out_path then Some (returns [] Fail)
      else with_metainfo world path (\<lambda>meta.
        case get_peers (wd_url world) (wd_http world) meta of
          Inl e \<Rightarrow> Some (throws [] e)
        | Inr peers \<Rightarrow>
            if peers = [] then Some (returns [] Fail)
            else
              (case parse_ip_port (peers ! 0) of
                 Inl e \<Rightarrow> Some (throws [] e)
               | Inr (peer_ip, peer_port) \<Rightarrow>
                   if \<not> wd_can_open world out_path then Some (returns [] Fail)
                   else
                     Some (finish_download []
                       (download_piece (wd_env world) meta peer_ip peer_port piece_idx [])
                       (''Piece '' @ dec_of_nat piece_idx @ '' downloaded to '' @ out_path @ ''.'')))))"

definition download_file_command :: "'u world \<Rightarrow> string \<Rightarrow> string \<Rightarrow> outcome option" where
  "download_file_command world path out_path =
     (if wd_file world path = None then Some (returns [] Fail)
      else if \<not> wd_parent_ok world out_path then Some (returns [] Fail)
      else with_metainfo world path (\<lambda>meta.
        case get_peers (wd_url world) (wd_http world) meta of
          Inl e \<Rightarrow> Some (throws [] e)
        | Inr peers \<Rightarrow>
            if peers = [] then Some (returns [] Fail)
            else if \<not> wd_can_open world out_path then Some (returns [] Fail)
            else
              (case download_file (wd_env world) meta peers (wd_pieces world) of
                 None \<Rightarrow> None
               | Some (printed, res) \<Rightarrow>
                   Some (finish_download printed res
                     (''Downloaded '' @ path @ '' to '' @ out_path @ ''.'')))))"

section \<open>main\<close>

definition dispatch :: "'u world \<Rightarrow> string list \<Rightarrow> outcome option" where
  "dispatch world argv =
     (let argc = length argv; command = argv ! 1; usage = Some (returns [] Fail) in
      if command = ''test'' then Some (returns [] Success)
      else if command = ''decode'' then (if argc = 3 then Some (decode_command (argv ! 2)) else usage)
      else if command = ''info'' then (if argc = 3 then info_command world (argv ! 2) else usage)
      else if command = ''dump'' then (if argc = 3 then dump_command world (argv ! 2) else usage)
      else if command = ''peers'' then (if argc = 3 then peers_command world (argv ! 2) else usage)
      else if command = ''handshake''
      then (if argc = 4 then peer_handshake_command world (argv ! 2) (argv ! 3) else usage)
      else if command = ''download_piece''
      then (if argc = 6
            then (case stoull (argv ! 5) of
                    Inl e \<Rightarrow> Some (throws [] e)
                  | Inr idx \<Rightarrow> download_piece_command world (argv ! 4) (argv ! 3) (unat idx))
            else usage)
      else if command = ''download''
      then (if argc = 5 then download_file_command world (argv ! 4) (argv ! 3) else usage)
      else Some (returns [] Fail))"

definition catch_runtime_error :: "exit_code result \<Rightarrow> ending" where
  "catch_runtime_error r =
     (case r of
        Inr code \<Rightarrow> Exit code
      | Inl e \<Rightarrow> if is_runtime_error e then Exit Fail else Terminated e)"

text \<open>The program: what it printed, what it wrote to the output file, and how it ended.\<close>

definition main :: "'u world \<Rightarrow> string list \<Rightarrow> (string \<times> bytes \<times> ending) option" where
  "main world argv =
     (if length argv < 2 then Some ([], [], Exit Fail)
      else
        (case dispatch world argv of
           None \<Rightarrow> None
         | Some oc \<Rightarrow> Some (oc_text oc, oc_output oc, catch_runtime_error (oc_result oc))))"

section \<open>Properties\<close>

definition example_api :: "unit url_api" where
  "example_api = \<lparr>curl_url = (), curl_url_set = (\<lambda>_ _ _ _. (True, ())), curl_url_get = (\<lambda>_ _ _. Some ''u'')\<rparr>"

definition example_world :: "unit world" where
  "example_world =
     \<lparr>wd_file = (\<lambda>path. if path = ''f'' then Some (encode_total example_torrent) else None),
      wd_parent_ok = (\<lambda>_. True), wd_can_open = (\<lambda>_. True), wd_url = example_api,
      wd_http = (\<lambda>_. (CURLE_OK, [bytes_of_string (compact_answer (concat example_addresses))])),
      wd_connect = (\<lambda>_. \<lparr>perform_code = CURLE_OTHER 7, send_code = CURLE_OK, recv_call = (\<lambda>_. (CURLE_OK, []))\<rparr>),
      wd_env = example_swarm, wd_pieces = (\<lambda>_. None)\<rparr>"

lemma example_world_file: "wd_file example_world ''f'' = Some (encode_total example_torrent)"
  by (simp add: example_world_def)

lemmas main_simps = main_def dispatch_def Let_def returns_def throws_def catch_runtime_error_def with_metainfo_def

text \<open>C23: the command \<open>decode\<close> on any argument that fits in memory: a decoded value is printed as the
  compact JSON text of it, which never fails; an argument that is no bencoded value gives exit
  code 1; the only exception is the type error 302 of a dictionary key that is not UTF-8, which
  \<open>main\<close> does not catch.\<close>

theorem decode_program:
  assumes "int (length s) < 2 ^ 63"
  shows "case decode_bencoded_value s of
      Inl e \<Rightarrow> e = Json_type_error 302 \<and> main world [prog, ''decode'', s] = Some ([], [], Terminated e)
    | Inr None \<Rightarrow> main world [prog, ''decode'', s] = Some ([], [], Exit Fail)
    | Inr (Some (_, j)) \<Rightarrow>
        \<exists>t. dump False j = Inr t \<and> main world [prog, ''decode'', s] = Some (t @ newline, [], Exit Success)"
proof (cases "decode_bencoded_value s")
  case (Inl e)
  then show ?thesis using decode_error(1) [OF Inl] by (simp add: main_simps decode_command_def)
next
  case (Inr d)
  show ?thesis
  proof (cases d)
    case None
    with Inr show ?thesis by (simp add: main_simps decode_command_def)
  next
    case (Some p)
    then obtain enc j where p: "d = Some (enc, j)" by (cases p) simp
    have "bencodable j" using decode_bencodable(1) [of s enc j] assms Inr p by simp
    then obtain t where "dump False j = Inr t" using dump_bencodable by blast
    with Inr p show ?thesis by (simp add: main_simps decode_command_def)
  qed
qed

theorem decode_program_witness:
  "\<exists>t. main example_world [''p'', ''decode'', ''i-5e''] = Some (t @ newline, [], Exit Success)"
proof -
  have "bencodable (Json_integer (- 5))" by simp
  moreover have "encode_total (Json_integer (- 5)) = ''i-5e''"
    by code_simp
  ultimately have "decode_bencoded_value ''i-5e'' =
      Inr (Some (\<lparr>ev_type = Ev_Integer, ev_value = ''i-5e''\<rparr>, Json_integer (- 5)))"
    using decode_encode [of "Json_integer (- 5)" "''i-5e''" "[]"] encode_total [of "Json_integer (- 5)"] by simp
  with decode_program [of "''i-5e''" example_world "''p''"] show ?thesis by auto
qed

definition info_lines :: "metainfo \<Rightarrow> string \<Rightarrow> bytes list \<Rightarrow> string" where
  "info_lines m hash ps =
     info_text m hash @ ''Piece Hashes:'' @ newline @ concat (map (\<lambda>piece. hex_of_bytes piece @ newline) ps)"

text \<open>C24: the command \<open>info\<close> on an accepted file prints the announced data with the SHA-1 of the info
  dictionary, then the hashes of the pieces; it fails only for pieces that are a text, or whose
  number of bytes is no multiple of 20.\<close>

theorem info_program:
  assumes "wd_file world path = Some content" "metainfo_from_file content True = Inr (Some m)"
    and "int (length content) < 2 ^ 63"
  shows "\<exists>info. object_find (case mi_raw m of Json_object obj \<Rightarrow> obj) ''info'' = Some (Json_object info) \<and>
    (let hash = sha1_hex (encode_total (Json_object info)) in
     case metainfo_pieces m of
       Inr ps \<Rightarrow> main world [prog, ''info'', path] = Some (info_lines m hash ps, [], Exit Success)
     | Inl e \<Rightarrow> (e = Json_type_error 302 \<or> e = Undefined Read_past_end) \<and>
         main world [prog, ''info'', path] = Some (info_text m hash, [], Terminated e))"
proof -
  obtain obj info where m: "mi_raw m = Json_object obj" "object_find obj ''info'' = Some (Json_object info)"
    "metainfo_hash m = Inr (sha1_hex (encode_total (Json_object info)))"
    using metainfo_hash_strict [OF assms(2,3)] by blast
  have loop: "pieces_loop bs = Inl e \<Longrightarrow> e = Undefined Read_past_end" for bs e
    using pieces_loop_chunks [of bs] pieces_loop_past_end [of bs] by (cases "length bs mod 20 = 0") auto
  have "e = Json_type_error 302 \<or> e = Undefined Read_past_end" if "metainfo_pieces m = Inl e" for e
    using that m(1,2) loop
    by (auto simp: metainfo_pieces_def json_value_object get_json_def get_binary_def
        split: option.splits json.splits sum.splits)
  then show ?thesis
    using assms(1,2) m
    by (cases "metainfo_pieces m") (auto simp: main_simps info_command_def info_lines_def)
qed

lemma example_raw:
  "mi_raw example_metainfo =
     Json_object [(''announce'', Json_string ''t''), (''info'', Json_object example_info)]"
  by (simp add: example_metainfo_def example_torrent_def)

theorem info_program_witness:
  "main example_world [''p'', ''info'', ''f''] =
     Some (info_lines example_metainfo (sha1_hex (encode_total (Json_object example_info)))
             [replicate 20 255, replicate 20 255], [], Exit Success)"
  using info_program [OF example_world_file example_from_file example_torrent_short, of "''p''"]
  by (simp add: example_pieces Let_def example_raw object_find_def)

text \<open>The command \<open>dump\<close> prints nothing. It succeeds for every file that is accepted, whatever bytes
  its strings hold: its dump replaces what is not UTF-8.\<close>

theorem dump_program:
  "main world [prog, ''dump'', path] =
     (case wd_file world path of
        None \<Rightarrow> Some ([], [], Exit Fail)
      | Some content \<Rightarrow>
          (case metainfo_from_file content True of
             Inl e \<Rightarrow> Some ([], [], Terminated e)
           | Inr None \<Rightarrow> Some ([], [], Exit Fail)
           | Inr (Some _) \<Rightarrow> Some ([], [], Exit Success)))"
proof -
  have "\<exists>t. json_dump 4 (char_of (32 :: nat)) False Replace j = Inr t" for j
    by (rule json_dump_total) simp_all
  then obtain t where t: "json_dump 4 (char_of (32 :: nat)) False Replace j = Inr (t j)" for j by metis
  show ?thesis
    by (auto simp: main_simps dump_command_def t split: option.splits sum.splits
        dest!: metainfo_from_file_error)
qed

text \<open>The command \<open>download\<close> with peers from the tracker: what the download of the file delivers is the
  content of the output file, and its outcome decides how the program ends; a download that
  never returns is a program that never returns.\<close>

theorem download_program:
  assumes "wd_file world path = Some content" "metainfo_from_file content True = Inr (Some meta)"
    and "wd_parent_ok world out_path" "wd_can_open world out_path"
    and "get_peers (wd_url world) (wd_http world) meta = Inr peers" "peers \<noteq> []"
  shows "main world [prog, ''download'', ''-o'', out_path, path] =
    (case download_file (wd_env world) meta peers (wd_pieces world) of
       None \<Rightarrow> None
     | Some (printed, Inr _, out) \<Rightarrow>
         Some (printed @ ''Downloaded '' @ path @ '' to '' @ out_path @ ''.'', out, Exit Success)
     | Some (printed, Inl e, out) \<Rightarrow>
         Some (printed, out, if is_runtime_error e then Exit Fail else Terminated e))"
  using assms
  by (auto simp: main_simps download_file_command_def finish_download_def split: option.splits sum.splits)

lemma example_announce_url: "announce_url example_api example_metainfo = Inr ''u''"
  by (simp add: announce_url_def url_base_def url_query_def url_query_bytes_def url_to_string_def
      url_set_def url_get_def example_api_def example_metainfo_hash sha1_hash_to_bytes_hex c_string_def)

lemma example_tracker:
  "\<forall>a \<in> set example_addresses. length a = 6" "int (length (concat example_addresses)) < 2 ^ 63"
  "\<not> utf8_string (string_of_bytes (concat example_addresses))"
  by (simp_all add: example_addresses_def example_port_def utf8_string_def char_of_byte_def in_range_def)

lemma example_peers: "get_peers example_api (wd_http example_world) example_metainfo = Inr (map peer_text example_addresses)"
  using tracker_peers [OF example_announce_url _ _ example_tracker, of "wd_http example_world"]
  by (simp add: example_world_def)

theorem download_program_witness:
  "main example_world [''p'', ''download'', ''-o'', ''o'', ''f''] =
     Some (progress_text @ ''Downloaded f to o.'', [7, 8, 9], Exit Success)"
  using download_program [OF example_world_file example_from_file _ _ _ _,
      of "''o''" "map peer_text example_addresses" "''p''"] example_peers example_download
  by (simp add: example_world_def example_addresses_def)

end
