(* ===== verification/Network_Commands.thy ===== *)
theory Network_Commands
  imports Main_Commands
begin

text \<open>
  The commands of \<open>src/src/main.cpp\<close> that use the network, from their arguments to what they print
  and write: \<open>peers\<close>, \<open>handshake\<close> and \<open>download_piece\<close>, with \<open>src/src/client/client.cpp\<close> below them.
\<close>

section \<open>The tracker's answer\<close>

text \<open>A tracker that answers with the compact list of these addresses.\<close>

definition compact_tracker :: "'u world \<Rightarrow> metainfo \<Rightarrow> bytes list \<Rightarrow> bool" where
  "compact_tracker world meta addrs \<longleftrightarrow>
     (\<forall>a \<in> set addrs. length a = 6) \<and> int (length (concat addrs)) < 2 ^ 63 \<and>
     \<not> utf8_string (string_of_bytes (concat addrs)) \<and>
     (\<exists>url parts. announce_url (wd_url world) meta = Inr url \<and> wd_http world (c_string url) = (CURLE_OK, parts) \<and>
        string_of_bytes (concat parts) = compact_answer (concat addrs))"

lemma compact_tracker_peers:
  "compact_tracker world meta addrs \<Longrightarrow> get_peers (wd_url world) (wd_http world) meta = Inr (map peer_text addrs)"
  using tracker_peers [of "wd_url world" meta _ "wd_http world"] by (auto simp: compact_tracker_def)

section \<open>A session that starts with a piece\<close>

text \<open>The worker of \<open>download_piece\<close> connects when it is asked for its piece.\<close>

lemma do_download_fresh:
  assumes "\<not> pw_connected w" "\<not> pw_have_mode w" "pw_have_piece_idx w = None"
    and "connect_to_peer (w\<lparr>pw_buffer := []\<rparr>) = (Inr (), w1)"
    and "metainfo_pieces (pw_meta w1) = Inr ps" "piece_len (pw_meta w1) (length ps) idx = Inr plen"
    and "download_loop idx plen 0 w1 = (Inr plen, w2)"
  shows "do_download_piece idx w =
    (Inr (), (progress idx plen plen w2)\<lparr>pw_last_piece_idx := idx, pw_have_piece_idx := None\<rparr>)"
proof -
  have "choose_piece idx (w\<lparr>pw_buffer := []\<rparr>) = (Inr (Some idx), w\<lparr>pw_buffer := []\<rparr>)"
    using assms(2,3) by (simp add: choose_piece_def)
  moreover have "connect_if_needed (w\<lparr>pw_buffer := []\<rparr>) = (Inr (), w1)"
    using assms(1,4) by (simp add: connect_if_needed_def)
  ultimately show ?thesis
    using assms(5-7) by (simp add: do_download_piece_def download_piece_body_def act_defs)
qed

lemma piece_served:
  assumes meta: "metainfo_hash meta = Inr (hex_of_bytes h)" "length h = 20" "metainfo_pieces meta = Inr hashes"
    and peer: "honest_peer env meta h data (length hashes) plan [idx] a"
  shows "download_piece env meta (ip_text a) (dec_of_nat (port_number a)) idx stream = (Inr (), stream @ data idx)"
proof -
  obtain s ws peer_id field rest where p: "env_is_address env (ip_text a)" "serves plan meta (length hashes) [idx]"
    "piece_data plan idx = data idx" "env_peer_at env (ip_text a) (port_number a) = Some s" "is_open s"
    "accepts ([68, 5] @ requests_of plan [idx]) (writes s) ws" "length peer_id = 20" "length field + 1 < 2 ^ 32"
    "delivers (incoming s) ((peer_hello h peer_id @ bitfield_message field @ pack_unchoke_msg) @ answers_of plan [idx]) rest"
    using peer by (auto simp: honest_peer_def)
  have port: "unat (of_nat (port_number a) :: u64) mod 2 ^ 16 = port_number a"
    using port_number_less [of a] by (simp add: unat_of_nat)
  obtain w where new: "new_worker (env_is_address env) (env_peer_at env) meta (ip_text a) (of_nat (port_number a))
      False stream = Inr w"
    using p(1) by (simp add: new_worker_def)
  then have w: "pw_meta w = meta" "pw_peer w = Some s" "\<not> pw_owned w" "\<not> pw_connected w" "\<not> pw_have_mode w"
    "pw_have_piece_idx w = None" "pw_stream w = stream"
    using p(1,4) port by (auto simp: new_worker_def)
  obtain plen where plen: "good_answers (plan idx)" "piece_len meta (length hashes) idx = Inr plen"
    "length (piece_data plan idx) = unat plen"
    using p(2) by (auto simp: serves_def)
  obtain as1 where d: "delivers (incoming s) (peer_hello h peer_id @ bitfield_message field @ pack_unchoke_msg) as1"
    "delivers as1 (concat (map answer_bytes (plan idx))) rest"
    using p(9) unfolding delivers_append by (auto simp: answers_of_def)
  obtain ws1 where wr: "accepts [68, 5] (writes s) ws1" "accepts (replicate (length (plan idx)) 17) ws1 ws"
    using p(6) unfolding accepts_append by (auto simp: requests_of_def)
  let ?w = "w\<lparr>pw_buffer := []\<rparr>"
  obtain w1 where c: "connect_to_peer ?w = (Inr (), w1)" "incoming (pw_socket w1) = as1"
    "is_open (pw_socket w1)" "writes (pw_socket w1) = ws1"
    using connect_to_peer_delivered [of ?w h s ws1 peer_id field as1] meta(1,2) w p(5,7,8) wr(1) d(1) by auto
  have "framed ?w w1" using keeps_connect c(1) by (auto simp: keeps_def dest: spec [of _ ?w])
  then have w1: "pw_meta w1 = meta" "\<not> pw_owned w1" using w by (simp_all add: framed_def)
  have "written w1 = written ?w"
    using written_out.connect_quiet [of ?w] c(1) by (simp add: written_def)
  then have out: "pw_stream w1 = stream" using w w1 by (simp add: written_def)
  obtain w2 where l: "download_loop idx plen 0 w1 = (Inr plen, w2)"
    "written w2 = written w1 @ piece_data plan idx" "pw_owned w2 = pw_owned w1"
    using download_loop_answers [of "plan idx" plen 0 w1 ws rest idx] plen c wr(2) d(2) by auto
  have "do_download_piece idx w =
      (Inr (), (progress idx plen plen w2)\<lparr>pw_last_piece_idx := idx, pw_have_piece_idx := None\<rparr>)"
    using do_download_fresh [OF w(4-6) c(1) _ _ l(1)] meta(3) plen(2) w1(1) by simp
  then show ?thesis
    using l out w1(2) p(3) download_piece_job [OF stoull_peer_port new]
    by (simp add: progress_def written_def)
qed

section \<open>Properties\<close>


text \<open>C13: the command \<open>handshake\<close> with any peer: it does not return when the transfer does not; a failed
  transfer gives exit code 1; otherwise the peer id is printed from where the first byte of the answer
  says it is, without a look at the info hash, and the answer is read outside its buffer when that
  byte is above 207.\<close>

theorem handshake_program:
  assumes "wd_file world path = Some content" "metainfo_from_file content True = Inr (Some meta)"
    and "int (length content) < 2 ^ 63" "parse_ip_port addr = Inr (ip, port)"
  shows "main world [prog, ''handshake'', path, addr] =
    (case curl_tcp_transfer (wd_connect world (ip @ '':'' @ port)) of
       None \<Rightarrow> None
     | Some (code, data) \<Rightarrow> Some
         (if code \<noteq> CURLE_OK then ([], [], Exit Fail)
          else if unat (data ! 0) \<le> 207
          then (''Peer ID: '' @ hex_of_bytes (take 20 (drop (unat (data ! 0) + 29) data)) @ newline, [], Exit Success)
          else ([], [], Terminated (Undefined Read_past_end))))"
proof -
  obtain info where hash: "metainfo_hash meta = Inr (hex_of_bytes (sha1_spec (bytes_of_string (encode_total (Json_object info)))))"
    using metainfo_hash_strict [OF assms(2,3)] by (auto simp: sha1_hex_def)
  obtain msg where msg: "pack_handshake (peer_handshake (hex_of_bytes (sha1_spec (bytes_of_string
      (encode_total (Json_object info))))) PEER_ID) = Inr msg"
    using length_pack_peer_handshake [OF length_sha1_spec] by blast
  have buffer: "unpack_handshake (span_of data) =
      (if unat (data ! 0) \<le> 207
       then Inr (peer_handshake (hex_of_bytes (take 20 (drop (unat (data ! 0) + 9) data)))
                                (hex_of_bytes (take 20 (drop (unat (data ! 0) + 29) data))))
       else Inl (Undefined Read_past_end))" if "data = fill_buffer recvd" for data recvd
    using unpack_handshake_buffer [of recvd] that by (auto simp: fill_buffer_nth hd_conv_nth Let_def)
  have filled: "\<exists>recvd. data = fill_buffer recvd" if "curl_tcp_transfer c = Some (CURLE_OK, data)" for c data
    using that by (auto simp: curl_tcp_transfer_def split: if_splits option.splits prod.splits)
  let ?t = "curl_tcp_transfer (wd_connect world (ip @ '':'' @ port))"
  note run = assms(1,2,4) hash msg main_simps peer_handshake_command_def client_handshake_def
  show ?thesis
  proof (cases ?t)
    case None
    then show ?thesis by (simp add: run)
  next
    case (Some r)
    obtain code data where r: "r = (code, data)" by (cases r)
    show ?thesis
    proof (cases "code = CURLE_OK")
      case True
      with Some r obtain recvd where "data = fill_buffer recvd" using filled by blast
      with Some r True show ?thesis by (simp add: run buffer) (simp add: peer_handshake_def)
    qed (use Some r in \<open>simp add: run\<close>)
  qed
qed


section \<open>Examples\<close>

text \<open>The world of the other examples, with a tracker that lists these addresses.\<close>

definition tracker_world :: "environment \<Rightarrow> bytes list \<Rightarrow> unit world" where
  "tracker_world env addrs =
     example_world\<lparr>wd_env := env,
       wd_http := (\<lambda>_. (CURLE_OK, [bytes_of_string (compact_answer (concat addrs))])),
       wd_connect := (\<lambda>_. \<lparr>perform_code = CURLE_OK, send_code = CURLE_OK,
         recv_call = (\<lambda>_. (CURLE_OK, peer_hello example_hash (replicate 20 7)))\<rparr>)\<rparr>"

lemma tracker_world_sel:
  "wd_file (tracker_world env addrs) ''f'' = Some (encode_total example_torrent)"
  "wd_env (tracker_world env addrs) = env" "wd_parent_ok (tracker_world env addrs) out"
  "wd_can_open (tracker_world env addrs) out"
  by (simp_all add: tracker_world_def example_world_def)

lemma tracker_world_tracker:
  assumes "\<forall>a \<in> set addrs. length a = 6" "int (length (concat addrs)) < 2 ^ 63"
    "\<not> utf8_string (string_of_bytes (concat addrs))"
  shows "compact_tracker (tracker_world env addrs) example_metainfo addrs"
  using assms example_announce_url by (simp add: compact_tracker_def tracker_world_def example_world_def)

lemma example_trackers:
  "compact_tracker (tracker_world env [example_port 225]) example_metainfo [example_port 225]"
  "compact_tracker (tracker_world env example_addresses) example_metainfo example_addresses"
  by (rule tracker_world_tracker;
      simp add: example_addresses_def example_port_def utf8_string_def char_of_byte_def in_range_def)+


theorem handshake_program_witness:
  "main (tracker_world example_swarm []) [''p'', ''handshake'', ''f'', peer_text (example_port 225)] =
     Some (''Peer ID: '' @ hex_of_bytes (replicate 20 7) @ newline, [], Exit Success)"
proof -
  let ?hello = "peer_hello example_hash (replicate 20 7)"
  have transfer: "curl_tcp_transfer (wd_connect (tracker_world example_swarm []) a) = Some (CURLE_OK, fill_buffer ?hello)" for a
    by (simp add: curl_tcp_transfer_def tracker_world_def recv_loop_step)
  have "fill_buffer ?hello ! 0 = 19"
    by (simp add: fill_buffer_nth peer_hello_def)
  moreover have "take 20 (drop 48 (fill_buffer ?hello)) = replicate 20 7"
    by (simp add: fill_buffer_def RECV_SIZE_def peer_hello_def example_metainfo_hash)
  ultimately show ?thesis
    using handshake_program [OF tracker_world_sel(1) example_from_file example_torrent_short parse_peer_text,
        of example_swarm "[]" "''p''" "example_port 225"] transfer
    by simp
qed


end
