(* ===== verification/Time_Traits.thy ===== *)
theory Time_Traits
  imports Prelude "HOL-Library.Signed_Division"
begin

text \<open>
  \<open>src/src/lib/asio-1.28.0/include/asio/detail/chrono_time_traits.hpp\<close>: the arithmetic of the clock
  that the timers use. A time and a duration are numbers of nanoseconds in a signed 64-bit integer;
  the sums and differences saturate instead of overflowing. They are written here on \<open>int\<close>, with
  the comparisons of the code, and shown to compute nothing outside the 64 bits.
\<close>

definition TIME_MAX :: int where
  "TIME_MAX = 2 ^ 63 - 1"

definition TIME_MIN :: int where
  "TIME_MIN = - (2 ^ 63)"

definition time_add :: "int \<Rightarrow> int \<Rightarrow> int" where
  "time_add t d =
     (if t \<ge> 0
      then (if TIME_MAX - t < d then TIME_MAX else t + d)
      else (if - (t - TIME_MIN) > d then TIME_MIN else t + d))"

definition time_subtract :: "int \<Rightarrow> int \<Rightarrow> int" where
  "time_subtract t1 t2 =
     (if t1 \<ge> 0
      then (if t2 \<ge> 0 then t1 - t2
            else if t2 = TIME_MIN then TIME_MAX
            else if TIME_MAX - t1 < 0 - t2 then TIME_MAX
            else t1 - t2)
      else (if t2 < 0 then t1 - t2
            else if t1 = TIME_MIN then TIME_MIN
            else if TIME_MAX - t2 < 0 - t1 then TIME_MIN
            else - (t2 - t1)))"

section \<open>Durations in other units\<close>

text \<open>The greatest common divisor of two positive constants, computed by the compiler.\<close>

function const_gcd :: "nat \<Rightarrow> nat \<Rightarrow> nat" where
  "const_gcd v1 v2 = (if v2 = 0 then v1 else const_gcd v2 (v1 mod v2))"
  by pat_completeness auto
termination
  by (relation "measure snd") simp_all

declare const_gcd.simps [simp del]

text \<open>The period of the steady clock is \<open>1 / 10 ^ 9\<close>.\<close>

definition period_num :: nat where
  "period_num = 1"

definition period_den :: nat where
  "period_den = 1000000000"

definition duration_cast :: "nat \<Rightarrow> nat \<Rightarrow> int \<Rightarrow> int" where
  "duration_cast scale_num scale_den ticks =
     (let num1 = period_num div const_gcd period_num scale_num;
          num2 = scale_num div const_gcd period_num scale_num;
          den1 = period_den div const_gcd period_den scale_den;
          den2 = scale_den div const_gcd period_den scale_den;
          num = int (num1 * den2);
          den = int (num2 * den1)
      in if num = 1 \<and> den = 1 then ticks
         else if num \<noteq> 1 \<and> den = 1 then ticks * num
         else if num = 1 \<and> period_den \<noteq> 1 then ticks sdiv den
         else (ticks * num) sdiv den)"

definition total_seconds :: "int \<Rightarrow> int" where
  "total_seconds ticks = duration_cast 1 1 ticks"

definition total_milliseconds :: "int \<Rightarrow> int" where
  "total_milliseconds ticks = duration_cast 1 1000 ticks"

definition total_microseconds :: "int \<Rightarrow> int" where
  "total_microseconds ticks = duration_cast 1 1000000 ticks"

section \<open>What is computed\<close>

definition representable :: "int \<Rightarrow> bool" where
  "representable t \<longleftrightarrow> TIME_MIN \<le> t \<and> t \<le> TIME_MAX"

definition saturate :: "int \<Rightarrow> int" where
  "saturate t = max TIME_MIN (min TIME_MAX t)"

lemmas time_bounds = TIME_MAX_def TIME_MIN_def representable_def saturate_def

lemma time_add_saturates: "representable t \<Longrightarrow> representable d \<Longrightarrow> time_add t d = saturate (t + d)"
  by (auto simp: time_add_def time_bounds)

lemma time_subtract_saturates: "representable t1 \<Longrightarrow> representable t2 \<Longrightarrow> time_subtract t1 t2 = saturate (t1 - t2)"
  by (auto simp: time_subtract_def time_bounds)

text \<open>No intermediate value of the two functions overflows.\<close>

lemma time_add_no_overflow:
  assumes "representable t" "representable d"
  shows "t \<ge> 0 \<Longrightarrow> representable (TIME_MAX - t)" "t < 0 \<Longrightarrow> representable (t - TIME_MIN) \<and> representable (- (t - TIME_MIN))"
    and "time_add t d = t + d \<or> time_add t d \<in> {TIME_MIN, TIME_MAX}" "representable (time_add t d)"
  using assms by (auto simp: time_add_def time_bounds)

lemma time_subtract_no_overflow:
  assumes "representable t1" "representable t2"
  shows "t1 \<ge> 0 \<Longrightarrow> representable (TIME_MAX - t1)" "t2 \<ge> 0 \<Longrightarrow> representable (TIME_MAX - t2)"
    and "t1 < 0 \<Longrightarrow> t1 \<noteq> TIME_MIN \<Longrightarrow> representable (0 - t1)" "t2 < 0 \<Longrightarrow> t2 \<noteq> TIME_MIN \<Longrightarrow> representable (0 - t2)"
    and "t1 < 0 \<Longrightarrow> t2 \<ge> 0 \<Longrightarrow> TIME_MAX - t2 \<ge> 0 - t1 \<Longrightarrow> representable (t2 - t1)"
    and "representable (time_subtract t1 t2)"
  using assms by (auto simp: time_subtract_def time_bounds)

text \<open>The sign of a difference is right for any two numbers, and it is never too far from zero.\<close>

lemma time_subtract_pos [simp]: "0 < time_subtract t1 t2 \<longleftrightarrow> t2 < t1"
  by (auto simp: time_subtract_def time_bounds)

lemma time_subtract_nonpos [simp]: "time_subtract t1 t2 \<le> 0 \<longleftrightarrow> t1 \<le> t2"
  using time_subtract_pos [of t1 t2] by linarith

lemma time_subtract_le: "t2 \<le> t1 \<Longrightarrow> time_subtract t1 t2 \<le> t1 - t2"
  by (auto simp: time_subtract_def time_bounds)

lemma const_gcd_eq: "const_gcd v1 v2 = gcd v1 v2"
proof (induction v1 v2 rule: const_gcd.induct)
  case (1 v1 v2)
  then show ?case by (subst const_gcd.simps) (simp add: gcd_red_nat [of v1 v2])
qed

lemma total_units:
  "total_seconds ticks = ticks sdiv 1000000000"
  "total_milliseconds ticks = ticks sdiv 1000000"
  "total_microseconds ticks = ticks sdiv 1000"
proof -
  have g: "gcd (1000000000 :: nat) 1000 = 1000" "gcd (1000000000 :: nat) 1000000 = 1000000"
    by (simp_all add: gcd_nat.absorb2)
  show "total_seconds ticks = ticks sdiv 1000000000"
    "total_milliseconds ticks = ticks sdiv 1000000" "total_microseconds ticks = ticks sdiv 1000"
    by (simp_all add: total_seconds_def total_milliseconds_def total_microseconds_def duration_cast_def
        period_num_def period_den_def const_gcd_eq g Let_def)
qed

lemma total_units_pos:
  assumes "0 \<le> ticks"
  shows "total_milliseconds ticks = ticks div 1000000" "total_microseconds ticks = ticks div 1000"
  using assms by (cases "ticks = 0"; simp add: total_units signed_divide_int_eq_divide_int)+

end
