(* ===== verification/Timer_Queue.thy ===== *)
theory Timer_Queue
  imports Tcp_Transfer Time_Traits "HOL-Library.Multiset"
begin

text \<open>
  \<open>src/src/lib/asio-1.28.0/include/asio/detail/timer_queue.hpp\<close>: the queue of timers behind the two
  timers of a \<open>TcpTransfer\<close>. The timers that are waited for are the elements of a binary heap in a
  vector, ordered by their expiry, and of a doubly linked list; every timer knows its index in
  the heap. A pointer to the data of a timer is a number, the memory behind the pointers is the
  function \<open>tq_data\<close>, an \<open>op_queue\<close> is the list of its operations. An expiry is a number of nanoseconds
  on the steady clock, which is never infinite.
\<close>

record wait_op =
  wo_id :: nat
  wo_cancellation_key :: nat

record per_timer_data =
  pt_ops :: "wait_op list"
  pt_heap_index :: nat
  pt_next :: "nat option"
  pt_prev :: "nat option"

record timer_queue =
  tq_timers :: "nat option"
  tq_heap :: "(int \<times> nat) list"
  tq_data :: "nat \<Rightarrow> per_timer_data"

definition NO_INDEX :: nat where
  "NO_INDEX = 2 ^ 64 - 1"

definition new_per_timer_data :: per_timer_data where
  "new_per_timer_data = \<lparr>pt_ops = [], pt_heap_index = NO_INDEX, pt_next = None, pt_prev = None\<rparr>"

definition new_timer_queue :: timer_queue where
  "new_timer_queue = \<lparr>tq_timers = None, tq_heap = [], tq_data = (\<lambda>_. new_per_timer_data)\<rparr>"

section \<open>The heap\<close>

definition set_heap_index :: "nat \<Rightarrow> nat \<Rightarrow> timer_queue \<Rightarrow> timer_queue" where
  "set_heap_index t i q = q\<lparr>tq_data := (tq_data q)(t := (tq_data q t)\<lparr>pt_heap_index := i\<rparr>)\<rparr>"

definition swap_heap :: "nat \<Rightarrow> nat \<Rightarrow> timer_queue \<Rightarrow> timer_queue" where
  "swap_heap index1 index2 q =
     (let tmp = tq_heap q ! index1;
          heap = (tq_heap q)[index1 := tq_heap q ! index2, index2 := tmp]
      in set_heap_index (snd (heap ! index2)) index2
           (set_heap_index (snd (heap ! index1)) index1 (q\<lparr>tq_heap := heap\<rparr>)))"

lemma swap_heap_heap [simp]:
  "tq_heap (swap_heap i j q) = (tq_heap q)[i := tq_heap q ! j, j := tq_heap q ! i]"
  by (simp add: swap_heap_def set_heap_index_def Let_def)

definition parent :: "nat \<Rightarrow> nat" where
  "parent index = (index - 1) div 2"

lemma parent_less: "0 < i \<Longrightarrow> parent i < i"
  by (auto simp: parent_def)

lemma parent_child: "0 < i \<Longrightarrow> parent i = k \<longleftrightarrow> i = 2 * k + 1 \<or> i = 2 * k + 2"
  by (auto simp: parent_def)

function up_heap :: "nat \<Rightarrow> timer_queue \<Rightarrow> timer_queue" where
  "up_heap index q =
     (if index > 0
      then (if \<not> fst (tq_heap q ! index) < fst (tq_heap q ! parent index) then q
            else up_heap (parent index) (swap_heap index (parent index) q))
      else q)"
  by pat_completeness auto
termination
  by (relation "measure fst") (simp_all add: parent_less)

definition min_child :: "nat \<Rightarrow> (int \<times> nat) list \<Rightarrow> nat" where
  "min_child child heap =
     (if child + 1 = length heap \<or> fst (heap ! child) < fst (heap ! (child + 1)) then child else child + 1)"

function down_heap :: "nat \<Rightarrow> timer_queue \<Rightarrow> timer_queue" where
  "down_heap index q =
     (if index * 2 + 1 < length (tq_heap q)
      then (let child = min_child (index * 2 + 1) (tq_heap q)
            in if fst (tq_heap q ! index) < fst (tq_heap q ! child) then q
               else down_heap child (swap_heap index child q))
      else q)"
  by pat_completeness auto
termination
  by (relation "measure (\<lambda>(index, q). length (tq_heap q) - index)") (auto simp: min_child_def split: if_splits)

declare up_heap.simps [simp del] down_heap.simps [simp del]

section \<open>The operations\<close>

definition unlink_timer :: "nat \<Rightarrow> timer_queue \<Rightarrow> timer_queue" where
  "unlink_timer t q =
     (let timers = (if tq_timers q = Some t then pt_next (tq_data q t) else tq_timers q);
          d = tq_data q;
          d = (case pt_prev (d t) of None \<Rightarrow> d | Some p \<Rightarrow> d(p := (d p)\<lparr>pt_next := pt_next (d t)\<rparr>));
          d = (case pt_next (d t) of None \<Rightarrow> d | Some n \<Rightarrow> d(n := (d n)\<lparr>pt_prev := pt_prev (d t)\<rparr>));
          d = d(t := (d t)\<lparr>pt_next := None, pt_prev := None\<rparr>)
      in q\<lparr>tq_timers := timers, tq_data := d\<rparr>)"

definition pop_back :: "timer_queue \<Rightarrow> timer_queue" where
  "pop_back q = q\<lparr>tq_heap := butlast (tq_heap q)\<rparr>"

definition leave_heap :: "nat \<Rightarrow> timer_queue \<Rightarrow> timer_queue" where
  "leave_heap t q =
     (let index = pt_heap_index (tq_data q t) in
      if tq_heap q \<noteq> [] \<and> index < length (tq_heap q)
      then (if index = length (tq_heap q) - 1 then pop_back (set_heap_index t NO_INDEX q)
            else (let q = pop_back (set_heap_index t NO_INDEX (swap_heap index (length (tq_heap q) - 1) q))
                  in if index > 0 \<and> fst (tq_heap q ! index) < fst (tq_heap q ! parent index)
                     then up_heap index q
                     else down_heap index q))
      else q)"

definition remove_timer :: "nat \<Rightarrow> timer_queue \<Rightarrow> timer_queue" where
  "remove_timer t q = unlink_timer t (leave_heap t q)"

definition set_ops :: "nat \<Rightarrow> wait_op list \<Rightarrow> timer_queue \<Rightarrow> timer_queue" where
  "set_ops t ops q = q\<lparr>tq_data := (tq_data q)(t := (tq_data q t)\<lparr>pt_ops := ops\<rparr>)\<rparr>"

definition active :: "nat \<Rightarrow> timer_queue \<Rightarrow> bool" where
  "active t q \<longleftrightarrow> pt_prev (tq_data q t) \<noteq> None \<or> tq_timers q = Some t"

definition enter_heap :: "int \<Rightarrow> nat \<Rightarrow> timer_queue \<Rightarrow> timer_queue" where
  "enter_heap time t q =
     (let q = set_heap_index t (length (tq_heap q)) q;
          q = q\<lparr>tq_heap := tq_heap q @ [(time, t)]\<rparr>
      in up_heap (length (tq_heap q) - 1) q)"

definition link_timer :: "nat \<Rightarrow> timer_queue \<Rightarrow> timer_queue" where
  "link_timer t q =
     (let d = (tq_data q)(t := (tq_data q t)\<lparr>pt_next := tq_timers q, pt_prev := None\<rparr>);
          d = (case tq_timers q of None \<Rightarrow> d | Some h \<Rightarrow> d(h := (d h)\<lparr>pt_prev := Some t\<rparr>))
      in q\<lparr>tq_timers := Some t, tq_data := d\<rparr>)"

definition enqueue_timer :: "int \<Rightarrow> nat \<Rightarrow> wait_op \<Rightarrow> timer_queue \<Rightarrow> bool \<times> timer_queue" where
  "enqueue_timer time t wop q =
     (let q = (if \<not> active t q then link_timer t (enter_heap time t q) else q);
          q = set_ops t (pt_ops (tq_data q t) @ [wop]) q
      in (pt_heap_index (tq_data q t) = 0 \<and> hd (pt_ops (tq_data q t)) = wop, q))"

type_synonym completed = "(wait_op \<times> error_code option) list"

text \<open>The loop ends only if the timer at the front knows its place in the heap.\<close>

partial_function (option) get_ready_timers :: "int \<Rightarrow> timer_queue \<Rightarrow> completed \<Rightarrow> (completed \<times> timer_queue) option"
where
  "get_ready_timers now q ops =
     (if tq_heap q \<noteq> [] \<and> \<not> now < fst (tq_heap q ! 0)
      then (let timer = snd (tq_heap q ! 0);
                ready = map (\<lambda>wop. (wop, None)) (pt_ops (tq_data q timer))
            in get_ready_timers now (remove_timer timer (set_ops timer [] q)) (ops @ ready))
      else Some (ops, q))"

partial_function (option) get_all_loop :: "timer_queue \<Rightarrow> wait_op list \<Rightarrow> (wait_op list \<times> timer_queue) option"
where
  "get_all_loop q ops =
     (case tq_timers q of
        None \<Rightarrow> Some (ops, q)
      | Some t \<Rightarrow>
          get_all_loop
            (q\<lparr>tq_timers := pt_next (tq_data q t),
               tq_data := (tq_data q)(t := (tq_data q t)\<lparr>pt_ops := [], pt_next := None, pt_prev := None\<rparr>)\<rparr>)
            (ops @ pt_ops (tq_data q t)))"

definition get_all_timers :: "timer_queue \<Rightarrow> (wait_op list \<times> timer_queue) option" where
  "get_all_timers q =
     (case get_all_loop q [] of
        None \<Rightarrow> None
      | Some (ops, q) \<Rightarrow> Some (ops, q\<lparr>tq_heap := []\<rparr>))"

definition aborted :: "wait_op list \<Rightarrow> completed" where
  "aborted ops = map (\<lambda>wop. (wop, Some Operation_aborted)) ops"

definition cancel_timer :: "nat \<Rightarrow> nat \<Rightarrow> timer_queue \<Rightarrow> nat \<times> completed \<times> timer_queue" where
  "cancel_timer t max_cancelled q =
     (if active t q
      then (let ops = pt_ops (tq_data q t);
                cancelled = take max_cancelled ops;
                q = set_ops t (drop max_cancelled ops) q;
                q = (if pt_ops (tq_data q t) = [] then remove_timer t q else q)
            in (length cancelled, aborted cancelled, q))
      else (0, [], q))"

definition cancel_timer_by_key :: "nat \<Rightarrow> nat \<Rightarrow> timer_queue \<Rightarrow> completed \<times> timer_queue" where
  "cancel_timer_by_key t key q =
     (if active t q
      then (let ops = pt_ops (tq_data q t);
                q = set_ops t (filter (\<lambda>wop. wo_cancellation_key wop \<noteq> key) ops) q;
                q = (if pt_ops (tq_data q t) = [] then remove_timer t q else q)
            in (aborted (filter (\<lambda>wop. wo_cancellation_key wop = key) ops), q))
      else ([], q))"

text \<open>\<open>empty\<close>.\<close>

definition timer_queue_empty :: "timer_queue \<Rightarrow> bool" where
  "timer_queue_empty q \<longleftrightarrow> tq_timers q = None"

text \<open>How long the reactor may sleep: until the earliest expiry, in whole units but not less than one.\<close>

definition to_msec :: "int \<Rightarrow> int \<Rightarrow> int" where
  "to_msec ticks max_duration =
     (if ticks \<le> 0 then 0
      else (let msec = total_milliseconds ticks in
            if msec = 0 then 1 else if msec > max_duration then max_duration else msec))"

definition to_usec :: "int \<Rightarrow> int \<Rightarrow> int" where
  "to_usec ticks max_duration =
     (if ticks \<le> 0 then 0
      else (let usec = total_microseconds ticks in
            if usec = 0 then 1 else if usec > max_duration then max_duration else usec))"

definition wait_duration_msec :: "int \<Rightarrow> int \<Rightarrow> timer_queue \<Rightarrow> int" where
  "wait_duration_msec now max_duration q =
     (if tq_heap q = [] then max_duration else to_msec (time_subtract (fst (tq_heap q ! 0)) now) max_duration)"

definition wait_duration_usec :: "int \<Rightarrow> int \<Rightarrow> timer_queue \<Rightarrow> int" where
  "wait_duration_usec now max_duration q =
     (if tq_heap q = [] then max_duration else to_usec (time_subtract (fst (tq_heap q ! 0)) now) max_duration)"

text \<open>\<open>target\<close> is a timer without operations that is not in the queue.\<close>

definition hand_over :: "nat \<Rightarrow> nat \<Rightarrow> timer_queue \<Rightarrow> timer_queue" where
  "hand_over target source q =
     (let q = set_ops target (pt_ops (tq_data q target) @ pt_ops (tq_data q source)) (set_ops source [] q);
          i = pt_heap_index (tq_data q source);
          q = set_heap_index source NO_INDEX (set_heap_index target i q)
      in if i < length (tq_heap q) then q\<lparr>tq_heap := (tq_heap q)[i := (fst (tq_heap q ! i), target)]\<rparr> else q)"

definition relink :: "nat \<Rightarrow> nat \<Rightarrow> timer_queue \<Rightarrow> timer_queue" where
  "relink target source q =
     (let timers = (if tq_timers q = Some source then Some target else tq_timers q);
          d = tq_data q;
          d = (case pt_prev (d source) of None \<Rightarrow> d | Some p \<Rightarrow> d(p := (d p)\<lparr>pt_next := Some target\<rparr>));
          d = (case pt_next (d source) of None \<Rightarrow> d | Some n \<Rightarrow> d(n := (d n)\<lparr>pt_prev := Some target\<rparr>));
          d = d(target := (d target)\<lparr>pt_next := pt_next (d source), pt_prev := pt_prev (d source)\<rparr>);
          d = d(source := (d source)\<lparr>pt_next := None, pt_prev := None\<rparr>)
      in q\<lparr>tq_timers := timers, tq_data := d\<rparr>)"

definition move_timer :: "nat \<Rightarrow> nat \<Rightarrow> timer_queue \<Rightarrow> timer_queue" where
  "move_timer target source q = relink target source (hand_over target source q)"

section \<open>The order of the heap\<close>

abbreviation expiry :: "(int \<times> nat) list \<Rightarrow> nat \<Rightarrow> int" where
  "expiry h i \<equiv> fst (h ! i)"

definition heap_ordered :: "(int \<times> nat) list \<Rightarrow> bool" where
  "heap_ordered h \<longleftrightarrow> (\<forall>i. 0 < i \<and> i < length h \<longrightarrow> expiry h (parent i) \<le> expiry h i)"

text \<open>Ordered but for one element, which may be too early or too late for its place.\<close>

definition grand_ordered :: "nat \<Rightarrow> (int \<times> nat) list \<Rightarrow> bool" where
  "grand_ordered k h \<longleftrightarrow> (0 < k \<longrightarrow>
     (\<forall>i. 0 < i \<and> i < length h \<and> parent i = k \<longrightarrow> expiry h (parent k) \<le> expiry h i))"

definition maybe_early :: "nat \<Rightarrow> (int \<times> nat) list \<Rightarrow> bool" where
  "maybe_early k h \<longleftrightarrow> grand_ordered k h \<and>
     (\<forall>i. 0 < i \<and> i < length h \<and> i \<noteq> k \<longrightarrow> expiry h (parent i) \<le> expiry h i)"

definition maybe_late :: "nat \<Rightarrow> (int \<times> nat) list \<Rightarrow> bool" where
  "maybe_late k h \<longleftrightarrow> grand_ordered k h \<and>
     (\<forall>i. 0 < i \<and> i < length h \<and> parent i \<noteq> k \<longrightarrow> expiry h (parent i) \<le> expiry h i)"

lemma nth_swap:
  "i < length h \<Longrightarrow> j < length h \<Longrightarrow> m < length h \<Longrightarrow>
     h[i := h ! j, j := h ! i] ! m = (if m = j then h ! i else if m = i then h ! j else h ! m)"
  by (simp add: nth_list_update)

lemma early_up:
  assumes e: "maybe_early k h" and k: "0 < k" "k < length h" and less: "expiry h k < expiry h (parent k)"
  shows "maybe_early (parent k) (h[k := h ! parent k, parent k := h ! k])"
proof -
  let ?p = "parent k" and ?h = "h[k := h ! parent k, parent k := h ! k]"
  have p: "?p < k" "?p < length h" using parent_less [OF k(1)] k(2) by simp_all
  have nth: "m < length h \<Longrightarrow> ?h ! m = (if m = ?p then h ! k else if m = k then h ! ?p else h ! m)" for m
    using nth_swap [OF k(2) p(2)] .
  have ord: "0 < i \<Longrightarrow> i < length h \<Longrightarrow> i \<noteq> k \<Longrightarrow> expiry h (parent i) \<le> expiry h i" for i
    using e by (auto simp: maybe_early_def)
  have grand: "0 < i \<Longrightarrow> i < length h \<Longrightarrow> parent i = k \<Longrightarrow> expiry h ?p \<le> expiry h i" for i
    using e k(1) by (auto simp: maybe_early_def grand_ordered_def)
  have "expiry ?h (parent i) \<le> expiry ?h i" if i: "0 < i" "i < length h" "i \<noteq> ?p" for i
  proof -
    have pi: "parent i < length h" using parent_less [OF i(1)] i(2) by simp
    show ?thesis
      using nth [OF i(2)] nth [OF pi] i less ord [OF i(1,2)] grand [OF i(1,2)] p by auto
  qed
  moreover have "expiry ?h (parent ?p) \<le> expiry ?h i" if i: "0 < ?p" "0 < i" "i < length h" "parent i = ?p" for i
  proof -
    have pp: "parent ?p < ?p" using parent_less [OF i(1)] .
    then show ?thesis
      using nth [OF i(3)] nth [of "parent ?p"] i p ord [OF i(1) p(2)] ord [OF i(2,3)] parent_less [OF i(2)] by auto
  qed
  ultimately show ?thesis by (simp add: maybe_early_def grand_ordered_def)
qed

lemma late_down:
  assumes l: "maybe_late k h" and c: "0 < c" "c < length h" "parent c = k"
    and min: "\<And>i. 0 < i \<Longrightarrow> i < length h \<Longrightarrow> parent i = k \<Longrightarrow> expiry h c \<le> expiry h i"
    and le: "expiry h c \<le> expiry h k"
  shows "maybe_late c (h[k := h ! c, c := h ! k])"
proof -
  let ?h = "h[k := h ! c, c := h ! k]"
  have k: "k < c" "k < length h" using parent_less [OF c(1)] c(2,3) by simp_all
  have nth: "m < length h \<Longrightarrow> ?h ! m = (if m = c then h ! k else if m = k then h ! c else h ! m)" for m
    using nth_swap [OF k(2) c(2)] .
  have ord: "0 < i \<Longrightarrow> i < length h \<Longrightarrow> parent i \<noteq> k \<Longrightarrow> expiry h (parent i) \<le> expiry h i" for i
    using l by (auto simp: maybe_late_def)
  have grand: "0 < k \<Longrightarrow> expiry h (parent k) \<le> expiry h c"
    using l c by (auto simp: maybe_late_def grand_ordered_def)
  have "expiry ?h (parent i) \<le> expiry ?h i" if i: "0 < i" "i < length h" "parent i \<noteq> c" for i
  proof -
    have pi: "parent i < i" "parent i < length h" using parent_less [OF i(1)] i(2) by simp_all
    show ?thesis
      using nth [OF i(2)] nth [OF pi(2)] i le ord [OF i(1,2)] min [OF i(1,2)] grand c(3) k pi(1) by auto
  qed
  moreover have "expiry ?h (parent c) \<le> expiry ?h i" if i: "0 < i" "i < length h" "parent i = c" for i
    using nth [OF i(2)] nth [OF k(2)] i k c(3) ord [OF i(1,2)] parent_less [OF i(1)] by auto
  ultimately show ?thesis by (simp add: maybe_late_def grand_ordered_def)
qed

lemma up_heap_ordered:
  "maybe_early k (tq_heap q) \<Longrightarrow> k < length (tq_heap q) \<Longrightarrow> heap_ordered (tq_heap (up_heap k q))"
proof (induction k q rule: up_heap.induct)
  case (1 k q)
  show ?case
  proof (cases "0 < k \<and> fst (tq_heap q ! k) < fst (tq_heap q ! parent k)")
    case True
    have "maybe_early (parent k) (tq_heap (swap_heap k (parent k) q))"
      using early_up [OF "1.prems"(1)] True "1.prems"(2) by simp
    then have "heap_ordered (tq_heap (up_heap (parent k) (swap_heap k (parent k) q)))"
      using "1.IH" True "1.prems"(2) parent_less [of k] by simp
    then show ?thesis using True by (subst up_heap.simps) simp
  next
    case False
    then have "up_heap k q = q" by (subst up_heap.simps) auto
    moreover have "expiry (tq_heap q) (parent i) \<le> expiry (tq_heap q) i" if "0 < i" "i < length (tq_heap q)" for i
      using "1.prems"(1) False that by (cases "i = k") (auto simp: maybe_early_def)
    ultimately show ?thesis by (simp add: heap_ordered_def)
  qed
qed

lemma min_child_ok:
  assumes "index * 2 + 1 < length h"
  defines "m \<equiv> min_child (index * 2 + 1) h"
  shows "0 < m" "m < length h" "parent m = index"
    and "0 < i \<Longrightarrow> i < length h \<Longrightarrow> parent i = index \<Longrightarrow> expiry h m \<le> expiry h i"
proof -
  show "0 < m" "m < length h" "parent m = index"
    using assms(1) by (auto simp: m_def min_child_def parent_def)
  assume i: "0 < i" "i < length h" "parent i = index"
  then have "i = index * 2 + 1 \<or> i = index * 2 + 1 + 1"
    using parent_child [OF i(1), of index] by (simp add: mult.commute)
  then show "expiry h m \<le> expiry h i" using i(2) unfolding m_def min_child_def by (elim disjE) simp_all
qed

lemma down_heap_cases:
  obtains (stop) "down_heap k q = q" "\<not> k * 2 + 1 < length (tq_heap q)"
  | (early) m where "down_heap k q = q" "k * 2 + 1 < length (tq_heap q)" "m = min_child (k * 2 + 1) (tq_heap q)"
      "expiry (tq_heap q) k < expiry (tq_heap q) m"
  | (late) m where "down_heap k q = down_heap m (swap_heap k m q)" "k * 2 + 1 < length (tq_heap q)"
      "m = min_child (k * 2 + 1) (tq_heap q)" "\<not> expiry (tq_heap q) k < expiry (tq_heap q) m"
proof -
  note step = down_heap.simps [of k q, unfolded Let_def]
  show thesis
  proof (cases "k * 2 + 1 < length (tq_heap q)")
    case True
    with step that(2,3) show thesis by (metis (full_types))
  next
    case False
    with step that(1) show thesis by (metis (full_types))
  qed
qed

lemma down_heap_ordered:
  "maybe_late k (tq_heap q) \<Longrightarrow> k < length (tq_heap q) \<Longrightarrow> heap_ordered (tq_heap (down_heap k q))"
proof (induction k q rule: down_heap.induct)
  case (1 k q)
  let ?h = "tq_heap q"
  show ?case
  proof (cases rule: down_heap_cases [of k q])
    case stop
    have "parent i \<noteq> k" if "0 < i" "i < length ?h" for i
      using that stop(2) parent_child [OF that(1), of k] by auto
    then show ?thesis using "1.prems"(1) stop(1) by (simp add: heap_ordered_def maybe_late_def)
  next
    case (early m)
    note m = min_child_ok [OF early(2), folded early(3)]
    have "expiry ?h (parent i) \<le> expiry ?h i" if "0 < i" "i < length ?h" for i
    proof (cases "parent i = k")
      case True
      with early(4) m(4) [OF that] show ?thesis by simp
    next
      case False
      then show ?thesis using "1.prems"(1) that unfolding maybe_late_def by blast
    qed
    then show ?thesis using early(1) by (simp add: heap_ordered_def)
  next
    case (late m)
    note m = min_child_ok [OF late(2), folded late(3)]
    have "maybe_late m (tq_heap (swap_heap k m q))"
      unfolding swap_heap_heap by (rule late_down [OF "1.prems"(1) m]) (use late(4) in auto)
    then show ?thesis
      unfolding late(1) using m(2) by (intro "1.IH" [OF late(2,3,4)]) simp_all
  qed
qed

lemma heap_front:
  assumes "heap_ordered h" "i < length h"
  shows "expiry h 0 \<le> expiry h i"
  using assms(2)
proof (induction i rule: less_induct)
  case (less i)
  show ?case
  proof (cases "i = 0")
    case False
    then have "parent i < i" by (simp add: parent_less)
    with less have "expiry h 0 \<le> expiry h (parent i)" by simp
    also have "\<dots> \<le> expiry h i" using assms(1) less.prems False by (simp add: heap_ordered_def)
    finally show ?thesis .
  qed simp
qed

section \<open>Timers know their place\<close>

definition indexed :: "timer_queue \<Rightarrow> bool" where
  "indexed q \<longleftrightarrow> (\<forall>i < length (tq_heap q). pt_heap_index (tq_data q (snd (tq_heap q ! i))) = i)"

abbreviation members :: "timer_queue \<Rightarrow> nat set" where
  "members q \<equiv> snd ` set (tq_heap q)"

text \<open>What moving the elements of the heap around leaves alone.\<close>

definition untouched :: "nat set \<Rightarrow> timer_queue \<Rightarrow> timer_queue \<Rightarrow> bool" where
  "untouched moved q q' \<longleftrightarrow> tq_timers q' = tq_timers q \<and>
     (\<forall>t. pt_ops (tq_data q' t) = pt_ops (tq_data q t) \<and> pt_next (tq_data q' t) = pt_next (tq_data q t) \<and>
          pt_prev (tq_data q' t) = pt_prev (tq_data q t) \<and> (t \<notin> moved \<longrightarrow> tq_data q' t = tq_data q t))"

definition rearranged :: "timer_queue \<Rightarrow> timer_queue \<Rightarrow> bool" where
  "rearranged q q' \<longleftrightarrow> mset (tq_heap q') = mset (tq_heap q) \<and> untouched (members q) q q'"

lemma untouched_refl [simp]: "untouched m q q"
  by (simp add: untouched_def)

lemma untouched_trans: "untouched m q1 q2 \<Longrightarrow> untouched m q2 q3 \<Longrightarrow> untouched m q1 q3"
  by (simp add: untouched_def)

lemma untouched_mono: "untouched m q q' \<Longrightarrow> m \<subseteq> n \<Longrightarrow> untouched n q q'"
  by (auto simp: untouched_def)

lemma rearranged_refl [simp]: "rearranged q q"
  by (simp add: rearranged_def)

lemma rearranged_set: "rearranged q q' \<Longrightarrow> set (tq_heap q') = set (tq_heap q)"
  unfolding rearranged_def by (metis set_mset_mset)

lemma rearranged_trans: "rearranged q1 q2 \<Longrightarrow> rearranged q2 q3 \<Longrightarrow> rearranged q1 q3"
  using rearranged_set [of q1 q2] untouched_trans by (auto simp: rearranged_def)

lemma rearranged_length: "rearranged q q' \<Longrightarrow> length (tq_heap q') = length (tq_heap q)"
  unfolding rearranged_def by (metis size_mset)

lemma indexed_inj:
  "indexed q \<Longrightarrow> i < length (tq_heap q) \<Longrightarrow> j < length (tq_heap q) \<Longrightarrow>
     snd (tq_heap q ! i) = snd (tq_heap q ! j) \<longleftrightarrow> i = j"
  unfolding indexed_def by metis

lemma swap_heap_data:
  "tq_data (swap_heap i j q) t =
     (if t = snd (tq_heap (swap_heap i j q) ! j) then (tq_data q t)\<lparr>pt_heap_index := j\<rparr>
      else if t = snd (tq_heap (swap_heap i j q) ! i) then (tq_data q t)\<lparr>pt_heap_index := i\<rparr>
      else tq_data q t)"
  by (simp add: swap_heap_def set_heap_index_def Let_def)

lemma swap_heap_timers [simp]: "tq_timers (swap_heap i j q) = tq_timers q"
  by (simp add: swap_heap_def set_heap_index_def Let_def)

lemma swap_heap_ok:
  assumes "indexed q" "i < length (tq_heap q)" "j < length (tq_heap q)"
  shows "indexed (swap_heap i j q)" "rearranged q (swap_heap i j q)"
proof -
  let ?h = "tq_heap (swap_heap i j q)"
  have nth: "m < length (tq_heap q) \<Longrightarrow>
      ?h ! m = (if m = j then tq_heap q ! i else if m = i then tq_heap q ! j else tq_heap q ! m)" for m
    using nth_swap [OF assms(2,3)] by simp
  have "pt_heap_index (tq_data (swap_heap i j q) (snd (?h ! m))) = m" if m: "m < length (tq_heap q)" for m
    using assms(1) m indexed_inj [OF assms(1) m assms(2)] indexed_inj [OF assms(1) m assms(3)]
      indexed_inj [OF assms(1,2,3)]
    unfolding swap_heap_data nth [OF m] nth [OF assms(2)] nth [OF assms(3)] by (auto simp: indexed_def)
  then show "indexed (swap_heap i j q)" by (simp add: indexed_def)
  have "mset ?h = mset (tq_heap q)" using mset_swap [OF assms(3,2)] by simp
  moreover have "snd (?h ! i) \<in> members q" "snd (?h ! j) \<in> members q"
    unfolding nth [OF assms(2)] nth [OF assms(3)] using assms(2,3) by simp_all
  ultimately show "rearranged q (swap_heap i j q)"
    by (auto simp: rearranged_def untouched_def swap_heap_data)
qed

lemma up_heap_ok:
  "indexed q \<Longrightarrow> k < length (tq_heap q) \<Longrightarrow> indexed (up_heap k q) \<and> rearranged q (up_heap k q)"
proof (induction k q rule: up_heap.induct)
  case (1 k q)
  show ?case
  proof (cases "0 < k \<and> fst (tq_heap q ! k) < fst (tq_heap q ! parent k)")
    case True
    let ?q = "swap_heap k (parent k) q"
    have p: "parent k < length (tq_heap q)" using parent_less [of k] True "1.prems"(2) by simp
    note s = swap_heap_ok [OF "1.prems" p]
    have "indexed (up_heap (parent k) ?q) \<and> rearranged ?q (up_heap (parent k) ?q)"
      using "1.IH" True s p by simp
    moreover have "up_heap k q = up_heap (parent k) ?q" using True by (subst up_heap.simps) simp
    ultimately show ?thesis using rearranged_trans [OF s(2)] by simp
  next
    case False
    then have "up_heap k q = q" by (subst up_heap.simps) auto
    then show ?thesis using "1.prems" by simp
  qed
qed

lemma down_heap_ok:
  "indexed q \<Longrightarrow> k < length (tq_heap q) \<Longrightarrow> indexed (down_heap k q) \<and> rearranged q (down_heap k q)"
proof (induction k q rule: down_heap.induct)
  case (1 k q)
  show ?case
  proof (cases rule: down_heap_cases [of k q])
    case (late m)
    note m = min_child_ok [OF late(2), folded late(3)]
    note s = swap_heap_ok [OF "1.prems" m(2)]
    have "indexed (down_heap m (swap_heap k m q)) \<and> rearranged (swap_heap k m q) (down_heap m (swap_heap k m q))"
      using m(2) s(1) by (intro "1.IH" [OF late(2,3,4)]) simp_all
    then show ?thesis using late(1) rearranged_trans [OF s(2)] by simp
  qed (use "1.prems" in simp_all)
qed

lemma indexed_distinct: "indexed q \<Longrightarrow> distinct (map snd (tq_heap q))"
  by (simp add: distinct_conv_nth indexed_inj)

lemma indexed_at:
  assumes "indexed q" "t \<in> members q"
  shows "pt_heap_index (tq_data q t) < length (tq_heap q)" "snd (tq_heap q ! pt_heap_index (tq_data q t)) = t"
proof -
  obtain i where "i < length (tq_heap q)" "snd (tq_heap q ! i) = t"
    using assms(2) by (auto simp: in_set_conv_nth)
  with assms(1) show "pt_heap_index (tq_data q t) < length (tq_heap q)"
    "snd (tq_heap q ! pt_heap_index (tq_data q t)) = t"
    by (auto simp: indexed_def)
qed

section \<open>Leaving the heap\<close>

text \<open>What leaving the heap does to a timer, and leaves alone.\<close>

definition left_heap :: "nat \<Rightarrow> timer_queue \<Rightarrow> timer_queue \<Rightarrow> bool" where
  "left_heap t q q' \<longleftrightarrow> indexed q' \<and> heap_ordered (tq_heap q') \<and>
     set (tq_heap q') = {x \<in> set (tq_heap q). snd x \<noteq> t} \<and> length (tq_heap q) = Suc (length (tq_heap q')) \<and>
     pt_heap_index (tq_data q' t) = NO_INDEX \<and> untouched (members q) q q'"

lemma heap_ordered_butlast: "heap_ordered h \<Longrightarrow> heap_ordered (butlast h)"
  unfolding heap_ordered_def
proof (intro allI impI)
  assume h: "\<forall>i. 0 < i \<and> i < length h \<longrightarrow> expiry h (parent i) \<le> expiry h i"
  fix i assume i: "0 < i \<and> i < length (butlast h)"
  then have "parent i < i" by (simp add: parent_less)
  with h i show "expiry (butlast h) (parent i) \<le> expiry (butlast h) i" by (simp add: nth_butlast)
qed

lemma pop_ok:
  assumes "indexed q" "tq_heap q \<noteq> []" "snd (last (tq_heap q)) = t"
  defines "q' \<equiv> pop_back (set_heap_index t NO_INDEX q)"
  shows "indexed q'" "set (tq_heap q') = {x \<in> set (tq_heap q). snd x \<noteq> t}"
proof -
  let ?n = "length (tq_heap q) - 1"
  have n: "?n < length (tq_heap q)" using assms(2) by simp
  have "snd (tq_heap q ! m) \<noteq> t" if "m < ?n" for m
    using indexed_inj [OF assms(1), of m ?n] that n assms(2,3) by (simp add: last_conv_nth)
  then show "indexed q'"
    using assms(1) by (simp add: q'_def indexed_def pop_back_def set_heap_index_def nth_butlast)
  have "distinct (map snd (butlast (tq_heap q) @ [last (tq_heap q)]))"
    using indexed_distinct [OF assms(1)] assms(2) by simp
  then have "t \<notin> snd ` set (butlast (tq_heap q))" using assms(3) by simp
  then have "\<forall>x \<in> set (butlast (tq_heap q)). snd x \<noteq> t" by blast
  moreover have "set (tq_heap q) = insert (last (tq_heap q)) (set (butlast (tq_heap q)))"
    using assms(2) by (metis append_butlast_last_id list.set(2) rotate1.simps(2) set_rotate1)
  ultimately show "set (tq_heap q') = {x \<in> set (tq_heap q). snd x \<noteq> t}"
    using assms(3) by (auto simp: q'_def pop_back_def set_heap_index_def)
qed

lemma hole_filled:
  assumes ord: "heap_ordered h" and i: "i < length h - 1"
    and h': "length h' = length h - 1" "\<And>m. m < length h - 1 \<Longrightarrow> h' ! m = (if m = i then x else h ! m)"
  shows "0 < i \<and> fst x < expiry h' (parent i) \<Longrightarrow> maybe_early i h'"
    and "\<not> (0 < i \<and> fst x < expiry h' (parent i)) \<Longrightarrow> maybe_late i h'"
proof -
  have o: "0 < m \<Longrightarrow> m < length h \<Longrightarrow> expiry h (parent m) \<le> expiry h m" for m
    using ord by (simp add: heap_ordered_def)
  have grand: "grand_ordered i h'"
    unfolding grand_ordered_def
  proof (intro impI allI)
    fix m assume pos: "0 < i" and m: "0 < m \<and> m < length h' \<and> parent m = i"
    have "parent i < i" "i < m" "m < length h" using parent_less [of i] parent_less [of m] pos m h'(1) by auto
    then show "expiry h' (parent i) \<le> expiry h' m"
      using o [of i] o [of m] pos m h' i by simp
  qed
  {
    assume early: "0 < i \<and> fst x < expiry h' (parent i)"
    have "expiry h' (parent m) \<le> expiry h' m" if m: "0 < m" "m < length h'" "m \<noteq> i" for m
    proof (cases "parent m = i")
      case True
      have "expiry h' (parent i) \<le> expiry h' m" using grand early m(1,2) True by (simp add: grand_ordered_def)
      then show ?thesis using early True h' i by simp
    next
      case False
      then show ?thesis using o [OF m(1)] m h' parent_less [OF m(1)] by simp
    qed
    then show "maybe_early i h'" using grand by (simp add: maybe_early_def)
  next
    assume late: "\<not> (0 < i \<and> fst x < expiry h' (parent i))"
    have "expiry h' (parent m) \<le> expiry h' m" if m: "0 < m" "m < length h'" "parent m \<noteq> i" for m
    proof (cases "m = i")
      case True
      then show ?thesis using late m h' i by simp
    next
      case False
      then show ?thesis using o [OF m(1)] m h' parent_less [OF m(1)] by simp
    qed
    then show "maybe_late i h'" using grand by (simp add: maybe_late_def)
  }
qed

lemma leave_heap_ok:
  assumes "indexed q" "heap_ordered (tq_heap q)" "t \<in> members q"
  shows "left_heap t q (leave_heap t q)"
proof -
  let ?i = "pt_heap_index (tq_data q t)" and ?n = "length (tq_heap q) - 1"
  have i: "?i < length (tq_heap q)" "snd (tq_heap q ! ?i) = t" using indexed_at [OF assms(1,3)] .
  have ne: "tq_heap q \<noteq> []" using i(1) by auto
  show ?thesis
  proof (cases "?i = ?n")
    case True
    then have "snd (last (tq_heap q)) = t" using i ne by (simp add: last_conv_nth)
    note pop = pop_ok [OF assms(1) ne this]
    have "leave_heap t q = pop_back (set_heap_index t NO_INDEX q)"
      using True i ne by (simp add: leave_heap_def Let_def)
    with pop show ?thesis
      using heap_ordered_butlast [OF assms(2)] assms(3) ne
      by (auto simp: left_heap_def pop_back_def set_heap_index_def untouched_def)
  next
    case False
    have n: "?n < length (tq_heap q)" "?i < ?n" using False i(1) by simp_all
    define q1 where "q1 = swap_heap ?i ?n q"
    define q2 where "q2 = pop_back (set_heap_index t NO_INDEX q1)"
    define early where "early \<longleftrightarrow> 0 < ?i \<and> fst (tq_heap q2 ! ?i) < fst (tq_heap q2 ! parent ?i)"
    define q3 where "q3 = (if early then up_heap ?i q2 else down_heap ?i q2)"
    have s: "indexed q1" "rearranged q q1" unfolding q1_def by (rule swap_heap_ok [OF assms(1) i(1) n(1)])+
    have last: "tq_heap q1 \<noteq> []" "snd (last (tq_heap q1)) = t"
      using n nth_swap [OF i(1) n(1) n(1)] ne i(2) by (simp_all add: q1_def last_conv_nth)
    note pop = pop_ok [OF s(1) last, folded q2_def]
    have h2: "length (tq_heap q2) = ?n"
      "\<And>m. m < ?n \<Longrightarrow> tq_heap q2 ! m = (if m = ?i then tq_heap q ! ?n else tq_heap q ! m)"
      using n nth_swap [OF i(1) n(1)]
      by (simp_all add: q2_def q1_def pop_back_def set_heap_index_def nth_butlast)
    have at: "tq_heap q2 ! ?i = tq_heap q ! ?n" "?i < length (tq_heap q2)" using h2 n(2) by simp_all
    note hole = hole_filled [OF assms(2) n(2) h2, folded at(1), folded early_def]
    have ord: "heap_ordered (tq_heap q3)" "indexed q3" "rearranged q2 q3"
    proof (atomize (full), cases early)
      case True
      then show "heap_ordered (tq_heap q3) \<and> indexed q3 \<and> rearranged q2 q3"
        using up_heap_ordered [OF hole(1) at(2)] up_heap_ok [OF pop(1) at(2)] by (simp add: q3_def)
    next
      case False
      then show "heap_ordered (tq_heap q3) \<and> indexed q3 \<and> rearranged q2 q3"
        using down_heap_ordered [OF hole(2) at(2)] down_heap_ok [OF pop(1) at(2)] by (simp add: q3_def)
    qed
    have leave: "leave_heap t q = q3"
      using False i(1) ne by (simp add: leave_heap_def Let_def q3_def early_def q2_def q1_def)
    have sets: "set (tq_heap q2) = {x \<in> set (tq_heap q). snd x \<noteq> t}"
      unfolding pop(2) rearranged_set [OF s(2)] ..
    have u2: "untouched (members q) q q2" "pt_heap_index (tq_data q2 t) = NO_INDEX"
      using s(2) assms(3) by (auto simp: q2_def pop_back_def set_heap_index_def rearranged_def untouched_def)
    have "untouched (members q2) q2 q3" using ord(3) by (simp add: rearranged_def)
    then have u3: "untouched (members q) q2 q3" "tq_data q3 t = tq_data q2 t"
      using sets by (auto elim: untouched_mono simp: untouched_def)
    show ?thesis
      unfolding leave left_heap_def
      using ord(1,2) u2(2) u3(2) untouched_trans [OF u2(1) u3(1)] rearranged_set [OF ord(3)] sets
        rearranged_length [OF ord(3)] h2(1) n(2) by simp
  qed
qed

section \<open>The list of active timers\<close>

fun linked :: "(nat \<Rightarrow> per_timer_data) \<Rightarrow> nat option \<Rightarrow> nat option \<Rightarrow> nat list \<Rightarrow> bool" where
  "linked d prev head [] \<longleftrightarrow> head = None"
| "linked d prev head (t # ts) \<longleftrightarrow> head = Some t \<and> pt_prev (d t) = prev \<and> linked d (Some t) (pt_next (d t)) ts"

lemma linked_cong:
  "\<forall>t \<in> set ts. pt_next (d' t) = pt_next (d t) \<and> pt_prev (d' t) = pt_prev (d t) \<Longrightarrow>
     linked d' prev head ts = linked d prev head ts"
  by (induction ts arbitrary: prev head) auto

lemma linked_ends:
  "linked d prev head (xs @ t # ys) \<Longrightarrow>
     pt_prev (d t) = (if xs = [] then prev else Some (last xs)) \<and>
     pt_next (d t) = (if ys = [] then None else Some (hd ys))"
proof (induction xs arbitrary: prev head)
  case Nil
  then show ?case by (cases ys) auto
qed auto

lemma linked_head: "linked d prev head ts \<Longrightarrow> head = (if ts = [] then None else Some (hd ts))"
  by (cases ts) auto

text \<open>The fields after a timer was taken out of the list.\<close>

lemma unlink_fields:
  assumes "pt_prev (tq_data q t) \<noteq> Some t" "pt_next (tq_data q t) \<noteq> Some t"
  shows "pt_next (tq_data (unlink_timer t q) u) =
      (if u = t then None else if pt_prev (tq_data q t) = Some u then pt_next (tq_data q t) else pt_next (tq_data q u))"
    and "pt_prev (tq_data (unlink_timer t q) u) =
      (if u = t then None else if pt_next (tq_data q t) = Some u then pt_prev (tq_data q t) else pt_prev (tq_data q u))"
    and "pt_ops (tq_data (unlink_timer t q) u) = pt_ops (tq_data q u)"
    and "pt_heap_index (tq_data (unlink_timer t q) u) = pt_heap_index (tq_data q u)"
  using assms by (auto simp: unlink_timer_def Let_def split: option.split)

lemma unlink_linked:
  assumes "linked (tq_data q) prev head (xs @ t # ys)" "distinct (xs @ t # ys)"
    and "\<forall>p. prev = Some p \<longrightarrow> p \<notin> set (xs @ t # ys)"
    and "pt_prev (tq_data q t) \<noteq> Some t" "pt_next (tq_data q t) \<noteq> Some t"
  shows "linked (tq_data (unlink_timer t q)) prev (if head = Some t then pt_next (tq_data q t) else head) (xs @ ys)"
  using assms
proof (induction xs arbitrary: prev head)
  case Nil
  then have head: "head = Some t" "pt_prev (tq_data q t) = prev" "linked (tq_data q) (Some t) (pt_next (tq_data q t)) ys"
    by auto
  show ?case
  proof (cases ys)
    case Nil
    with head show ?thesis by simp
  next
    case (Cons y ys')
    let ?d = "tq_data (unlink_timer t q)"
    have y: "pt_next (tq_data q t) = Some y" "linked (tq_data q) (Some y) (pt_next (tq_data q y)) ys'"
      using head(3) Cons by auto
    have rest: "pt_next (?d u) = pt_next (tq_data q u)" "u \<noteq> y \<Longrightarrow> pt_prev (?d u) = pt_prev (tq_data q u)"
      if "u \<in> set ys" for u
      using that Nil.prems(2,3) head(2) y(1) unlink_fields(1,2) [OF Nil.prems(4,5), of u] by auto
    have "linked ?d (Some y) (pt_next (tq_data q y)) ys'"
      using y(2) rest Nil.prems(2) Cons by (subst linked_cong [of ys' ?d "tq_data q"]) auto
    moreover have "pt_prev (?d y) = prev" "pt_next (?d y) = pt_next (tq_data q y)"
      using unlink_fields(2) [OF Nil.prems(4,5), of y] y(1) head(2) rest(1) [of y] Cons Nil.prems(2) by auto
    ultimately show ?thesis using head(1) y(1) Cons by simp
  qed
next
  case (Cons x xs)
  let ?d = "tq_data (unlink_timer t q)"
  have x: "head = Some x" "pt_prev (tq_data q x) = prev"
    "linked (tq_data q) (Some x) (pt_next (tq_data q x)) (xs @ t # ys)" "x \<noteq> t"
    using Cons.prems(1,2) by auto
  note ends = linked_ends [OF x(3)]
  have "linked ?d (Some x) (if pt_next (tq_data q x) = Some t then pt_next (tq_data q t) else pt_next (tq_data q x)) (xs @ ys)"
    using Cons.prems(2,4,5) x(3) by (intro Cons.IH) auto
  moreover have "pt_next (?d x) = (if pt_next (tq_data q x) = Some t then pt_next (tq_data q t) else pt_next (tq_data q x))"
    using unlink_fields(1) [OF Cons.prems(4,5), of x] x(4) ends linked_head [OF x(3)] Cons.prems(2)
    by (cases "xs = []") (auto simp: hd_append)
  moreover have "pt_prev (?d x) = prev"
    using unlink_fields(2) [OF Cons.prems(4,5), of x] x(2,4) ends Cons.prems(2) by (auto split: if_splits)
  ultimately show ?case using x(1,4) by simp
qed

section \<open>The invariant of the queue\<close>

text \<open>\<open>ts\<close> are the active timers in the order of the list. The other timers are idle; what such a timer
  has as its place in the heap means nothing, \<open>get_all_timers\<close> leaves an old one there.\<close>

definition idle :: "per_timer_data \<Rightarrow> bool" where
  "idle d \<longleftrightarrow> pt_ops d = [] \<and> pt_next d = None \<and> pt_prev d = None"

definition queue_shape :: "nat list \<Rightarrow> timer_queue \<Rightarrow> bool" where
  "queue_shape ts q \<longleftrightarrow> linked (tq_data q) None (tq_timers q) ts \<and> distinct ts \<and> set ts = members q \<and>
     indexed q \<and> heap_ordered (tq_heap q) \<and> (\<forall>t. t \<notin> set ts \<longrightarrow> idle (tq_data q t))"

definition queue_ok :: "nat list \<Rightarrow> timer_queue \<Rightarrow> bool" where
  "queue_ok ts q \<longleftrightarrow> queue_shape ts q \<and> (\<forall>t \<in> set ts. pt_ops (tq_data q t) \<noteq> [])"

text \<open>What is waited for: the expiry and the operations of a timer.\<close>

definition waiting :: "timer_queue \<Rightarrow> nat \<Rightarrow> (int \<times> wait_op list) option" where
  "waiting q t = map_option (\<lambda>e. (e, pt_ops (tq_data q t))) (map_of (map prod.swap (tq_heap q)) t)"

lemma waiting_iff:
  assumes "indexed q"
  shows "waiting q t = Some (e, ops) \<longleftrightarrow> (e, t) \<in> set (tq_heap q) \<and> ops = pt_ops (tq_data q t)"
proof -
  have "distinct (map fst (map prod.swap (tq_heap q)))"
    using indexed_distinct [OF assms] by (simp add: comp_def)
  then have "map_of (map prod.swap (tq_heap q)) t = Some e \<longleftrightarrow> (t, e) \<in> set (map prod.swap (tq_heap q))"
    by (rule map_of_eq_Some_iff)
  also have "\<dots> \<longleftrightarrow> (e, t) \<in> set (tq_heap q)" by force
  finally show ?thesis by (auto simp: waiting_def)
qed

lemma waiting_None: "waiting q t = None \<longleftrightarrow> t \<notin> members q"
  by (force simp: waiting_def map_of_eq_None_iff)

lemma waiting_eqI:
  assumes "indexed q"
    and "\<And>t e ops. f t = Some (e, ops) \<longleftrightarrow> (e, t) \<in> set (tq_heap q) \<and> ops = pt_ops (tq_data q t)"
  shows "waiting q = f"
proof (rule ext)
  fix t
  have "waiting q t = Some x \<longleftrightarrow> f t = Some x" for x
    using waiting_iff [OF assms(1), of t] assms(2) [of t] by (cases x) simp
  then show "waiting q t = f t" by (metis not_Some_eq)
qed

lemma active_iff:
  assumes "queue_shape ts q"
  shows "active t q \<longleftrightarrow> t \<in> set ts"
proof (cases "t \<in> set ts")
  case True
  then obtain xs ys where ts: "ts = xs @ t # ys" by (meson split_list)
  have lk: "linked (tq_data q) None (tq_timers q) (xs @ t # ys)" using assms ts by (simp add: queue_shape_def)
  have "active t q"
  proof (cases "xs = []")
    case True
    then show ?thesis using linked_head [OF lk] by (simp add: active_def)
  next
    case False
    then show ?thesis using linked_ends [OF lk] by (simp add: active_def)
  qed
  with True show ?thesis by simp
next
  case False
  have "idle (tq_data q t)" "linked (tq_data q) None (tq_timers q) ts"
    using assms False by (simp_all add: queue_shape_def)
  then have "pt_prev (tq_data q t) = None" "tq_timers q = Some t \<Longrightarrow> t \<in> set ts"
    using linked_head by (fastforce simp: idle_def split: if_splits)+
  with False show ?thesis by (auto simp: active_def)
qed

lemma remove_timer_ok:
  assumes "queue_shape ts q" "t \<in> set ts" "pt_ops (tq_data q t) = []"
  shows "queue_shape (remove1 t ts) (remove_timer t q)"
    and "set (tq_heap (remove_timer t q)) = {x \<in> set (tq_heap q). snd x \<noteq> t}"
    and "length (tq_heap q) = Suc (length (tq_heap (remove_timer t q)))"
    and "pt_ops (tq_data (remove_timer t q) u) = pt_ops (tq_data q u)"
proof -
  obtain xs ys where ts: "ts = xs @ t # ys" "t \<notin> set xs" using split_list_first [OF assms(2)] by blast
  have q: "linked (tq_data q) None (tq_timers q) (xs @ t # ys)" "distinct (xs @ t # ys)" "set ts = members q"
    "indexed q" "heap_ordered (tq_heap q)" "\<forall>t. t \<notin> set ts \<longrightarrow> idle (tq_data q t)"
    using assms(1) ts(1) by (auto simp: queue_shape_def)
  define q1 where "q1 = leave_heap t q"
  have l: "left_heap t q q1"
    unfolding q1_def using leave_heap_ok [OF q(4,5)] assms(2) q(3) by simp
  then have u: "untouched (members q) q q1" "tq_timers q1 = tq_timers q"
    by (simp_all add: left_heap_def untouched_def)
  have lk: "linked (tq_data q1) None (tq_timers q1) (xs @ t # ys)"
    using q(1) u linked_cong [of "xs @ t # ys" "tq_data q1" "tq_data q"] by (simp add: untouched_def)
  note ends = linked_ends [OF lk]
  have self: "pt_prev (tq_data q1 t) \<noteq> Some t" "pt_next (tq_data q1 t) \<noteq> Some t"
    using ends q(2) by (auto split: if_splits dest: hd_in_set last_in_set)
  note fields = unlink_fields [OF self]
  define q2 where "q2 = unlink_timer t q1"
  have q2: "remove_timer t q = q2" by (simp add: remove_timer_def q1_def q2_def)
  have heap: "tq_heap q2 = tq_heap q1" by (simp add: q2_def unlink_timer_def Let_def)
  have "tq_timers q2 = (if tq_timers q1 = Some t then pt_next (tq_data q1 t) else tq_timers q1)"
    by (simp add: q2_def unlink_timer_def Let_def)
  then have linked: "linked (tq_data q2) None (tq_timers q2) (remove1 t ts)"
    using unlink_linked [OF lk q(2) _ self] ts by (simp add: q2_def remove1_append)
  have "set (remove1 t ts) = members q2"
    using l q(2,3) ts heap by (auto simp: left_heap_def)
  moreover have "indexed q2"
    using l heap fields(4) by (simp add: left_heap_def indexed_def q2_def)
  moreover have "idle (tq_data q2 u)" if "u \<notin> set (remove1 t ts)" for u
  proof (cases "u = t")
    case True
    then show ?thesis using fields [of t] assms(3) u(1) by (simp add: q2_def untouched_def idle_def)
  next
    case False
    then have out: "u \<notin> set ts" using that by simp
    then have "idle (tq_data q1 u)" using u(1) q(3,6) by (simp add: untouched_def)
    moreover have "pt_prev (tq_data q1 t) \<noteq> Some u" "pt_next (tq_data q1 t) \<noteq> Some u"
      using ends out ts(1) by (auto split: if_splits dest: hd_in_set last_in_set)
    ultimately show ?thesis using fields [of u] False by (simp add: q2_def idle_def)
  qed
  moreover have "distinct (remove1 t ts)" "heap_ordered (tq_heap q2)"
    using q(2) ts(1) l heap by (simp_all add: left_heap_def)
  ultimately show "queue_shape (remove1 t ts) (remove_timer t q)"
    unfolding queue_shape_def q2 using linked by blast
  show "set (tq_heap (remove_timer t q)) = {x \<in> set (tq_heap q). snd x \<noteq> t}"
    "length (tq_heap q) = Suc (length (tq_heap (remove_timer t q)))"
    using l heap by (simp_all add: left_heap_def q2)
  show "pt_ops (tq_data (remove_timer t q) u) = pt_ops (tq_data q u)"
    using fields(3) [of u] u(1) by (simp add: q2 q2_def untouched_def)
qed

section \<open>Taking operations away\<close>

lemma set_ops_sel [simp]:
  "tq_heap (set_ops t ops q) = tq_heap q" "tq_timers (set_ops t ops q) = tq_timers q"
  "pt_heap_index (tq_data (set_ops t ops q) u) = pt_heap_index (tq_data q u)"
  "pt_next (tq_data (set_ops t ops q) u) = pt_next (tq_data q u)"
  "pt_prev (tq_data (set_ops t ops q) u) = pt_prev (tq_data q u)"
  "pt_ops (tq_data (set_ops t ops q) u) = (if u = t then ops else pt_ops (tq_data q u))"
  "u \<noteq> t \<Longrightarrow> tq_data (set_ops t ops q) u = tq_data q u"
  by (simp_all add: set_ops_def)

lemma set_ops_shape: "queue_shape ts q \<Longrightarrow> t \<in> set ts \<Longrightarrow> queue_shape ts (set_ops t ops q)"
  using linked_cong [of ts "tq_data (set_ops t ops q)" "tq_data q"] set_ops_sel(7) [of _ t ops q]
  unfolding queue_shape_def indexed_def by (simp, metis)

definition keep_ops :: "nat \<Rightarrow> wait_op list \<Rightarrow> timer_queue \<Rightarrow> timer_queue" where
  "keep_ops t ops q = (let q = set_ops t ops q in if ops = [] then remove_timer t q else q)"

lemma keep_ops_all:
  assumes q: "queue_ok ts q" and w: "waiting q t = Some (e, old)"
  shows "(\<exists>ts'. queue_ok ts' (keep_ops t ops q)) \<and>
    waiting (keep_ops t ops q) = (waiting q)(t := if ops = [] then None else Some (e, ops)) \<and>
    (ops = [] \<longrightarrow> length (tq_heap (keep_ops t ops q)) < length (tq_heap q))"
proof -
  have idx: "indexed q" "queue_shape ts q" "set ts = members q" using q by (simp_all add: queue_ok_def queue_shape_def)
  have "(e, t) \<in> set (tq_heap q)" using w waiting_iff [OF idx(1)] by simp
  then have t: "(e, t) \<in> set (tq_heap q)" "t \<in> set ts"
    unfolding idx(3) by (auto simp: rev_image_eqI)
  have only: "e' = e" if "(e', t) \<in> set (tq_heap q)" for e'
    using waiting_iff [OF idx(1), of t e' "pt_ops (tq_data q t)"] w that by simp
  let ?q = "set_ops t ops q"
  have sh: "queue_shape ts ?q" using set_ops_shape [OF idx(2) t(2)] .
  have iq: "indexed ?q" using sh by (simp add: queue_shape_def)
  show ?thesis
  proof (cases "ops = []")
    case False
    then have "queue_ok ts ?q" using sh q by (auto simp: queue_ok_def)
    moreover have "waiting ?q = (waiting q)(t := Some (e, ops))"
    proof (rule waiting_eqI [OF iq])
      fix u e' ops'
      show "((waiting q)(t := Some (e, ops))) u = Some (e', ops') \<longleftrightarrow>
          (e', u) \<in> set (tq_heap ?q) \<and> ops' = pt_ops (tq_data ?q u)"
      proof (cases "u = t")
        case True
        have "(e', t) \<in> set (tq_heap q) \<longleftrightarrow> e' = e" using t(1) only by blast
        with True show ?thesis by (simp add: eq_commute)
      next
        case False
        then show ?thesis using waiting_iff [OF idx(1), of u] by simp
      qed
    qed
    ultimately show ?thesis using False unfolding keep_ops_def Let_def by (simp only: if_False) blast
  next
    case True
    have empty: "pt_ops (tq_data ?q t) = []" using True by simp
    note rem = remove_timer_ok [OF sh t(2) empty]
    have k: "keep_ops t ops q = remove_timer t ?q" using True by (simp add: keep_ops_def)
    have "queue_ok (remove1 t ts) (remove_timer t ?q)"
      unfolding queue_ok_def
    proof (intro conjI ballI)
      fix u assume "u \<in> set (remove1 t ts)"
      then have "u \<in> set ts" "u \<noteq> t" using idx(2) by (auto simp: queue_shape_def)
      then show "pt_ops (tq_data (remove_timer t ?q) u) \<noteq> []"
        using rem(4) q by (simp add: queue_ok_def)
    qed (rule rem(1))
    moreover have "indexed (remove_timer t ?q)" using rem(1) by (simp add: queue_shape_def)
    then have "waiting (remove_timer t ?q) = (waiting q)(t := None)"
    proof (rule waiting_eqI)
      fix u e' ops'
      show "((waiting q)(t := None)) u = Some (e', ops') \<longleftrightarrow>
          (e', u) \<in> set (tq_heap (remove_timer t ?q)) \<and> ops' = pt_ops (tq_data (remove_timer t ?q) u)"
      proof (cases "u = t")
        case True
        then show ?thesis unfolding rem(2) by simp
      next
        case False
        then show ?thesis unfolding rem(2,4) using waiting_iff [OF idx(1), of u] by simp
      qed
    qed
    moreover have "length (tq_heap (remove_timer t ?q)) < length (tq_heap q)" using rem(3) by simp
    ultimately show ?thesis unfolding k using True by (intro conjI exI [of _ "remove1 t ts"]) simp_all
  qed
qed

lemmas keep_ops_ok =
  keep_ops_all [THEN conjunct1] keep_ops_all [THEN conjunct2, THEN conjunct1]
  keep_ops_all [THEN conjunct2, THEN conjunct2, rule_format]

lemma active_waiting:
  assumes "queue_ok ts q"
  shows "active t q \<longleftrightarrow> waiting q t \<noteq> None" "waiting q t = Some (e, ops) \<Longrightarrow> pt_ops (tq_data q t) = ops"
    "waiting q t = Some (e, ops) \<Longrightarrow> ops \<noteq> []"
proof -
  have idx: "indexed q" "queue_shape ts q" "set ts = members q"
    using assms by (simp_all add: queue_ok_def queue_shape_def)
  show act: "active t q \<longleftrightarrow> waiting q t \<noteq> None"
    unfolding active_iff [OF idx(2)] waiting_None idx(3) by blast
  assume w: "waiting q t = Some (e, ops)"
  then show ops: "pt_ops (tq_data q t) = ops" using waiting_iff [OF idx(1)] by auto
  show "ops \<noteq> []"
    using act w active_iff [OF idx(2), of t] assms ops by (auto simp: queue_ok_def)
qed

lemma cancel_timer_ok:
  assumes "queue_ok ts q"
  shows "cancel_timer t m q =
      (case waiting q t of
         None \<Rightarrow> (0, [], q)
       | Some (e, ops) \<Rightarrow> (min m (length ops), aborted (take m ops), keep_ops t (drop m ops) q))"
    and "cancel_timer_by_key t key q =
      (case waiting q t of
         None \<Rightarrow> ([], q)
       | Some (e, ops) \<Rightarrow> (aborted (filter (\<lambda>wop. wo_cancellation_key wop = key) ops),
           keep_ops t (filter (\<lambda>wop. wo_cancellation_key wop \<noteq> key) ops) q))"
  using active_waiting [OF assms, of t]
  by (auto simp: cancel_timer_def cancel_timer_by_key_def keep_ops_def Let_def min.commute split: option.split)

section \<open>The expired timers\<close>

abbreviation ops_of :: "timer_queue \<Rightarrow> nat \<Rightarrow> wait_op list" where
  "ops_of q t \<equiv> snd (the (waiting q t))"

abbreviation expiry_of :: "timer_queue \<Rightarrow> nat \<Rightarrow> int" where
  "expiry_of q t \<equiv> fst (the (waiting q t))"

definition due :: "int \<Rightarrow> timer_queue \<Rightarrow> nat set" where
  "due now q = {t. \<exists>e ops. waiting q t = Some (e, ops) \<and> e \<le> now}"

lemma get_ready_ok:
  assumes "queue_ok ts q"
  shows "\<exists>order ts' q'. get_ready_timers now q acc =
      Some (acc @ concat (map (\<lambda>t. map (\<lambda>wop. (wop, None)) (ops_of q t)) order), q') \<and>
    queue_ok ts' q' \<and> waiting q' = (\<lambda>t. if t \<in> due now q then None else waiting q t) \<and>
    set order = due now q \<and> distinct order \<and> sorted (map (expiry_of q) order)"
  using assms
proof (induction "length (tq_heap q)" arbitrary: q ts acc rule: less_induct)
  case less
  have idx: "indexed q" "heap_ordered (tq_heap q)" using less.prems by (simp_all add: queue_ok_def queue_shape_def)
  have front: "expiry (tq_heap q) 0 \<le> e" if "waiting q t = Some (e, ops)" for t e ops
    using that waiting_iff [OF idx(1), of t e ops] heap_front [OF idx(2)] by (auto simp: in_set_conv_nth) (metis fst_conv)
  show ?case
  proof (cases "tq_heap q \<noteq> [] \<and> \<not> now < fst (tq_heap q ! 0)")
    case False
    then have "get_ready_timers now q acc = Some (acc, q)" by (subst get_ready_timers.simps) auto
    moreover have "due now q = {}"
    proof (rule ccontr)
      assume "due now q \<noteq> {}"
      then obtain t e ops where w: "waiting q t = Some (e, ops)" "e \<le> now" by (auto simp: due_def)
      then have "tq_heap q \<noteq> []" using waiting_iff [OF idx(1), of t e ops] by auto
      with False front [OF w(1)] w(2) show False by auto
    qed
    ultimately show ?thesis using less.prems by (intro exI [of _ "[]"] exI [of _ ts] exI [of _ q]) simp
  next
    case True
    obtain e t where h0: "tq_heap q ! 0 = (e, t)" by (cases "tq_heap q ! 0")
    then have "(e, t) \<in> set (tq_heap q)" using True nth_mem [of 0 "tq_heap q"] by simp
    then have w: "waiting q t = Some (e, pt_ops (tq_data q t))" using waiting_iff [OF idx(1)] by simp
    let ?q = "keep_ops t [] q"
    obtain ts1 where q1: "queue_ok ts1 ?q" using keep_ops_ok(1) [OF less.prems w] by blast
    note w1 = keep_ops_ok(2) [OF less.prems w, of "[]", simplified]
    let ?ready = "map (\<lambda>wop. (wop, None)) (pt_ops (tq_data q t))"
    obtain order ts' q' where r: "get_ready_timers now ?q (acc @ ?ready) =
        Some ((acc @ ?ready) @ concat (map (\<lambda>t. map (\<lambda>wop. (wop, None)) (ops_of ?q t)) order), q')"
      "queue_ok ts' q'" "waiting q' = (\<lambda>t. if t \<in> due now ?q then None else waiting ?q t)"
      "set order = due now ?q" "distinct order" "sorted (map (expiry_of ?q) order)"
      using less.hyps [OF keep_ops_ok(3) [OF less.prems w refl] q1] by blast
    have due1: "due now ?q = due now q - {t}" "t \<in> due now q"
      using w True h0 by (auto simp: due_def w1)
    have same: "waiting ?q u = waiting q u" if "u \<in> set order" for u
      using that r(4) due1(1) w1 by simp
    have same_ops: "map (\<lambda>t. map (\<lambda>wop. (wop, None)) (ops_of ?q t)) order =
        map (\<lambda>t. map (\<lambda>wop. (wop, None)) (ops_of q t)) order"
      "map (expiry_of ?q) order = map (expiry_of q) order"
      using same by (simp_all only: map_eq_conv ball_simps) simp_all
    have "get_ready_timers now q acc = get_ready_timers now ?q (acc @ ?ready)"
      using True h0 by (subst get_ready_timers.simps) (simp add: keep_ops_def Let_def)
    also have "\<dots> = Some (acc @ concat (map (\<lambda>t. map (\<lambda>wop. (wop, None)) (ops_of q t)) (t # order)), q')"
      unfolding r(1) same_ops(1) using w by simp
    finally have run: "get_ready_timers now q acc =
        Some (acc @ concat (map (\<lambda>t. map (\<lambda>wop. (wop, None)) (ops_of q t)) (t # order)), q')" .
    have "sorted (map (expiry_of q) order)"
      using r(6) unfolding same_ops(2) .
    moreover have "\<forall>u \<in> set order. e \<le> expiry_of q u"
      using r(4) due1(1) front h0 by (fastforce simp: due_def)
    ultimately have "sorted (map (expiry_of q) (t # order))" using w by simp
    moreover have "waiting q' = (\<lambda>u. if u \<in> due now q then None else waiting q u)"
      unfolding r(3) due1(1) w1 using due1(2) by auto
    moreover have "set (t # order) = due now q" "distinct (t # order)" using r(4,5) due1 by auto
    ultimately show ?thesis using run r(2) by blast
  qed
qed

section \<open>All timers\<close>

lemma get_all_loop_ok:
  assumes "linked (tq_data q) prev (tq_timers q) ts" "distinct ts"
  shows "get_all_loop q ops = Some (ops @ concat (map (\<lambda>t. pt_ops (tq_data q t)) ts),
    q\<lparr>tq_timers := None, tq_data := (\<lambda>t. if t \<in> set ts
        then (tq_data q t)\<lparr>pt_ops := [], pt_next := None, pt_prev := None\<rparr> else tq_data q t)\<rparr>)"
  using assms
proof (induction ts arbitrary: q prev ops)
  case Nil
  then show ?case by (subst get_all_loop.simps) (simp add: timer_queue.equality)
next
  case (Cons t ts)
  let ?q = "q\<lparr>tq_timers := pt_next (tq_data q t),
    tq_data := (tq_data q)(t := (tq_data q t)\<lparr>pt_ops := [], pt_next := None, pt_prev := None\<rparr>)\<rparr>"
  have "linked (tq_data ?q) (Some t) (tq_timers ?q) ts"
    using Cons.prems linked_cong [of ts "tq_data ?q" "tq_data q"] by auto
  note run = Cons.IH [OF this, of "ops @ pt_ops (tq_data q t)"]
  have same: "map (\<lambda>u. pt_ops (tq_data ?q u)) ts = map (\<lambda>u. pt_ops (tq_data q u)) ts"
    using Cons.prems(2) by auto
  have "get_all_loop q ops = get_all_loop ?q (ops @ pt_ops (tq_data q t))"
    using Cons.prems(1) by (subst get_all_loop.simps) simp
  then show ?case
    using run Cons.prems(2) unfolding same by (simp, intro timer_queue.equality) auto
qed

lemma get_all_ok:
  assumes "queue_ok ts q"
  shows "\<exists>q'. get_all_timers q = Some (concat (map (ops_of q) ts), q') \<and> queue_ok [] q' \<and>
    waiting q' = Map.empty \<and> set ts = dom (waiting q) \<and> distinct ts"
proof -
  have q: "linked (tq_data q) None (tq_timers q) ts" "distinct ts" "set ts = members q"
    "\<And>t. t \<notin> set ts \<Longrightarrow> idle (tq_data q t)"
    using assms by (auto simp: queue_ok_def queue_shape_def)
  have dom: "set ts = dom (waiting q)" using waiting_None [of q] q(3) by (auto simp: dom_def)
  have "pt_ops (tq_data q t) = ops_of q t" if "t \<in> set ts" for t
    using that active_waiting(2) [OF assms, of t] unfolding dom by (auto simp: dom_def)
  then have same: "map (\<lambda>t. pt_ops (tq_data q t)) ts = map (ops_of q) ts" by (simp only: map_eq_conv) simp
  define q' where "q' = q\<lparr>tq_timers := None, tq_data := (\<lambda>t. if t \<in> set ts
      then (tq_data q t)\<lparr>pt_ops := [], pt_next := None, pt_prev := None\<rparr> else tq_data q t), tq_heap := []\<rparr>"
  have "get_all_timers q = Some (concat (map (ops_of q) ts), q')"
    using get_all_loop_ok [OF q(1,2), of "[]"] unfolding same by (simp add: get_all_timers_def q'_def)
  moreover have "queue_ok [] q'" "waiting q' = Map.empty"
    using q(4) by (auto simp: q'_def queue_ok_def queue_shape_def indexed_def heap_ordered_def idle_def waiting_def)
  ultimately show ?thesis using dom q(2) by blast
qed

section \<open>Entering the queue\<close>

lemma enter_heap_ok:
  assumes "indexed q" "heap_ordered (tq_heap q)" "t \<notin> members q"
  shows "indexed (enter_heap e t q)" "heap_ordered (tq_heap (enter_heap e t q))"
    "set (tq_heap (enter_heap e t q)) = insert (e, t) (set (tq_heap q))"
    "untouched (insert t (members q)) q (enter_heap e t q)"
proof -
  let ?n = "length (tq_heap q)"
  define q1 where "q1 = (set_heap_index t ?n q)\<lparr>tq_heap := tq_heap q @ [(e, t)]\<rparr>"
  have enter: "enter_heap e t q = up_heap ?n q1"
    by (simp add: enter_heap_def q1_def set_heap_index_def Let_def)
  have h1: "tq_heap q1 = tq_heap q @ [(e, t)]" by (simp add: q1_def)
  have "snd (tq_heap q ! i) \<noteq> t" if "i < ?n" for i using assms(3) that by force
  then have i1: "indexed q1"
    using assms(1) by (auto simp: indexed_def q1_def set_heap_index_def nth_append less_Suc_eq)
  have ord: "expiry (tq_heap q1) (parent i) \<le> expiry (tq_heap q1) i" if "0 < i" "i < length (tq_heap q1)" "i \<noteq> ?n" for i
    using that assms(2) parent_less [OF that(1)] by (auto simp: h1 nth_append heap_ordered_def)
  have "\<not> (0 < i \<and> i < length (tq_heap q1) \<and> parent i = ?n)" for i
    using parent_less [of i] by (auto simp: h1)
  with ord have early: "maybe_early ?n (tq_heap q1)"
    unfolding maybe_early_def grand_ordered_def by blast
  have n: "?n < length (tq_heap q1)" by (simp add: h1)
  show "heap_ordered (tq_heap (enter_heap e t q))" unfolding enter by (rule up_heap_ordered [OF early n])
  have up: "indexed (up_heap ?n q1)" "rearranged q1 (up_heap ?n q1)" using up_heap_ok [OF i1 n] by simp_all
  then show "indexed (enter_heap e t q)" by (simp add: enter)
  show "set (tq_heap (enter_heap e t q)) = insert (e, t) (set (tq_heap q))"
    using rearranged_set [OF up(2)] by (simp add: enter h1)
  have m: "members q1 = insert t (members q)" by (simp add: h1)
  have "untouched (insert t (members q)) q q1"
    by (simp add: untouched_def q1_def set_heap_index_def)
  moreover have "untouched (insert t (members q)) q1 (up_heap ?n q1)"
    using up(2) unfolding rearranged_def m by simp
  ultimately show "untouched (insert t (members q)) q (enter_heap e t q)"
    unfolding enter by (rule untouched_trans)
qed

lemma link_timer_ok:
  assumes "linked (tq_data q) None (tq_timers q) ts" "distinct ts" "t \<notin> set ts"
  shows "linked (tq_data (link_timer t q)) None (tq_timers (link_timer t q)) (t # ts)"
    and "tq_heap (link_timer t q) = tq_heap q"
    and "pt_ops (tq_data (link_timer t q) u) = pt_ops (tq_data q u)"
    and "pt_heap_index (tq_data (link_timer t q) u) = pt_heap_index (tq_data q u)"
    and "u \<notin> set (t # ts) \<Longrightarrow> tq_data (link_timer t q) u = tq_data q u"
proof -
  let ?d = "tq_data (link_timer t q)"
  have head: "tq_timers q = (if ts = [] then None else Some (hd ts))" using linked_head [OF assms(1)] .
  have t: "pt_next (?d t) = tq_timers q" "pt_prev (?d t) = None"
    using assms(3) head by (auto simp: link_timer_def Let_def split: option.split if_splits)
  have "linked ?d (Some t) (tq_timers q) ts"
  proof (cases ts)
    case Nil
    with assms(1) show ?thesis by simp
  next
    case (Cons x xs)
    have rest: "?d u = tq_data q u" if "u \<in> set xs" for u
      using that assms(2,3) Cons head by (auto simp: link_timer_def Let_def)
    have "pt_prev (?d x) = Some t" "pt_next (?d x) = pt_next (tq_data q x)"
      using assms(3) Cons head by (auto simp: link_timer_def Let_def)
    moreover have "linked ?d (Some x) (pt_next (tq_data q x)) xs"
      using assms(1) Cons rest linked_cong [of xs ?d "tq_data q"] by simp
    ultimately show ?thesis using assms(1) Cons by simp
  qed
  then show "linked ?d None (tq_timers (link_timer t q)) (t # ts)"
    using t by (simp add: link_timer_def Let_def)
  show "tq_heap (link_timer t q) = tq_heap q" by (simp add: link_timer_def Let_def)
  show "pt_ops (?d u) = pt_ops (tq_data q u)" "pt_heap_index (?d u) = pt_heap_index (tq_data q u)"
    by (auto simp: link_timer_def Let_def split: option.split)
  show "?d u = tq_data q u" if "u \<notin> set (t # ts)"
    using that head by (auto simp: link_timer_def Let_def split: option.split if_splits)
qed

lemma enqueue_timer_ok:
  assumes q: "queue_ok ts q"
  shows "(\<exists>ts'. queue_ok ts' (snd (enqueue_timer e t wop q))) \<and>
    waiting (snd (enqueue_timer e t wop q)) = (waiting q)(t \<mapsto>
      (case waiting q t of None \<Rightarrow> (e, [wop]) | Some (e', ops) \<Rightarrow> (e', ops @ [wop])))"
proof (cases "waiting q t")
  case (Some w)
  then obtain e' ops where w: "waiting q t = Some (e', ops)" by (cases w) simp
  have "snd (enqueue_timer e t wop q) = keep_ops t (ops @ [wop]) q"
    using active_waiting [OF q] w by (simp add: enqueue_timer_def keep_ops_def Let_def)
  with keep_ops_ok(1,2) [OF q w, of "ops @ [wop]"] w show ?thesis by simp
next
  case None
  have idx: "indexed q" "heap_ordered (tq_heap q)" "linked (tq_data q) None (tq_timers q) ts" "distinct ts"
    "set ts = members q" "\<And>u. u \<notin> set ts \<Longrightarrow> idle (tq_data q u)"
    using q by (simp_all add: queue_ok_def queue_shape_def)
  have t: "t \<notin> members q" "t \<notin> set ts" "\<not> active t q" "pt_ops (tq_data q t) = []"
    using None waiting_None [of q t] active_waiting(1) [OF q] idx(5) idx(6) [of t] by (simp_all add: idle_def)
  define q1 where "q1 = enter_heap e t q"
  note en = enter_heap_ok [OF idx(1,2) t(1), of e, folded q1_def]
  have "linked (tq_data q1) None (tq_timers q1) ts"
    using idx(3) en(4) linked_cong [of ts "tq_data q1" "tq_data q"] by (simp add: untouched_def)
  note ln = link_timer_ok [OF this idx(4) t(2)]
  define q2 where "q2 = set_ops t [wop] (link_timer t q1)"
  have ops1: "pt_ops (tq_data q1 u) = pt_ops (tq_data q u)" for u using en(4) by (simp add: untouched_def)
  have run: "snd (enqueue_timer e t wop q) = q2"
    using t(3,4) ln(3) [of t] ops1 by (simp add: enqueue_timer_def q1_def [symmetric] q2_def Let_def)
  have heap: "set (tq_heap q2) = insert (e, t) (set (tq_heap q))" "tq_heap q2 = tq_heap q1"
    using en(3) ln(2) by (simp_all add: q2_def)
  have i2: "indexed q2" using en(1) ln(2,4) by (simp add: indexed_def q2_def)
  have "queue_ok (t # ts) q2"
    unfolding queue_ok_def queue_shape_def
  proof (intro conjI allI impI ballI)
    show "linked (tq_data q2) None (tq_timers q2) (t # ts)"
      unfolding q2_def set_ops_sel(2) using ln(1) linked_cong [of "t # ts" "tq_data (set_ops t [wop] (link_timer t q1))"]
      by (simp only: set_ops_sel) blast
    show "distinct (t # ts)" using idx(4) t(2) by simp
    show "set (t # ts) = members q2" using heap(1) idx(5) by simp
    show "heap_ordered (tq_heap q2)" using en(2) heap(2) by simp
    show "idle (tq_data q2 u)" if "u \<notin> set (t # ts)" for u
      using that ln(5) [OF that] en(4) idx(5) idx(6) [of u] by (simp add: q2_def untouched_def)
    show "pt_ops (tq_data q2 u) \<noteq> []" if "u \<in> set (t # ts)" for u
      using that q ln(3) [of u] ops1 by (auto simp: q2_def queue_ok_def)
  qed (rule i2)
  moreover have "waiting q2 = (waiting q)(t \<mapsto> (e, [wop]))"
  proof (rule waiting_eqI [OF i2])
    fix u e' ops'
    show "((waiting q)(t \<mapsto> (e, [wop]))) u = Some (e', ops') \<longleftrightarrow>
        (e', u) \<in> set (tq_heap q2) \<and> ops' = pt_ops (tq_data q2 u)"
    proof (cases "u = t")
      case True
      have "(e', t) \<in> set (tq_heap q2) \<longleftrightarrow> e' = e" using t(1) unfolding heap(1) by force
      with True show ?thesis by (auto simp: q2_def)
    next
      case False
      then show ?thesis
        using waiting_iff [OF idx(1), of u] ln(3) [of u] ops1 unfolding heap(1) by (simp add: q2_def)
    qed
  qed
  ultimately show ?thesis using None run by auto
qed

lemma first_timer:
  assumes "queue_ok ts q" "pt_heap_index (tq_data q t) = 0" "waiting q t = Some (e, ops)" "waiting q u = Some (e', ops')"
  shows "e \<le> e'"
proof -
  have idx: "indexed q" "heap_ordered (tq_heap q)" using assms(1) by (simp_all add: queue_ok_def queue_shape_def)
  have "t \<in> members q" using assms(3) waiting_None [of q t] by simp
  from indexed_at [OF idx(1) this] have h: "tq_heap q \<noteq> []" "snd (tq_heap q ! 0) = t" using assms(2) by auto
  then have "(fst (tq_heap q ! 0), t) \<in> set (tq_heap q)" using nth_mem [of 0 "tq_heap q"] by (metis length_greater_0_conv prod.collapse)
  then have "e = fst (tq_heap q ! 0)"
    using assms(3) waiting_iff [OF idx(1), of t "fst (tq_heap q ! 0)" "pt_ops (tq_data q t)"] by simp
  moreover obtain i where "i < length (tq_heap q)" "tq_heap q ! i = (e', u)"
    using assms(4) waiting_iff [OF idx(1), of u e' ops'] by (auto simp: in_set_conv_nth)
  ultimately show ?thesis using heap_front [OF idx(2), of i] by simp
qed

section \<open>Moving a timer\<close>

lemma linked_neighbours:
  assumes "linked d prev head ts" "distinct ts" "\<forall>p. prev = Some p \<longrightarrow> p \<notin> set ts" "u \<in> set ts" "v \<in> set ts"
  shows "pt_next (d u) = Some v \<longleftrightarrow> pt_prev (d v) = Some u"
  using assms
proof (induction ts arbitrary: prev head)
  case (Cons t ts)
  have rest: "linked d (Some t) (pt_next (d t)) ts" "distinct ts" "t \<notin> set ts" "pt_prev (d t) = prev"
    using Cons.prems(1,2) by auto
  have head: "pt_next (d t) = (if ts = [] then None else Some (hd ts))" using linked_head [OF rest(1)] .
  have inner: "pt_next (d x) \<noteq> Some t" if x: "x \<in> set ts" for x
  proof -
    obtain xs ys where "ts = xs @ x # ys" using x by (meson split_list)
    with linked_ends [of d "Some t" "pt_next (d t)" xs x ys] rest(1,3) show ?thesis
      by (cases ys) auto
  qed
  have front: "pt_prev (d x) = Some t \<longleftrightarrow> x = hd ts" if x: "x \<in> set ts" for x
  proof -
    obtain xs ys where ts: "ts = xs @ x # ys" using x by (meson split_list)
    with linked_ends [of d "Some t" "pt_next (d t)" xs x ys] rest(1,2,3) show ?thesis
      by (cases "xs = []") (auto simp: hd_append dest: last_in_set hd_in_set)
  qed
  consider "u \<in> set ts" "v \<in> set ts" | "u = t" "v \<in> set ts" | "v = t" using Cons.prems(4,5) by auto
  then show ?case
  proof cases
    case 1
    then show ?thesis using Cons.IH [OF rest(1,2)] rest(3) by auto
  next
    case 2
    then show ?thesis using head front [of v] by auto
  next
    case 3
    have "pt_next (d t) \<noteq> Some t" using head rest(3) by (auto dest: hd_in_set)
    then show ?thesis using 3 inner [of u] Cons.prems(3,4) rest(4) by auto
  qed
qed simp

abbreviation renamed :: "nat \<Rightarrow> nat \<Rightarrow> nat \<Rightarrow> nat" where
  "renamed source target \<equiv> (\<lambda>u. if u = source then target else u)"

lemma linked_renamed:
  assumes "linked d prev head ts"
    and "\<And>u. u \<in> set ts \<Longrightarrow> pt_next (d' (f u)) = map_option f (pt_next (d u)) \<and> pt_prev (d' (f u)) = map_option f (pt_prev (d u))"
  shows "linked d' (map_option f prev) (map_option f head) (map f ts)"
  using assms
proof (induction ts arbitrary: prev head)
  case (Cons t ts)
  have "linked d' (map_option f (Some t)) (map_option f (pt_next (d t))) (map f ts)"
    using Cons.prems by (intro Cons.IH) auto
  then show ?case using Cons.prems(1) Cons.prems(2) [of t] by auto
qed simp

text \<open>The fields after a move.\<close>

lemma hand_over_fields:
  assumes "target \<noteq> source" "pt_heap_index (tq_data q source) = i"
  shows "pt_ops (tq_data (hand_over target source q) u) =
      (if u = source then [] else if u = target then pt_ops (tq_data q target) @ pt_ops (tq_data q source)
       else pt_ops (tq_data q u))"
    and "pt_heap_index (tq_data (hand_over target source q) u) =
      (if u = source then NO_INDEX else if u = target then i else pt_heap_index (tq_data q u))"
    and "pt_next (tq_data (hand_over target source q) u) = pt_next (tq_data q u)"
    and "pt_prev (tq_data (hand_over target source q) u) = pt_prev (tq_data q u)"
    and "tq_heap (hand_over target source q) =
      (if i < length (tq_heap q) then (tq_heap q)[i := (fst (tq_heap q ! i), target)] else tq_heap q)"
    and "tq_timers (hand_over target source q) = tq_timers q"
  using assms by (simp_all add: hand_over_def Let_def set_ops_def set_heap_index_def)

lemma relink_fields:
  assumes "target \<noteq> source" "pt_prev (tq_data q source) \<noteq> Some source" "pt_next (tq_data q source) \<noteq> Some source"
    and "pt_prev (tq_data q source) \<noteq> Some target" "pt_next (tq_data q source) \<noteq> Some target"
  shows "pt_next (tq_data (relink target source q) u) =
      (if u = source then None else if u = target then pt_next (tq_data q source)
       else if pt_prev (tq_data q source) = Some u then Some target else pt_next (tq_data q u))"
    and "pt_prev (tq_data (relink target source q) u) =
      (if u = source then None else if u = target then pt_prev (tq_data q source)
       else if pt_next (tq_data q source) = Some u then Some target else pt_prev (tq_data q u))"
    and "pt_ops (tq_data (relink target source q) u) = pt_ops (tq_data q u)"
    and "pt_heap_index (tq_data (relink target source q) u) = pt_heap_index (tq_data q u)"
    and "tq_heap (relink target source q) = tq_heap q"
    and "tq_timers (relink target source q) = (if tq_timers q = Some source then Some target else tq_timers q)"
proof -
  obtain p n where pn: "pt_prev (tq_data q source) = p" "pt_next (tq_data q source) = n" by blast
  note ne = assms(1) assms(2-5) [unfolded pn]
  show "pt_next (tq_data (relink target source q) u) =
      (if u = source then None else if u = target then pt_next (tq_data q source)
       else if pt_prev (tq_data q source) = Some u then Some target else pt_next (tq_data q u))"
    using pn ne by (cases p; cases n) (auto simp: relink_def Let_def)
  show "pt_prev (tq_data (relink target source q) u) =
      (if u = source then None else if u = target then pt_prev (tq_data q source)
       else if pt_next (tq_data q source) = Some u then Some target else pt_prev (tq_data q u))"
    using pn ne by (cases p; cases n) (auto simp: relink_def Let_def)
  show "pt_ops (tq_data (relink target source q) u) = pt_ops (tq_data q u)"
    using pn ne by (cases p; cases n) (auto simp: relink_def Let_def)
  show "pt_heap_index (tq_data (relink target source q) u) = pt_heap_index (tq_data q u)"
    using pn ne by (cases p; cases n) (auto simp: relink_def Let_def)
qed (simp_all add: relink_def Let_def)

lemma move_fields:
  assumes "target \<noteq> source" "pt_prev (tq_data q source) \<noteq> Some source" "pt_next (tq_data q source) \<noteq> Some source"
    and "pt_prev (tq_data q source) \<noteq> Some target" "pt_next (tq_data q source) \<noteq> Some target"
    and "pt_heap_index (tq_data q source) = i"
  shows "pt_next (tq_data (move_timer target source q) u) =
      (if u = source then None else if u = target then pt_next (tq_data q source)
       else if pt_prev (tq_data q source) = Some u then Some target else pt_next (tq_data q u))"
    and "pt_prev (tq_data (move_timer target source q) u) =
      (if u = source then None else if u = target then pt_prev (tq_data q source)
       else if pt_next (tq_data q source) = Some u then Some target else pt_prev (tq_data q u))"
    and "pt_ops (tq_data (move_timer target source q) u) =
      (if u = source then [] else if u = target then pt_ops (tq_data q target) @ pt_ops (tq_data q source)
       else pt_ops (tq_data q u))"
    and "pt_heap_index (tq_data (move_timer target source q) u) =
      (if u = source then NO_INDEX else if u = target then i else pt_heap_index (tq_data q u))"
    and "tq_heap (move_timer target source q) =
      (if i < length (tq_heap q) then (tq_heap q)[i := (fst (tq_heap q ! i), target)] else tq_heap q)"
    and "tq_timers (move_timer target source q) = (if tq_timers q = Some source then Some target else tq_timers q)"
  using relink_fields [of target source "hand_over target source q"] assms
  by (simp_all add: move_timer_def hand_over_fields)

lemma move_timer_ok:
  assumes q: "queue_ok ts q" and target: "waiting q target = None" and source: "waiting q source = Some w"
  shows "\<exists>ts'. queue_ok ts' (move_timer target source q)"
    and "waiting (move_timer target source q) = (waiting q)(source := None, target \<mapsto> w)"
proof -
  let ?q = "move_timer target source q" and ?f = "renamed source target"
  have idx: "indexed q" "heap_ordered (tq_heap q)" "linked (tq_data q) None (tq_timers q) ts" "distinct ts"
    "set ts = members q" "\<And>u. u \<notin> set ts \<Longrightarrow> idle (tq_data q u)" "\<And>u. u \<in> set ts \<Longrightarrow> pt_ops (tq_data q u) \<noteq> []"
    using q by (simp_all add: queue_ok_def queue_shape_def)
  have out: "target \<notin> set ts" "target \<notin> members q" using target waiting_None [of q] idx(5) by simp_all
  have inn: "source \<in> set ts" "source \<in> members q" using source waiting_None [of q source] idx(5) by auto
  then have ne: "target \<noteq> source" using out by blast
  define i where "i = pt_heap_index (tq_data q source)"
  have i: "i < length (tq_heap q)" "snd (tq_heap q ! i) = source"
    using indexed_at [OF idx(1) inn(2)] by (auto simp: i_def)
  obtain xs ys where ts: "ts = xs @ source # ys" using inn(1) by (meson split_list)
  note ends = linked_ends [of "tq_data q" None "tq_timers q" xs source ys, OF idx(3) [unfolded ts]]
  have self: "pt_prev (tq_data q source) \<noteq> Some source" "pt_next (tq_data q source) \<noteq> Some source"
    "pt_prev (tq_data q source) \<noteq> Some target" "pt_next (tq_data q source) \<noteq> Some target"
    using ends idx(4) out(1) ts by (auto split: if_splits dest: hd_in_set last_in_set)
  note fields = move_fields [OF ne self i_def [symmetric]]
  have heap: "tq_heap ?q = (tq_heap q)[i := (fst (tq_heap q ! i), target)]" using fields(5) i(1) by simp
  have entry: "tq_heap ?q ! k = (fst (tq_heap q ! k), ?f (snd (tq_heap q ! k)))" if "k < length (tq_heap q)" for k
    using that i indexed_inj [OF idx(1) that i(1)] unfolding heap by (auto simp: nth_list_update prod_eq_iff)
  then have heap_map: "tq_heap ?q = map (\<lambda>(e, u). (e, ?f u)) (tq_heap q)"
    by (intro nth_equalityI) (auto simp: heap split: prod.split)
  have near: "pt_next (tq_data q u) = Some source \<longleftrightarrow> pt_prev (tq_data q source) = Some u"
    "pt_prev (tq_data q u) = Some source \<longleftrightarrow> pt_next (tq_data q source) = Some u" if "u \<in> set ts" for u
    using linked_neighbours [OF idx(3,4)] that inn(1) by auto
  have "linked (tq_data ?q) (map_option ?f None) (map_option ?f (tq_timers q)) (map ?f ts)"
  proof (rule linked_renamed [OF idx(3)])
    fix u assume u: "u \<in> set ts"
    have "map_option ?f (pt_next (tq_data q source)) = pt_next (tq_data q source)"
      "map_option ?f (pt_prev (tq_data q source)) = pt_prev (tq_data q source)"
      using self by (cases "pt_next (tq_data q source)"; cases "pt_prev (tq_data q source)"; simp)+
    then show "pt_next (tq_data ?q (?f u)) = map_option ?f (pt_next (tq_data q u)) \<and>
        pt_prev (tq_data ?q (?f u)) = map_option ?f (pt_prev (tq_data q u))"
      using fields(1,2) ne out(1) u near [OF u]
      by (cases "pt_next (tq_data q u)"; cases "pt_prev (tq_data q u)") auto
  qed
  moreover have "map_option ?f (tq_timers q) = tq_timers ?q"
    using fields(6) by (cases "tq_timers q") auto
  ultimately have linked: "linked (tq_data ?q) None (tq_timers ?q) (map ?f ts)" by simp
  have dist: "distinct (map ?f ts)" using idx(4) out(1) by (auto simp: distinct_map inj_on_def)
  have mem: "set (map ?f ts) = members ?q" by (simp only: heap_map idx(5) set_map image_image case_prod_beta snd_conv)
  have index: "indexed ?q"
    unfolding indexed_def
  proof (intro allI impI)
    fix k assume "k < length (tq_heap ?q)"
    then have k: "k < length (tq_heap q)" by (simp add: heap)
    have "snd (tq_heap q ! k) \<in> members q" using k by simp
    then have "snd (tq_heap q ! k) \<noteq> target" using out(2) by metis
    then show "pt_heap_index (tq_data ?q (snd (tq_heap ?q ! k))) = k"
      using entry [OF k] k fields(4) idx(1) ne i_def by (auto simp: indexed_def)
  qed
  have ordered: "heap_ordered (tq_heap ?q)"
    unfolding heap_ordered_def
  proof (intro allI impI)
    fix k assume k: "0 < k \<and> k < length (tq_heap ?q)"
    then have "k < length (tq_heap q)" "parent k < length (tq_heap q)"
      using parent_less [of k] by (simp_all add: heap)
    with k idx(2) entry show "expiry (tq_heap ?q) (parent k) \<le> expiry (tq_heap ?q) k"
      by (simp add: heap_ordered_def)
  qed
  have others: "pt_prev (tq_data q source) \<noteq> Some u" "pt_next (tq_data q source) \<noteq> Some u" if "u \<notin> set ts" for u
    using that ends ts by (auto split: if_splits dest: hd_in_set last_in_set)
  have "idle (tq_data ?q u)" if u: "u \<notin> set (map ?f ts)" for u
  proof (cases "u = source")
    case False
    with u have "u \<notin> set ts" "u \<noteq> target" using inn(1) by (force simp: image_iff)+
    then show ?thesis using fields(1,2,3) [of u] False idx(6) [of u] others by (simp add: idle_def)
  qed (use fields(1,2,3) [of u] in \<open>simp add: idle_def\<close>)
  moreover have "pt_ops (tq_data ?q u) \<noteq> []" if "u \<in> set (map ?f ts)" for u
    using that fields(3) [of u] idx(7) inn(1) ne by (auto split: if_splits)
  ultimately have "queue_ok (map ?f ts) ?q"
    unfolding queue_ok_def queue_shape_def using linked dist mem index ordered by blast
  then show "\<exists>ts'. queue_ok ts' ?q" by blast
  have w: "w = (fst w, pt_ops (tq_data q source))" "(fst w, source) \<in> set (tq_heap q)"
    using source waiting_iff [OF idx(1), of source "fst w" "snd w"] unfolding prod_eq_iff by simp_all
  show "waiting ?q = (waiting q)(source := None, target \<mapsto> w)"
  proof (rule waiting_eqI [OF index])
    fix u e ops
    have ops_target: "pt_ops (tq_data q target) = []" using idx(6) [OF out(1)] by (simp add: idle_def)
    have set_heap: "(e, u) \<in> set (tq_heap ?q) \<longleftrightarrow>
        (if u = target then (e, source) \<in> set (tq_heap q) else u \<noteq> source \<and> (e, u) \<in> set (tq_heap q))"
      unfolding heap_map using out(2) ne by (force split: if_splits)
    have one: "(e, source) \<in> set (tq_heap q) \<longleftrightarrow> e = fst w"
      using waiting_iff [OF idx(1), of source e "pt_ops (tq_data q source)"] source w by auto
    show "((waiting q)(source := None, target \<mapsto> w)) u = Some (e, ops) \<longleftrightarrow>
        (e, u) \<in> set (tq_heap ?q) \<and> ops = pt_ops (tq_data ?q u)"
      unfolding set_heap fields(3) using ops_target one w(1) ne waiting_iff [OF idx(1), of u e ops]
      by (cases w) auto
  qed
qed

section \<open>Every queue that can arise\<close>

inductive reachable_queue :: "timer_queue \<Rightarrow> bool" where
  fresh: "reachable_queue new_timer_queue"
| enqueued: "reachable_queue q \<Longrightarrow> reachable_queue (snd (enqueue_timer e t wop q))"
| cancelled: "reachable_queue q \<Longrightarrow> reachable_queue (snd (snd (cancel_timer t m q)))"
| cancelled_by_key: "reachable_queue q \<Longrightarrow> reachable_queue (snd (cancel_timer_by_key t key q))"
| dequeued_all: "reachable_queue q \<Longrightarrow> get_all_timers q = Some (ops, q') \<Longrightarrow> reachable_queue q'"
| moved: "reachable_queue q \<Longrightarrow> \<not> active t q \<Longrightarrow> active u q \<Longrightarrow> reachable_queue (move_timer t u q)"
| dequeued: "reachable_queue q \<Longrightarrow> get_ready_timers now q ops = Some (ready, q') \<Longrightarrow> reachable_queue q'"

lemma new_queue_ok: "queue_ok [] new_timer_queue" "waiting new_timer_queue t = None"
  by (simp_all add: queue_ok_def queue_shape_def new_timer_queue_def indexed_def heap_ordered_def waiting_def
    idle_def new_per_timer_data_def)

lemma reachable_queue_ok: "reachable_queue q \<Longrightarrow> \<exists>ts. queue_ok ts q"
proof (induction rule: reachable_queue.induct)
  case fresh
  then show ?case using new_queue_ok by blast
next
  case (enqueued q e t wop)
  then show ?case using enqueue_timer_ok by blast
next
  case (cancelled q t m)
  then show ?case using cancel_timer_ok(1) keep_ops_ok(1) by (auto split: option.split)
next
  case (cancelled_by_key q t key)
  then show ?case using cancel_timer_ok(2) keep_ops_ok(1) by (auto split: option.split)
next
  case (dequeued_all q ops q')
  then obtain ts where "queue_ok ts q" by blast
  from get_all_ok [OF this] dequeued_all show ?case by auto
next
  case (moved q t u)
  then obtain ts where q: "queue_ok ts q" by blast
  then show ?case using moved.hyps move_timer_ok(1) [OF q] active_waiting(1) [OF q] by blast
next
  case (dequeued q now ops ready q')
  then obtain ts where "queue_ok ts q" by blast
  from get_ready_ok [OF this, of now ops] dequeued show ?case by auto
qed

lemma enqueue_first:
  assumes "queue_ok ts q" "fst (enqueue_timer e t wop q)"
    and "waiting (snd (enqueue_timer e t wop q)) u = Some (e', ops)"
  shows "expiry_of (snd (enqueue_timer e t wop q)) t \<le> e'"
proof -
  let ?q = "snd (enqueue_timer e t wop q)"
  obtain ts' where q: "queue_ok ts' ?q" using enqueue_timer_ok [OF assms(1)] by blast
  have "waiting ?q t \<noteq> None"
    using enqueue_timer_ok [OF assms(1), of e t wop] by (auto split: option.split)
  then obtain e1 ops1 where w: "waiting ?q t = Some (e1, ops1)" by auto
  have "pt_heap_index (tq_data ?q t) = 0" using assms(2) by (simp add: enqueue_timer_def Let_def)
  from first_timer [OF q this w assms(3)] w show ?thesis by simp
qed

section \<open>Sleeping\<close>

lemma due_front:
  assumes "queue_ok ts q"
  shows "due now q \<noteq> {} \<longleftrightarrow> tq_heap q \<noteq> [] \<and> fst (tq_heap q ! 0) \<le> now"
proof
  have idx: "indexed q" "heap_ordered (tq_heap q)" using assms by (simp_all add: queue_ok_def queue_shape_def)
  { assume "due now q \<noteq> {}"
    then obtain t e ops where w: "waiting q t = Some (e, ops)" "e \<le> now" by (auto simp: due_def)
    then obtain i where "i < length (tq_heap q)" "tq_heap q ! i = (e, t)"
      using waiting_iff [OF idx(1), of t e ops] by (auto simp: in_set_conv_nth)
    with heap_front [OF idx(2), of i] w(2) show "tq_heap q \<noteq> [] \<and> fst (tq_heap q ! 0) \<le> now" by auto }
  { assume h: "tq_heap q \<noteq> [] \<and> fst (tq_heap q ! 0) \<le> now"
    then have "tq_heap q ! 0 \<in> set (tq_heap q)" by simp
    then have "waiting q (snd (tq_heap q ! 0)) = Some (fst (tq_heap q ! 0), pt_ops (tq_data q (snd (tq_heap q ! 0))))"
      using waiting_iff [OF idx(1)] by simp
    with h show "due now q \<noteq> {}" by (auto simp: due_def) }
qed

lemma sleep_zero:
  assumes "queue_ok ts q" "0 < max_duration"
  shows "wait_duration_usec now max_duration q = 0 \<longleftrightarrow> due now q \<noteq> {}"
    and "wait_duration_msec now max_duration q = 0 \<longleftrightarrow> due now q \<noteq> {}"
  using assms(2) unfolding due_front [OF assms(1)]
  by (auto simp: wait_duration_usec_def wait_duration_msec_def to_usec_def to_msec_def Let_def)

lemma queue_empty_iff:
  assumes "queue_ok ts q"
  shows "timer_queue_empty q \<longleftrightarrow> waiting q = Map.empty"
proof -
  have q: "tq_timers q = (if ts = [] then None else Some (hd ts))" "set ts = members q"
    using assms linked_head [of "tq_data q" None "tq_timers q" ts] by (simp_all add: queue_ok_def queue_shape_def)
  have "waiting q = Map.empty \<longleftrightarrow> members q = {}" using waiting_None [of q] by (auto simp: fun_eq_iff)
  then show ?thesis using q unfolding timer_queue_empty_def by auto
qed

section \<open>Properties\<close>

text \<open>C20: the queue implements a map from timers to their expiry and operations, for every queue that can
  arise, with its heap ordered, every timer knowing its place in it, and the list of timers
  linked both ways: a new timer enters with its expiry, an operation for a known timer is added
  behind the others, whatever expiry comes with it; when the answer is that the timer is the
  first, no other expires earlier; cancelling takes away the oldest operations, and the timer
  with its last one; dequeuing all timers ends with the operations of each of them and leaves the
  empty map; and a timer is moved with its expiry and its operations.\<close>

theorem timer_queue_refines_map:
  assumes "reachable_queue q"
  shows "(\<exists>ts. queue_ok ts q) \<and> (timer_queue_empty q \<longleftrightarrow> waiting q = Map.empty) \<and>
    waiting (snd (enqueue_timer e t wop q)) = (waiting q)(t \<mapsto>
      (case waiting q t of None \<Rightarrow> (e, [wop]) | Some (e', ops) \<Rightarrow> (e', ops @ [wop]))) \<and>
    (fst (enqueue_timer e t wop q) \<longrightarrow>
      (\<forall>u e' ops. waiting (snd (enqueue_timer e t wop q)) u = Some (e', ops) \<longrightarrow>
         expiry_of (snd (enqueue_timer e t wop q)) t \<le> e')) \<and>
    (case waiting q t of
       None \<Rightarrow> cancel_timer t m q = (0, [], q)
     | Some (e', ops) \<Rightarrow> \<exists>q'. cancel_timer t m q = (min m (length ops), aborted (take m ops), q') \<and>
         waiting q' = (waiting q)(t := if length ops \<le> m then None else Some (e', drop m ops))) \<and>
    (\<exists>order q'. get_all_timers q = Some (concat (map (ops_of q) order), q') \<and> waiting q' = Map.empty \<and>
       set order = dom (waiting q) \<and> distinct order) \<and>
    (waiting q u = None \<and> waiting q t = Some w \<longrightarrow> waiting (move_timer u t q) = (waiting q)(t := None, u \<mapsto> w))"
proof -
  obtain ts where q: "queue_ok ts q" using reachable_queue_ok [OF assms] by blast
  have "case waiting q t of
       None \<Rightarrow> cancel_timer t m q = (0, [], q)
     | Some (e', ops) \<Rightarrow> \<exists>q'. cancel_timer t m q = (min m (length ops), aborted (take m ops), q') \<and>
         waiting q' = (waiting q)(t := if length ops \<le> m then None else Some (e', drop m ops))"
    using cancel_timer_ok(1) [OF q, of t m] keep_ops_ok(2) [OF q, of t]
    by (cases "waiting q t") auto
  moreover have "\<exists>order q'. get_all_timers q = Some (concat (map (ops_of q) order), q') \<and> waiting q' = Map.empty \<and>
       set order = dom (waiting q) \<and> distinct order"
    using get_all_ok [OF q] by blast
  ultimately show ?thesis
    using q queue_empty_iff [OF q] enqueue_timer_ok [OF q] enqueue_first [OF q] move_timer_ok(2) [OF q] by (intro conjI) blast+
qed

text \<open>C21: the timers that have expired are dequeued, earliest first, with the operations of each in their
  order and without an error, and no others: the loop ends. The reactor does not sleep exactly when
  a timer has expired.\<close>

theorem expired_timers_ready:
  assumes "reachable_queue q" "0 < max_duration"
  shows "\<exists>order q'. get_ready_timers now q [] =
      Some (concat (map (\<lambda>t. map (\<lambda>wop. (wop, None)) (ops_of q t)) order), q') \<and>
    set order = due now q \<and> distinct order \<and> sorted (map (expiry_of q) order) \<and>
    waiting q' = (\<lambda>t. if t \<in> due now q then None else waiting q t) \<and>
    (wait_duration_usec now max_duration q = 0 \<longleftrightarrow> due now q \<noteq> {}) \<and>
    (wait_duration_msec now max_duration q = 0 \<longleftrightarrow> due now q \<noteq> {})"
proof -
  obtain ts where q: "queue_ok ts q" using reachable_queue_ok [OF assms(1)] by blast
  note sleep = sleep_zero [OF q assms(2)]
  from get_ready_ok [OF q, of now "[]"] show ?thesis unfolding sleep by (simp only: append_Nil simp_thms) blast
qed

definition example_op :: "nat \<Rightarrow> wait_op" where
  "example_op i = \<lparr>wo_id = i, wo_cancellation_key = 0\<rparr>"

definition example_queue :: timer_queue where
  "example_queue =
     snd (enqueue_timer 9 3 (example_op 3) (snd (enqueue_timer 3 2 (example_op 2)
       (snd (enqueue_timer 7 1 (example_op 1) new_timer_queue)))))"

lemma example_queue_reachable: "reachable_queue example_queue"
  unfolding example_queue_def by (intro reachable_queue.intros)

lemma example_queue_waiting:
  "waiting example_queue = [1 \<mapsto> (7, [example_op 1]), 2 \<mapsto> (3, [example_op 2]), 3 \<mapsto> (9, [example_op 3])]"
proof -
  let ?q1 = "snd (enqueue_timer 7 1 (example_op 1) new_timer_queue)"
  let ?q2 = "snd (enqueue_timer 3 2 (example_op 2) ?q1)"
  have empty: "waiting new_timer_queue = Map.empty" using new_queue_ok(2) by (intro ext)
  have w1: "waiting ?q1 = [1 \<mapsto> (7, [example_op 1])]"
    using enqueue_timer_ok [OF new_queue_ok(1), of 7 1 "example_op 1"] empty by simp
  obtain ts1 where q1: "queue_ok ts1 ?q1" using enqueue_timer_ok [OF new_queue_ok(1)] by blast
  have w2: "waiting ?q2 = [1 \<mapsto> (7, [example_op 1]), 2 \<mapsto> (3, [example_op 2])]"
    using enqueue_timer_ok [OF q1, of 3 2 "example_op 2"] w1 by simp
  obtain ts2 where q2: "queue_ok ts2 ?q2" using enqueue_timer_ok [OF q1] by blast
  show ?thesis
    using enqueue_timer_ok [OF q2, of 9 3 "example_op 3"] w2 unfolding example_queue_def by simp
qed

theorem timer_queue_refines_map_witness:
  "waiting (snd (enqueue_timer 4 2 (example_op 5) example_queue)) 2 = Some (3, [example_op 2, example_op 5])"
  using timer_queue_refines_map [OF example_queue_reachable, of 4 2 "example_op 5"] example_queue_waiting by simp

theorem expired_timers_ready_witness:
  "\<exists>q'. get_ready_timers 8 example_queue [] = Some ([(example_op 2, None), (example_op 1, None)], q') \<and>
     waiting q' = [3 \<mapsto> (9, [example_op 3])] \<and> wait_duration_usec 8 100 example_queue = 0"
proof -
  have due: "due 8 example_queue = {1, 2}"
    by (auto simp: due_def example_queue_waiting split: if_splits)
  obtain order q' where r: "get_ready_timers 8 example_queue [] =
      Some (concat (map (\<lambda>t. map (\<lambda>wop. (wop, None)) (ops_of example_queue t)) order), q')"
    "set order = {1, 2}" "distinct order" "sorted (map (expiry_of example_queue) order)"
    "waiting q' = (\<lambda>t. if t \<in> {1, 2} then None else waiting example_queue t)"
    "wait_duration_usec 8 100 example_queue = 0"
    using expired_timers_ready [OF example_queue_reachable, of 100 8] unfolding due by auto
  have "length order = 2" using r(2,3) distinct_card [of order] by simp
  then obtain a b where "order = [a, b]" by (auto simp: length_Suc_conv numeral_2_eq_2)
  with r(2,4) have "order = [2, 1]"
    by (auto simp: example_queue_waiting doubleton_eq_iff)
  moreover have "waiting q' = [3 \<mapsto> (9, [example_op 3])]"
    unfolding r(5) by (auto simp: example_queue_waiting)
  ultimately show ?thesis using r(1,6) by (simp add: example_queue_waiting)
qed

end
