(* ===== verification/Timer_Service.thy ===== *)
theory Timer_Service
  imports Timer_Queue
begin

text \<open>
  The timers of \<open>asio\<close> above their queue: \<open>detail/deadline_timer_service.hpp\<close>, the part of
  \<open>detail/impl/epoll_reactor.hpp\<close> and \<open>epoll_reactor.ipp\<close> that serves it (under
  \<open>src/src/lib/asio-1.28.0/include/asio\<close>), and the constructor of \<open>basic_waitable_timer\<close>. The set of
  queues of the reactor has this one queue; there is a \<open>timerfd\<close>, whose last setting is kept. The
  operations that were posted to the scheduler wait in \<open>rx_ops\<close>, its outstanding work is \<open>rx_work\<close>.
  The clock is an argument of what reads it; setting the \<open>timerfd\<close> takes no time.
\<close>

record itimerspec =
  tv_sec :: int
  tv_nsec :: int

record reactor =
  rx_queue :: timer_queue
  rx_shutdown :: bool
  rx_timerfd :: "(int \<times> itimerspec \<times> bool) option"
  rx_ops :: completed
  rx_work :: int

record timer_impl =
  ti_expiry :: int
  might_have_pending_waits :: bool

record timer_service =
  sv_reactor :: reactor
  sv_impl :: "nat \<Rightarrow> timer_impl"

section \<open>The reactor\<close>

text \<open>The setting for the \<open>timerfd\<close>, and whether it is an absolute time.\<close>

definition get_timeout :: "int \<Rightarrow> reactor \<Rightarrow> itimerspec \<times> bool" where
  "get_timeout now rx =
     (let usec = wait_duration_usec now (5 * 60 * 1000 * 1000) (rx_queue rx)
      in (\<lparr>tv_sec = usec sdiv 1000000, tv_nsec = (if usec \<noteq> 0 then (usec smod 1000000) * 1000 else 1)\<rparr>,
          usec = 0))"

definition update_timeout :: "int \<Rightarrow> reactor \<Rightarrow> reactor" where
  "update_timeout now rx = rx\<lparr>rx_timerfd := Some (now, get_timeout now rx)\<rparr>"

definition schedule_timer :: "int \<Rightarrow> int \<Rightarrow> nat \<Rightarrow> wait_op \<Rightarrow> reactor \<Rightarrow> reactor" where
  "schedule_timer now time t wop rx =
     (if rx_shutdown rx then rx\<lparr>rx_ops := rx_ops rx @ [(wop, None)], rx_work := rx_work rx + 1\<rparr>
      else
        (case enqueue_timer time t wop (rx_queue rx) of
           (earliest, q) \<Rightarrow>
             (let rx = rx\<lparr>rx_queue := q, rx_work := rx_work rx + 1\<rparr>
              in if earliest then update_timeout now rx else rx)))"

definition reactor_cancel_timer :: "nat \<Rightarrow> nat \<Rightarrow> reactor \<Rightarrow> nat \<times> reactor" where
  "reactor_cancel_timer t max_cancelled rx =
     (case cancel_timer t max_cancelled (rx_queue rx) of
        (n, ops, q) \<Rightarrow> (n, rx\<lparr>rx_queue := q, rx_ops := rx_ops rx @ ops\<rparr>))"

definition reactor_cancel_by_key :: "nat \<Rightarrow> nat \<Rightarrow> reactor \<Rightarrow> reactor" where
  "reactor_cancel_by_key t key rx =
     (case cancel_timer_by_key t key (rx_queue rx) of
        (ops, q) \<Rightarrow> rx\<lparr>rx_queue := q, rx_ops := rx_ops rx @ ops\<rparr>)"

definition SIZE_MAX :: nat where
  "SIZE_MAX = 2 ^ 64 - 1"

definition reactor_move_timer :: "nat \<Rightarrow> nat \<Rightarrow> reactor \<Rightarrow> reactor" where
  "reactor_move_timer target source rx =
     (case cancel_timer target SIZE_MAX (rx_queue rx) of
        (_, ops, q) \<Rightarrow> rx\<lparr>rx_queue := move_timer target source q, rx_ops := rx_ops rx @ ops\<rparr>)"

text \<open>
  What \<open>run\<close> does about the timers when \<open>epoll_wait\<close> reports the \<open>timerfd\<close>: the clock is read to take
  out the timers that have expired, and again to set the \<open>timerfd\<close> anew. The operations go to the
  scheduler, which hands them out one by one.
\<close>

definition check_timers :: "int \<Rightarrow> int \<Rightarrow> reactor \<Rightarrow> reactor option" where
  "check_timers now now' rx =
     (case get_ready_timers now (rx_queue rx) [] of
        None \<Rightarrow> None
      | Some (ops, q) \<Rightarrow> Some (update_timeout now' (rx\<lparr>rx_queue := q, rx_ops := rx_ops rx @ ops\<rparr>)))"

definition next_operation :: "reactor \<Rightarrow> ((wait_op \<times> error_code option) \<times> reactor) option" where
  "next_operation rx =
     (case rx_ops rx of
        [] \<Rightarrow> None
      | c # ops \<Rightarrow> Some (c, rx\<lparr>rx_ops := ops, rx_work := rx_work rx - 1\<rparr>))"

text \<open>The operations of a reactor that is shut down are abandoned.\<close>

definition reactor_shutdown :: "reactor \<Rightarrow> reactor option" where
  "reactor_shutdown rx =
     (case get_all_timers (rx_queue rx) of
        None \<Rightarrow> None
      | Some (_, q) \<Rightarrow> Some (rx\<lparr>rx_shutdown := True, rx_queue := q\<rparr>))"

section \<open>The service\<close>

definition service_construct :: "nat \<Rightarrow> timer_service \<Rightarrow> timer_service" where
  "service_construct t sv =
     sv\<lparr>sv_impl := (sv_impl sv)(t := \<lparr>ti_expiry = 0, might_have_pending_waits = False\<rparr>)\<rparr>"

definition set_pending :: "nat \<Rightarrow> bool \<Rightarrow> timer_service \<Rightarrow> timer_service" where
  "set_pending t b sv = sv\<lparr>sv_impl := (sv_impl sv)(t := (sv_impl sv t)\<lparr>might_have_pending_waits := b\<rparr>)\<rparr>"

definition service_cancel :: "nat \<Rightarrow> timer_service \<Rightarrow> nat \<times> timer_service" where
  "service_cancel t sv =
     (if \<not> might_have_pending_waits (sv_impl sv t) then (0, sv)
      else
        (case reactor_cancel_timer t SIZE_MAX (sv_reactor sv) of
           (n, rx) \<Rightarrow> (n, set_pending t False (sv\<lparr>sv_reactor := rx\<rparr>))))"

definition service_cancel_one :: "nat \<Rightarrow> timer_service \<Rightarrow> nat \<times> timer_service" where
  "service_cancel_one t sv =
     (if \<not> might_have_pending_waits (sv_impl sv t) then (0, sv)
      else
        (case reactor_cancel_timer t 1 (sv_reactor sv) of
           (n, rx) \<Rightarrow>
             (let sv = sv\<lparr>sv_reactor := rx\<rparr> in (n, if n = 0 then set_pending t False sv else sv))))"

definition expires_at :: "nat \<Rightarrow> int \<Rightarrow> timer_service \<Rightarrow> nat \<times> timer_service" where
  "expires_at t expiry_time sv =
     (case service_cancel t sv of
        (n, sv) \<Rightarrow> (n, sv\<lparr>sv_impl := (sv_impl sv)(t := (sv_impl sv t)\<lparr>ti_expiry := expiry_time\<rparr>)\<rparr>))"

definition expires_after :: "int \<Rightarrow> nat \<Rightarrow> int \<Rightarrow> timer_service \<Rightarrow> nat \<times> timer_service" where
  "expires_after now t duration sv = expires_at t (time_add now duration) sv"

definition service_destroy :: "nat \<Rightarrow> timer_service \<Rightarrow> timer_service" where
  "service_destroy t sv = snd (service_cancel t sv)"

definition async_wait :: "int \<Rightarrow> nat \<Rightarrow> wait_op \<Rightarrow> timer_service \<Rightarrow> timer_service" where
  "async_wait now t wop sv =
     (let sv = set_pending t True sv
      in sv\<lparr>sv_reactor := schedule_timer now (ti_expiry (sv_impl sv t)) t wop (sv_reactor sv)\<rparr>)"

text \<open>Both timers belong to this service.\<close>

definition move_impl :: "nat \<Rightarrow> nat \<Rightarrow> timer_service \<Rightarrow> timer_service" where
  "move_impl target source sv =
     (let sv = sv\<lparr>sv_reactor := reactor_move_timer target source (sv_reactor sv)\<rparr>;
          other = sv_impl sv source
      in sv\<lparr>sv_impl := (sv_impl sv)
           (target := other, source := \<lparr>ti_expiry = 0, might_have_pending_waits = False\<rparr>)\<rparr>)"

text \<open>The constructor of a \<open>steady_timer\<close> with a duration.\<close>

definition new_waitable_timer :: "int \<Rightarrow> int \<Rightarrow> nat \<Rightarrow> timer_service \<Rightarrow> timer_service" where
  "new_waitable_timer now duration t sv = snd (expires_after now t duration (service_construct t sv))"

definition new_service :: timer_service where
  "new_service =
     \<lparr>sv_reactor = \<lparr>rx_queue = new_timer_queue, rx_shutdown = False, rx_timerfd = None, rx_ops = [], rx_work = 0\<rparr>,
      sv_impl = (\<lambda>_. \<lparr>ti_expiry = 0, might_have_pending_waits = False\<rparr>)\<rparr>"

section \<open>The timerfd covers the timers\<close>

text \<open>
  When the \<open>timerfd\<close> makes \<open>epoll_wait\<close> return, on the clock of the timers: a relative setting counts
  from the call, a setting of zero is none.
\<close>

definition alarm :: "reactor \<Rightarrow> int option" where
  "alarm rx =
     (case rx_timerfd rx of
        None \<Rightarrow> None
      | Some (now, spec, absolute) \<Rightarrow>
          if tv_sec spec = 0 \<and> tv_nsec spec = 0 then None
          else Some ((if absolute then 0 else now) + tv_sec spec * 1000000000 + tv_nsec spec))"

text \<open>Whatever waits is covered by an alarm, not later than a microsecond after its expiry.\<close>

definition alarmed :: "reactor \<Rightarrow> bool" where
  "alarmed rx \<longleftrightarrow>
     (\<forall>t e ops. waiting (rx_queue rx) t = Some (e, ops) \<longrightarrow> (\<exists>a. alarm rx = Some a \<and> a \<le> max 1 (e + 1000)))"

lemma alarm_update:
  assumes "wait_duration_usec now 300000000 (rx_queue rx) = usec" "0 \<le> usec"
  shows "alarm (update_timeout now rx) = Some (if usec = 0 then 1 else now + usec * 1000)"
proof -
  have units: "usec sdiv 1000000 = usec div 1000000" "usec smod 1000000 = usec mod 1000000"
    using assms(2) by (cases "usec = 0"; simp add: signed_divide_int_def signed_modulo_int_def)+
  have sum: "usec div 1000000 * 1000000000 + usec mod 1000000 * 1000 = usec * 1000"
    using div_mult_mod_eq [of usec 1000000] by linarith
  have "usec \<noteq> 0 \<Longrightarrow> \<not> (usec div 1000000 = 0 \<and> usec mod 1000000 = 0)"
    using div_mult_mod_eq [of usec 1000000] by auto
  then show ?thesis
    using assms(1) sum by (simp add: alarm_def update_timeout_def get_timeout_def Let_def units)
qed

lemma update_covers:
  assumes q: "queue_ok ts (rx_queue rx)"
  shows "alarmed (update_timeout now rx)"
  unfolding alarmed_def
proof (intro allI impI)
  fix t e ops
  let ?q = "rx_queue rx"
  assume "waiting (rx_queue (update_timeout now rx)) t = Some (e, ops)"
  then have w: "waiting ?q t = Some (e, ops)" by (simp add: update_timeout_def)
  have idx: "indexed ?q" "heap_ordered (tq_heap ?q)" using q by (simp_all add: queue_ok_def queue_shape_def)
  then obtain i where i: "i < length (tq_heap ?q)" "tq_heap ?q ! i = (e, t)"
    using w waiting_iff [OF idx(1), of t e ops] by (auto simp: in_set_conv_nth)
  let ?e0 = "fst (tq_heap ?q ! 0)"
  have e0: "?e0 \<le> e" "tq_heap ?q \<noteq> []" using heap_front [OF idx(2) i(1)] i by auto
  define usec where "usec = wait_duration_usec now 300000000 ?q"
  have usec: "usec = to_usec (time_subtract ?e0 now) 300000000"
    using e0(2) by (simp add: usec_def wait_duration_usec_def)
  have "0 \<le> usec \<and> (usec \<noteq> 0 \<longrightarrow> now + usec * 1000 \<le> ?e0 + 1000)"
  proof (cases "now < ?e0")
    case True
    let ?d = "time_subtract ?e0 now"
    have d: "0 < ?d" "?d \<le> ?e0 - now" using True time_subtract_le [of now ?e0] by simp_all
    have "?d div 1000 * 1000 \<le> ?d" by simp
    moreover have "0 \<le> ?d div 1000"
      using d(1) pos_imp_zdiv_nonneg_iff [of 1000 ?d] by (simp del: time_subtract_pos)
    ultimately show ?thesis using d unfolding usec to_usec_def Let_def by (auto simp: total_units_pos)
  next
    case False
    then show ?thesis unfolding usec to_usec_def by simp
  qed
  then show "\<exists>a. alarm (update_timeout now rx) = Some a \<and> a \<le> max 1 (e + 1000)"
    using alarm_update [of now rx usec] e0(1) by (auto simp: usec_def)
qed

section \<open>Counting the operations\<close>

type_synonym waiting_map = "nat \<Rightarrow> (int \<times> wait_op list) option"

definition ops_at :: "waiting_map \<Rightarrow> nat \<Rightarrow> nat" where
  "ops_at w t = (case w t of None \<Rightarrow> 0 | Some (_, ops) \<Rightarrow> length ops)"

definition ops_in :: "waiting_map \<Rightarrow> nat" where
  "ops_in w = (\<Sum>t \<in> dom w. ops_at w t)"

lemma ops_in_split:
  assumes "finite (dom w)"
  shows "ops_in w = ops_at w t + (\<Sum>u \<in> dom w - {t}. ops_at w u)"
proof (cases "t \<in> dom w")
  case True
  then show ?thesis unfolding ops_in_def using sum.remove [OF assms] by blast
next
  case False
  then have "ops_at w t = 0" by (cases "w t") (auto simp: ops_at_def)
  with False show ?thesis by (simp add: ops_in_def)
qed

lemma ops_in_upd:
  assumes "finite (dom w)"
  shows "ops_in (w(t := x)) + ops_at w t = ops_in w + ops_at (w(t := x)) t"
proof -
  have "finite (dom (w(t := x)))" using assms by (simp add: dom_fun_upd)
  moreover have "dom (w(t := x)) - {t} = dom w - {t}" by (auto simp: dom_def)
  moreover have "(\<Sum>u \<in> dom w - {t}. ops_at (w(t := x)) u) = (\<Sum>u \<in> dom w - {t}. ops_at w u)"
    by (rule sum.cong) (auto simp: ops_at_def)
  ultimately show ?thesis
    using ops_in_split [OF assms, of t] ops_in_split [of "w(t := x)" t] by simp
qed

lemma ops_in_remove:
  assumes "finite (dom w)"
  shows "ops_in w = (\<Sum>t \<in> dom w \<inter> D. ops_at w t) + ops_in (\<lambda>t. if t \<in> D then None else w t)"
proof -
  let ?w = "\<lambda>t. if t \<in> D then None else w t"
  have "dom ?w = dom w - D" by (auto simp: dom_def)
  moreover have "(\<Sum>t \<in> dom w - D. ops_at ?w t) = (\<Sum>t \<in> dom w - D. ops_at w t)"
    by (rule sum.cong) (auto simp: ops_at_def)
  moreover have "ops_in w = (\<Sum>t \<in> dom w \<inter> D. ops_at w t) + (\<Sum>t \<in> dom w - D. ops_at w t)"
    unfolding ops_in_def using sum.Int_Diff [OF assms] by blast
  ultimately show ?thesis by (simp add: ops_in_def)
qed

lemma finite_waiting [simp]: "finite (dom (waiting q))"
proof -
  have "dom (waiting q) = members q" using waiting_None [of q] by (simp add: dom_def)
  then show ?thesis by simp
qed

lemma ops_in_empty [simp]: "ops_in Map.empty = 0"
  by (simp add: ops_in_def)

section \<open>The invariant of the reactor\<close>

definition reactor_ok :: "reactor \<Rightarrow> bool" where
  "reactor_ok rx \<longleftrightarrow> (\<exists>ts. queue_ok ts (rx_queue rx)) \<and> alarmed rx \<and>
     (if rx_shutdown rx then waiting (rx_queue rx) = Map.empty
      else rx_work rx = int (ops_in (waiting (rx_queue rx))) + int (length (rx_ops rx)))"

lemma alarmedD:
  "alarmed rx \<Longrightarrow> waiting (rx_queue rx) t = Some (e, ops) \<Longrightarrow> \<exists>a. alarm rx = Some a \<and> a \<le> max 1 (e + 1000)"
  unfolding alarmed_def by blast

lemma alarmed_sub:
  assumes "alarmed rx" "rx_timerfd rx' = rx_timerfd rx"
    and "\<And>t e ops. waiting (rx_queue rx') t = Some (e, ops) \<Longrightarrow> \<exists>u e' ops'. waiting (rx_queue rx) u = Some (e', ops') \<and> e' \<le> e"
  shows "alarmed rx'"
  unfolding alarmed_def
proof (intro allI impI)
  fix t e ops
  assume "waiting (rx_queue rx') t = Some (e, ops)"
  then obtain u e' ops' where "waiting (rx_queue rx) u = Some (e', ops')" "e' \<le> e" using assms(3) by blast
  moreover have "alarm rx' = alarm rx" by (simp add: alarm_def assms(2))
  ultimately show "\<exists>a. alarm rx' = Some a \<and> a \<le> max 1 (e + 1000)"
    using assms(1) unfolding alarmed_def by fastforce
qed

lemma schedule_ok:
  assumes rx: "reactor_ok rx"
  shows "reactor_ok (schedule_timer now e t wop rx)"
    and "waiting (rx_queue (schedule_timer now e t wop rx)) =
      (if rx_shutdown rx then Map.empty else (waiting (rx_queue rx))(t \<mapsto>
        (case waiting (rx_queue rx) t of None \<Rightarrow> (e, [wop]) | Some (e', ops) \<Rightarrow> (e', ops @ [wop]))))"
proof -
  obtain ts where q: "queue_ok ts (rx_queue rx)" using rx by (auto simp: reactor_ok_def)
  obtain earliest q' where en: "enqueue_timer e t wop (rx_queue rx) = (earliest, q')" by (meson surj_pair)
  note eq = enqueue_timer_ok [OF q, of e t wop, unfolded en, simplified]
  obtain ts' where q': "queue_ok ts' q'" using eq by blast
  let ?w = "waiting (rx_queue rx)"
  have w': "waiting q' = ?w(t \<mapsto> (case ?w t of None \<Rightarrow> (e, [wop]) | Some (e', ops) \<Rightarrow> (e', ops @ [wop])))"
    using eq by simp
  let ?rx = "rx\<lparr>rx_queue := q', rx_work := rx_work rx + 1\<rparr>"
  have run: "schedule_timer now e t wop rx = (if rx_shutdown rx then rx\<lparr>rx_ops := rx_ops rx @ [(wop, None)], rx_work := rx_work rx + 1\<rparr>
      else if earliest then update_timeout now ?rx else ?rx)"
    by (simp add: schedule_timer_def en Let_def)
  show "waiting (rx_queue (schedule_timer now e t wop rx)) =
      (if rx_shutdown rx then Map.empty else ?w(t \<mapsto>
        (case ?w t of None \<Rightarrow> (e, [wop]) | Some (e', ops) \<Rightarrow> (e', ops @ [wop]))))"
    using w' rx unfolding run by (auto simp: reactor_ok_def update_timeout_def)
  have count: "ops_in (waiting q') = ops_in ?w + 1"
    using ops_in_upd [OF finite_waiting, of "rx_queue rx" t "waiting q' t"] unfolding w'
    by (cases "?w t") (auto simp: ops_at_def)
  have "alarmed ?rx" if "\<not> earliest"
  proof (rule alarmed_sub [of rx])
    fix u e1 ops1
    assume u: "waiting (rx_queue ?rx) u = Some (e1, ops1)"
    show "\<exists>u e' ops'. ?w u = Some (e', ops') \<and> e' \<le> e1"
    proof (cases "u = t \<and> ?w t = None")
      case True
      then have e1: "e1 = e" "ops1 = [wop]" using u w' by simp_all
      have "pt_ops (tq_data q' t) = [wop]" using active_waiting(2) [OF q'] u True e1 by simp
      then have "pt_heap_index (tq_data q' t) \<noteq> 0"
        using that en by (auto simp: enqueue_timer_def Let_def)
      moreover have idx: "indexed q'" "heap_ordered (tq_heap q')" using q' by (simp_all add: queue_ok_def queue_shape_def)
      have "t \<in> members q'" using u True waiting_None [of q' t] by simp
      note at = indexed_at [OF idx(1) this]
      have h: "tq_heap q' \<noteq> []" using at by auto
      obtain e0 v where v: "tq_heap q' ! 0 = (e0, v)" by fastforce
      have "v \<noteq> t" using idx(1) h v calculation by (auto simp: indexed_def)
      moreover have "(e0, v) \<in> set (tq_heap q')" using h v nth_mem [of 0 "tq_heap q'"] by simp
      then have "waiting q' v = Some (e0, pt_ops (tq_data q' v))" using waiting_iff [OF idx(1)] by simp
      moreover obtain i where "i < length (tq_heap q')" "tq_heap q' ! i = (e1, t)"
        using u True waiting_iff [OF idx(1), of t e1 ops1] by (auto simp: in_set_conv_nth)
      then have "e0 \<le> e1" using heap_front [OF idx(2), of i] v by simp
      ultimately show ?thesis using w' by auto
    next
      case False
      then show ?thesis using u w' by (auto split: if_splits option.splits)
    qed
  qed (use rx in \<open>simp_all add: reactor_ok_def\<close>)
  moreover have "alarmed (update_timeout now ?rx)" using update_covers [of ts' ?rx] q' by simp
  moreover have "alarmed (rx\<lparr>rx_ops := rx_ops rx @ [(wop, None)], rx_work := rx_work rx + 1\<rparr>)"
    using alarmed_sub [of rx "rx\<lparr>rx_ops := rx_ops rx @ [(wop, None)], rx_work := rx_work rx + 1\<rparr>"] rx
    by (auto simp: reactor_ok_def)
  ultimately show "reactor_ok (schedule_timer now e t wop rx)"
    using rx q q' count unfolding run reactor_ok_def by (auto simp: update_timeout_def)
qed

lemma reactor_cancel_ok:
  assumes rx: "reactor_ok rx" and run: "reactor_cancel_timer t m rx = (n, rx')"
  shows "reactor_ok rx'" "rx_shutdown rx' = rx_shutdown rx"
    and "case waiting (rx_queue rx) t of
        None \<Rightarrow> n = 0 \<and> rx' = rx
      | Some (e, ops) \<Rightarrow> n = min m (length ops) \<and> rx_ops rx' = rx_ops rx @ aborted (take m ops) \<and>
          waiting (rx_queue rx') = (waiting (rx_queue rx))(t := if length ops \<le> m then None else Some (e, drop m ops))"
proof -
  let ?w = "waiting (rx_queue rx)"
  obtain ts where q: "queue_ok ts (rx_queue rx)" using rx by (auto simp: reactor_ok_def)
  note c = cancel_timer_ok(1) [OF q, of t m]
  have "reactor_ok rx' \<and> rx_shutdown rx' = rx_shutdown rx \<and> (case ?w t of
        None \<Rightarrow> n = 0 \<and> rx' = rx
      | Some (e, ops) \<Rightarrow> n = min m (length ops) \<and> rx_ops rx' = rx_ops rx @ aborted (take m ops) \<and>
          waiting (rx_queue rx') = ?w(t := if length ops \<le> m then None else Some (e, drop m ops)))"
  proof (cases "?w t")
    case None
    then show ?thesis using run c rx by (simp add: reactor_cancel_timer_def)
  next
    case (Some p)
    then obtain e ops where w: "?w t = Some (e, ops)" by (cases p) simp
    let ?q = "keep_ops t (drop m ops) (rx_queue rx)"
    have rx': "rx' = rx\<lparr>rx_queue := ?q, rx_ops := rx_ops rx @ aborted (take m ops)\<rparr>" "n = min m (length ops)"
      using run c w by (simp_all add: reactor_cancel_timer_def)
    note k = keep_ops_ok(1,2) [OF q w, of "drop m ops"]
    have w': "waiting ?q = ?w(t := if length ops \<le> m then None else Some (e, drop m ops))" using k(2) by simp
    have "alarmed rx'"
    proof (rule alarmed_sub [of rx])
      fix u e1 ops1
      assume "waiting (rx_queue rx') u = Some (e1, ops1)"
      then show "\<exists>v e' ops'. ?w v = Some (e', ops') \<and> e' \<le> e1"
        using w w' by (auto simp: rx' split: if_splits)
    qed (use rx in \<open>simp_all add: reactor_ok_def rx'\<close>)
    moreover have "ops_in (waiting ?q) + length (aborted (take m ops)) = ops_in ?w"
      using ops_in_upd [OF finite_waiting, of "rx_queue rx" t "waiting ?q t"] w
      unfolding w' by (auto simp: ops_at_def aborted_def)
    moreover have "\<not> rx_shutdown rx" using rx w by (auto simp: reactor_ok_def)
    ultimately show ?thesis using k(1) rx w w' by (simp add: rx' reactor_ok_def)
  qed
  then show "reactor_ok rx'" "rx_shutdown rx' = rx_shutdown rx" "case ?w t of
        None \<Rightarrow> n = 0 \<and> rx' = rx
      | Some (e, ops) \<Rightarrow> n = min m (length ops) \<and> rx_ops rx' = rx_ops rx @ aborted (take m ops) \<and>
          waiting (rx_queue rx') = ?w(t := if length ops \<le> m then None else Some (e, drop m ops))"
    by simp_all
qed

text \<open>The operations of the timers that have expired, for \<open>check_timers\<close>.\<close>

lemma check_timers_ok:
  assumes rx: "reactor_ok rx"
  obtains order rx' where "check_timers now now' rx = Some rx'" "reactor_ok rx'"
    "rx_shutdown rx' = rx_shutdown rx"
    "waiting (rx_queue rx') = (\<lambda>t. if t \<in> due now (rx_queue rx) then None else waiting (rx_queue rx) t)"
    "rx_ops rx' = rx_ops rx @ concat (map (\<lambda>t. map (\<lambda>wop. (wop, None)) (ops_of (rx_queue rx) t)) order)"
    "set order = due now (rx_queue rx)" "sorted (map (expiry_of (rx_queue rx)) order)"
proof -
  let ?q = "rx_queue rx"
  obtain ts where q: "queue_ok ts ?q" using rx by (auto simp: reactor_ok_def)
  let ?ready = "\<lambda>order. concat (map (\<lambda>t. map (\<lambda>wop. (wop, None :: error_code option)) (ops_of ?q t)) order)"
  from get_ready_ok [OF q, of now "[]"]
  obtain order ts' q' where r: "get_ready_timers now ?q [] = Some (?ready order, q')" "queue_ok ts' q'"
    "waiting q' = (\<lambda>t. if t \<in> due now ?q then None else waiting ?q t)"
    "set order = due now ?q" "distinct order" "sorted (map (expiry_of ?q) order)"
    by (simp only: append_Nil) blast
  define rx1 where "rx1 = rx\<lparr>rx_queue := q', rx_ops := rx_ops rx @ ?ready order\<rparr>"
  define rx' where "rx' = update_timeout now' rx1"
  have fields: "rx_queue rx' = q'" "rx_shutdown rx' = rx_shutdown rx" "rx_ops rx' = rx_ops rx @ ?ready order"
    "rx_work rx' = rx_work rx" by (simp_all add: rx'_def rx1_def update_timeout_def)
  have run: "check_timers now now' rx = Some rx'" using r(1) by (simp add: check_timers_def rx'_def rx1_def)
  have "alarmed rx'" using update_covers [of ts' rx1 now'] r(2) by (simp add: rx'_def rx1_def)
  have in_dom: "due now ?q \<subseteq> dom (waiting ?q)" by (auto simp: due_def)
  have "length (?ready order) = sum_list (map (ops_at (waiting ?q)) order)"
    using in_dom r(4) by (auto simp: length_concat comp_def ops_at_def intro!: arg_cong [where f = sum_list] split: option.splits)
  also have "\<dots> = (\<Sum>t \<in> dom (waiting ?q) \<inter> due now ?q. ops_at (waiting ?q) t)"
    using in_dom r(4,5) by (simp add: sum_list_distinct_conv_sum_set Int_absorb1)
  finally have "ops_in (waiting ?q) = length (?ready order) + ops_in (waiting q')"
    using ops_in_remove [OF finite_waiting, of ?q "due now ?q"] unfolding r(3) by simp
  then have "reactor_ok rx'"
    using rx r(2,3) \<open>alarmed rx'\<close> unfolding reactor_ok_def by (auto simp: fields)
  then show thesis using run r(3,4,6) fields by (intro that [of rx' order]) simp_all
qed

lemma reactor_move_ok:
  assumes rx: "reactor_ok rx" and ne: "target \<noteq> source" and w: "waiting (rx_queue rx) source = Some x"
    and short: "ops_at (waiting (rx_queue rx)) target \<le> SIZE_MAX"
  shows "reactor_ok (reactor_move_timer target source rx)"
    and "waiting (rx_queue (reactor_move_timer target source rx)) = (waiting (rx_queue rx))(source := None, target \<mapsto> x)"
    and "rx_shutdown (reactor_move_timer target source rx) = rx_shutdown rx"
proof -
  let ?w = "waiting (rx_queue rx)"
  obtain n ops q1 where c: "cancel_timer target SIZE_MAX (rx_queue rx) = (n, ops, q1)" by (metis prod_cases3)
  define rx1 where "rx1 = rx\<lparr>rx_queue := q1, rx_ops := rx_ops rx @ ops\<rparr>"
  have cancel: "reactor_cancel_timer target SIZE_MAX rx = (n, rx1)"
    using c by (simp add: reactor_cancel_timer_def rx1_def)
  note co = reactor_cancel_ok [OF rx cancel]
  have q1_def: "q1 = rx_queue rx1" by (simp add: rx1_def)
  have w1: "waiting q1 = ?w(target := None)"
    unfolding q1_def using co(3) short by (auto simp: ops_at_def fun_upd_idem split: option.splits)
  obtain ts1 where q1: "queue_ok ts1 q1" using co(1) by (auto simp: reactor_ok_def rx1_def)
  have src: "waiting q1 source = Some x" "waiting q1 target = None" using w w1 ne by simp_all
  note mv = move_timer_ok [OF q1 src(2,1)]
  define rx2 where "rx2 = reactor_move_timer target source rx"
  have rx2: "rx2 = rx1\<lparr>rx_queue := move_timer target source q1\<rparr>"
    using c by (simp add: rx2_def reactor_move_timer_def rx1_def)
  have w2: "waiting (rx_queue rx2) = (waiting q1)(source := None, target \<mapsto> x)" using mv(2) by (simp add: rx2)
  have "alarmed rx2"
  proof (rule alarmed_sub [of rx1])
    fix u e1 ops1
    assume u: "waiting (rx_queue rx2) u = Some (e1, ops1)"
    show "\<exists>v e' ops'. waiting (rx_queue rx1) v = Some (e', ops') \<and> e' \<le> e1"
      using u src unfolding w2 q1_def by (cases "u = target") (auto split: if_splits)
  qed (use co(1) in \<open>simp_all add: reactor_ok_def rx2\<close>)
  moreover have "ops_in (waiting (rx_queue rx2)) = ops_in (waiting q1)"
  proof -
    have "finite (dom ((waiting q1)(source := None)))" by (simp add: dom_fun_upd)
    from ops_in_upd [OF this, of target "Some x"] ops_in_upd [OF finite_waiting, of q1 source None]
    show ?thesis unfolding w2 using src ne by (simp add: ops_at_def)
  qed
  moreover have "\<not> rx_shutdown rx" using rx w by (auto simp: reactor_ok_def)
  ultimately show "reactor_ok (reactor_move_timer target source rx)"
    using co(1) mv(1) unfolding rx2_def [symmetric] by (simp add: rx2 rx1_def reactor_ok_def)
  show "waiting (rx_queue (reactor_move_timer target source rx)) = ?w(source := None, target \<mapsto> x)"
    using w2 w1 ne unfolding rx2_def by (simp add: fun_upd_twist)
  show "rx_shutdown (reactor_move_timer target source rx) = rx_shutdown rx"
    unfolding rx2_def [symmetric] by (simp add: rx2 rx1_def)
qed

lemma reactor_shutdown_ok:
  assumes rx: "reactor_ok rx"
  obtains rx' where "reactor_shutdown rx = Some rx'" "reactor_ok rx'" "waiting (rx_queue rx') = Map.empty"
proof -
  obtain ts where q: "queue_ok ts (rx_queue rx)" using rx by (auto simp: reactor_ok_def)
  obtain q' where a: "get_all_timers (rx_queue rx) = Some (concat (map (ops_of (rx_queue rx)) ts), q')"
    "queue_ok [] q'" "waiting q' = Map.empty"
    using get_all_ok [OF q] by blast
  let ?rx = "rx\<lparr>rx_shutdown := True, rx_queue := q'\<rparr>"
  have "reactor_ok ?rx" using a by (auto simp: reactor_ok_def alarmed_def)
  then show thesis using a by (intro that [of ?rx]) (simp_all add: reactor_shutdown_def)
qed

lemma next_operation_ok:
  assumes rx: "reactor_ok rx" and run: "next_operation rx = Some (c, rx')"
  shows "reactor_ok rx'" "rx_queue rx' = rx_queue rx" "rx_ops rx = c # rx_ops rx'" "rx_shutdown rx' = rx_shutdown rx"
proof -
  obtain ops where ops: "rx_ops rx = c # ops" "rx' = rx\<lparr>rx_ops := ops, rx_work := rx_work rx - 1\<rparr>"
    using run by (auto simp: next_operation_def split: list.splits)
  then show "rx_queue rx' = rx_queue rx" "rx_ops rx = c # rx_ops rx'" "rx_shutdown rx' = rx_shutdown rx" by simp_all
  have "alarmed rx'"
    by (rule alarmed_sub [of rx]) (use rx ops in \<open>auto simp: reactor_ok_def\<close>)
  then show "reactor_ok rx'" using rx ops by (auto simp: reactor_ok_def)
qed

section \<open>The invariant of the service\<close>

text \<open>An operation waits in the queue with the expiry its timer has.\<close>

definition service_ok :: "timer_service \<Rightarrow> bool" where
  "service_ok sv \<longleftrightarrow> reactor_ok (sv_reactor sv) \<and>
     (\<forall>t e ops. waiting (rx_queue (sv_reactor sv)) t = Some (e, ops) \<longrightarrow>
        might_have_pending_waits (sv_impl sv t) \<and> e = ti_expiry (sv_impl sv t))"

abbreviation service_waiting :: "timer_service \<Rightarrow> waiting_map" where
  "service_waiting sv \<equiv> waiting (rx_queue (sv_reactor sv))"

lemma service_okD:
  assumes "service_ok sv" "service_waiting sv t = Some (e, ops)"
  shows "might_have_pending_waits (sv_impl sv t)" "e = ti_expiry (sv_impl sv t)"
  using assms by (auto simp: service_ok_def)

lemma new_service_ok: "service_ok new_service"
  using new_queue_ok
  by (auto simp: service_ok_def reactor_ok_def alarmed_def new_service_def)
    (metis (no_types) domIff ext ops_in_empty)

lemma service_construct_ok:
  "service_ok sv \<Longrightarrow> service_waiting sv t = None \<Longrightarrow> service_ok (service_construct t sv)"
  by (auto simp: service_ok_def service_construct_def)

text \<open>A cancelled timer does not wait; its expiry is kept.\<close>

lemma service_cancel_ok:
  assumes sv: "service_ok sv" and short: "ops_at (service_waiting sv) t \<le> SIZE_MAX"
  defines "sv' \<equiv> snd (service_cancel t sv)"
  shows "service_ok sv'" "service_waiting sv' = (service_waiting sv)(t := None)"
    and "ti_expiry (sv_impl sv' u) = ti_expiry (sv_impl sv u)" "rx_shutdown (sv_reactor sv') = rx_shutdown (sv_reactor sv)"
    and "rx_ops (sv_reactor sv') = rx_ops (sv_reactor sv) @
      aborted (case service_waiting sv t of None \<Rightarrow> [] | Some (_, ops) \<Rightarrow> ops)"
proof -
  let ?rx = "sv_reactor sv"
  obtain n rx' where c: "reactor_cancel_timer t SIZE_MAX ?rx = (n, rx')" by (meson surj_pair)
  have rx: "reactor_ok ?rx" using sv by (simp add: service_ok_def)
  note co = reactor_cancel_ok [OF rx c]
  have run: "sv' = (if might_have_pending_waits (sv_impl sv t) then set_pending t False (sv\<lparr>sv_reactor := rx'\<rparr>) else sv)"
    by (simp add: sv'_def service_cancel_def c)
  have idle: "service_waiting sv t = None" if "\<not> might_have_pending_waits (sv_impl sv t)"
    using that sv by (cases "service_waiting sv t") (auto simp: service_ok_def)
  have w: "waiting (rx_queue rx') = (service_waiting sv)(t := None) \<and>
      rx_ops rx' = rx_ops ?rx @ aborted (case service_waiting sv t of None \<Rightarrow> [] | Some (_, ops) \<Rightarrow> ops)"
    using co(3) short by (cases "service_waiting sv t") (auto simp: ops_at_def aborted_def fun_upd_idem)
  show w': "service_waiting sv' = (service_waiting sv)(t := None)"
    "rx_ops (sv_reactor sv') = rx_ops ?rx @ aborted (case service_waiting sv t of None \<Rightarrow> [] | Some (_, ops) \<Rightarrow> ops)"
    using w idle by (auto simp: run set_pending_def fun_upd_idem aborted_def)
  show "ti_expiry (sv_impl sv' u) = ti_expiry (sv_impl sv u)" "rx_shutdown (sv_reactor sv') = rx_shutdown ?rx"
    using co(2) by (auto simp: run set_pending_def)
  show "service_ok sv'"
    using sv co(1) w by (auto simp: run service_ok_def set_pending_def split: if_splits)
qed

lemma async_wait_ok:
  assumes sv: "service_ok sv" and sv'_def: "sv' = async_wait now t wop sv"
  shows "service_ok sv'"
    and "service_waiting sv' = (if rx_shutdown (sv_reactor sv) then Map.empty else (service_waiting sv)(t \<mapsto>
      (ti_expiry (sv_impl sv t), (case service_waiting sv t of None \<Rightarrow> [] | Some (_, ops) \<Rightarrow> ops) @ [wop])))"
    and "ti_expiry (sv_impl sv' u) = ti_expiry (sv_impl sv u)" "rx_shutdown (sv_reactor sv') = rx_shutdown (sv_reactor sv)"
    and "\<not> rx_shutdown (sv_reactor sv) \<Longrightarrow> rx_ops (sv_reactor sv') = rx_ops (sv_reactor sv)"
proof -
  have rx: "reactor_ok (sv_reactor sv)" using sv by (simp add: service_ok_def)
  let ?e = "ti_expiry (sv_impl sv t)"
  have run: "sv' = (set_pending t True sv)\<lparr>sv_reactor := schedule_timer now ?e t wop (sv_reactor sv)\<rparr>"
    by (simp add: sv'_def async_wait_def set_pending_def Let_def)
  note sc = schedule_ok [OF rx, of now ?e t wop]
  show w: "service_waiting sv' = (if rx_shutdown (sv_reactor sv) then Map.empty else (service_waiting sv)(t \<mapsto>
      (?e, (case service_waiting sv t of None \<Rightarrow> [] | Some (_, ops) \<Rightarrow> ops) @ [wop])))"
    using sc(2) service_okD(2) [OF sv, of t] by (auto simp: run split: option.split)
  show "ti_expiry (sv_impl sv' u) = ti_expiry (sv_impl sv u)" by (simp add: run set_pending_def)
  show "rx_shutdown (sv_reactor sv') = rx_shutdown (sv_reactor sv)"
    "\<not> rx_shutdown (sv_reactor sv) \<Longrightarrow> rx_ops (sv_reactor sv') = rx_ops (sv_reactor sv)"
    by (auto simp: run schedule_timer_def update_timeout_def Let_def split: prod.split)
  show "service_ok sv'"
    unfolding service_ok_def w
    using sc(1) sv by (auto simp: run set_pending_def service_ok_def split: if_splits)
qed

lemma service_cancel_one_ok:
  assumes sv: "service_ok sv"
  shows "service_ok (snd (service_cancel_one t sv))"
proof -
  let ?rx = "sv_reactor sv"
  obtain n rx' where c: "reactor_cancel_timer t 1 ?rx = (n, rx')" by (meson surj_pair)
  have rx: "reactor_ok ?rx" using sv by (simp add: service_ok_def)
  note co = reactor_cancel_ok [OF rx c]
  obtain ts where q: "queue_ok ts (rx_queue ?rx)" using rx by (auto simp: reactor_ok_def)
  note q_ops = active_waiting(3) [OF q]
  show ?thesis
  proof (cases "service_waiting sv t")
    case None
    then have "n = 0" "rx' = ?rx" using co(3) by simp_all
    with None sv show ?thesis
      by (auto simp: service_cancel_one_def c [unfolded One_nat_def] service_ok_def set_pending_def Let_def)
  next
    case (Some p)
    then obtain e ops where w: "service_waiting sv t = Some (e, ops)" by (cases p) simp
    then have n: "n \<noteq> 0" and w': "waiting (rx_queue rx') = (service_waiting sv)(t := if length ops \<le> 1 then None else Some (e, drop 1 ops))"
      using co(3) q_ops [OF w] by simp_all
    have "snd (service_cancel_one t sv) = sv\<lparr>sv_reactor := rx'\<rparr>"
      using n service_okD(1) [OF sv w] by (simp add: service_cancel_one_def c [unfolded One_nat_def] Let_def)
    then show ?thesis
      using co(1) w w' sv by (auto simp: service_ok_def split: if_splits)
  qed
qed

lemma expires_at_ok:
  assumes sv: "service_ok sv" and short: "ops_at (service_waiting sv) t \<le> SIZE_MAX"
    and sv'_def: "sv' = snd (expires_at t e sv)"
  shows "service_ok sv'" "service_waiting sv' = (service_waiting sv)(t := None)"
    and "ti_expiry (sv_impl sv' u) = (if u = t then e else ti_expiry (sv_impl sv u))"
    and "rx_shutdown (sv_reactor sv') = rx_shutdown (sv_reactor sv)"
proof -
  note c = service_cancel_ok [OF sv short]
  have run: "sv' = (snd (service_cancel t sv))\<lparr>sv_impl := (sv_impl (snd (service_cancel t sv)))
      (t := (sv_impl (snd (service_cancel t sv)) t)\<lparr>ti_expiry := e\<rparr>)\<rparr>"
    by (simp add: sv'_def expires_at_def split: prod.split)
  show "service_waiting sv' = (service_waiting sv)(t := None)"
    "ti_expiry (sv_impl sv' u) = (if u = t then e else ti_expiry (sv_impl sv u))"
    "rx_shutdown (sv_reactor sv') = rx_shutdown (sv_reactor sv)"
    using c(2,3,4) by (simp_all add: run)
  show "service_ok sv'" using c(1,2) by (auto simp: run service_ok_def)
qed

lemma move_impl_ok:
  assumes sv: "service_ok sv" and "target \<noteq> source" "service_waiting sv source \<noteq> None"
    and "ops_at (service_waiting sv) target \<le> SIZE_MAX"
  shows "service_ok (move_impl target source sv)"
proof -
  obtain x where x: "service_waiting sv source = Some x" using assms(3) by auto
  have rx: "reactor_ok (sv_reactor sv)" using sv by (simp add: service_ok_def)
  note mv = reactor_move_ok [OF rx assms(2) x assms(4)]
  show ?thesis
    using sv mv(1,2) x assms(2) by (cases x) (auto simp: service_ok_def move_impl_def Let_def split: if_splits)
qed

section \<open>Every state of the service\<close>

text \<open>
  The operations of the service and the turns of the reactor, in any order. A timer is constructed in
  memory that no timer waits in, and has no more operations than memory has room for.
\<close>

inductive reachable_service :: "timer_service \<Rightarrow> bool" where
  started: "reachable_service new_service"
| constructed: "reachable_service sv \<Longrightarrow> service_waiting sv t = None \<Longrightarrow> reachable_service (service_construct t sv)"
| expiry_set: "reachable_service sv \<Longrightarrow> ops_at (service_waiting sv) t \<le> SIZE_MAX \<Longrightarrow>
    reachable_service (snd (expires_at t e sv))"
| waited: "reachable_service sv \<Longrightarrow> reachable_service (async_wait now t wop sv)"
| wait_cancelled: "reachable_service sv \<Longrightarrow> ops_at (service_waiting sv) t \<le> SIZE_MAX \<Longrightarrow>
    reachable_service (snd (service_cancel t sv))"
| one_cancelled: "reachable_service sv \<Longrightarrow> reachable_service (snd (service_cancel_one t sv))"
| impl_moved: "reachable_service sv \<Longrightarrow> target \<noteq> source \<Longrightarrow> service_waiting sv source \<noteq> None \<Longrightarrow>
    ops_at (service_waiting sv) target \<le> SIZE_MAX \<Longrightarrow> reachable_service (move_impl target source sv)"
| checked: "reachable_service sv \<Longrightarrow> check_timers now now' (sv_reactor sv) = Some rx \<Longrightarrow>
    reachable_service (sv\<lparr>sv_reactor := rx\<rparr>)"
| invoked: "reachable_service sv \<Longrightarrow> next_operation (sv_reactor sv) = Some (c, rx) \<Longrightarrow>
    reachable_service (sv\<lparr>sv_reactor := rx\<rparr>)"
| shut_down: "reachable_service sv \<Longrightarrow> reactor_shutdown (sv_reactor sv) = Some rx \<Longrightarrow>
    reachable_service (sv\<lparr>sv_reactor := rx\<rparr>)"

lemma service_ok_reactor:
  "service_ok sv \<Longrightarrow> reactor_ok rx \<Longrightarrow> (\<And>t x. waiting (rx_queue rx) t = Some x \<Longrightarrow> service_waiting sv t = Some x) \<Longrightarrow>
     service_ok (sv\<lparr>sv_reactor := rx\<rparr>)"
  by (simp add: service_ok_def)

lemma reachable_service_ok: "reachable_service sv \<Longrightarrow> service_ok sv"
proof (induction rule: reachable_service.induct)
  case started
  then show ?case by (rule new_service_ok)
next
  case (constructed sv t)
  then show ?case by (intro service_construct_ok)
next
  case (expiry_set sv t e)
  then show ?case using expires_at_ok(1) [OF _ _ refl] by blast
next
  case (waited sv now t wop)
  then show ?case using async_wait_ok(1) [OF _ refl] by blast
next
  case (wait_cancelled sv t)
  then show ?case by (intro service_cancel_ok(1))
next
  case (one_cancelled sv t)
  then show ?case by (intro service_cancel_one_ok)
next
  case (impl_moved sv target source)
  then show ?case by (intro move_impl_ok)
next
  case (checked sv now now' rx)
  then have "reactor_ok (sv_reactor sv)" by (simp add: service_ok_def)
  then have c: "reactor_ok rx \<and> (\<forall>t x. waiting (rx_queue rx) t = Some x \<longrightarrow> service_waiting sv t = Some x)"
    by (rule check_timers_ok [of _ now now']) (use checked.hyps(2) in \<open>simp split: if_splits\<close>)
  show ?case by (rule service_ok_reactor [OF checked.IH]) (use c in blast)+
next
  case (invoked sv c rx)
  then have "reactor_ok (sv_reactor sv)" by (simp add: service_ok_def)
  from next_operation_ok [OF this invoked.hyps(2)] show ?case
    using invoked.IH by (intro service_ok_reactor) simp_all
next
  case (shut_down sv rx)
  then have "reactor_ok (sv_reactor sv)" by (simp add: service_ok_def)
  then have c: "reactor_ok rx \<and> waiting (rx_queue rx) = Map.empty"
    by (rule reactor_shutdown_ok) (use shut_down.hyps(2) in simp)
  show ?case by (rule service_ok_reactor [OF shut_down.IH]) (use c in simp)+
qed

text \<open>What the reactor has done about the timers at the time \<open>now\<close>.\<close>

definition handed_over :: "int \<Rightarrow> reactor \<Rightarrow> reactor \<Rightarrow> bool" where
  "handed_over now rx rx' \<longleftrightarrow> reactor_ok rx' \<and> rx_shutdown rx' = rx_shutdown rx \<and>
     (\<exists>more. rx_ops rx' = rx_ops rx @ more) \<and>
     (\<forall>t. waiting (rx_queue rx') t = None \<or> waiting (rx_queue rx') t = waiting (rx_queue rx) t) \<and>
     (\<forall>t e ops. waiting (rx_queue rx) t = Some (e, ops) \<longrightarrow>
        (if e \<le> now then waiting (rx_queue rx') t = None \<and> (\<forall>wop \<in> set ops. (wop, None) \<in> set (rx_ops rx'))
         else waiting (rx_queue rx') t = Some (e, ops)))"

lemma handed_overD:
  assumes "handed_over now rx rx'"
  shows "reactor_ok rx'" "rx_shutdown rx' = rx_shutdown rx" "set (rx_ops rx) \<subseteq> set (rx_ops rx')"
    and "\<exists>more. rx_ops rx' = rx_ops rx @ more"
    and "waiting (rx_queue rx') t = Some y \<Longrightarrow> waiting (rx_queue rx) t = Some y"
    and "waiting (rx_queue rx) t = Some (e, ops) \<Longrightarrow> wop \<in> set ops \<Longrightarrow>
      waiting (rx_queue rx') t = Some (e, ops) \<or> (wop, None) \<in> set (rx_ops rx')"
    and "waiting (rx_queue rx) t = Some (e, ops) \<Longrightarrow> e \<le> now \<Longrightarrow> wop \<in> set ops \<Longrightarrow> (wop, None) \<in> set (rx_ops rx')"
proof -
  have h: "\<exists>more. rx_ops rx' = rx_ops rx @ more" "waiting (rx_queue rx') t = None \<or> waiting (rx_queue rx') t = waiting (rx_queue rx) t"
    "waiting (rx_queue rx) t = Some (e, ops) \<Longrightarrow>
       (if e \<le> now then waiting (rx_queue rx') t = None \<and> (\<forall>wop \<in> set ops. (wop, None) \<in> set (rx_ops rx'))
         else waiting (rx_queue rx') t = Some (e, ops))"
    using assms unfolding handed_over_def by blast+
  show "\<exists>more. rx_ops rx' = rx_ops rx @ more" "set (rx_ops rx) \<subseteq> set (rx_ops rx')" using h(1) by auto
  show "waiting (rx_queue rx') t = Some y \<Longrightarrow> waiting (rx_queue rx) t = Some y" using h(2) by auto
  show "waiting (rx_queue rx) t = Some (e, ops) \<Longrightarrow> wop \<in> set ops \<Longrightarrow>
      waiting (rx_queue rx') t = Some (e, ops) \<or> (wop, None) \<in> set (rx_ops rx')"
    "waiting (rx_queue rx) t = Some (e, ops) \<Longrightarrow> e \<le> now \<Longrightarrow> wop \<in> set ops \<Longrightarrow> (wop, None) \<in> set (rx_ops rx')"
    using h(3) by (simp_all split: if_splits)
  show "reactor_ok rx'" "rx_shutdown rx' = rx_shutdown rx" using assms by (simp_all add: handed_over_def)
qed

lemma timers_handed_over:
  assumes rx: "reactor_ok rx"
  shows "\<exists>rx'. check_timers now now' rx = Some rx' \<and> handed_over now rx rx'"
proof -
  let ?q = "rx_queue rx"
  obtain order rx' where ch: "check_timers now now' rx = Some rx'" "reactor_ok rx'" "rx_shutdown rx' = rx_shutdown rx"
    "waiting (rx_queue rx') = (\<lambda>t. if t \<in> due now ?q then None else waiting ?q t)"
    "rx_ops rx' = rx_ops rx @ concat (map (\<lambda>t. map (\<lambda>wop. (wop, None)) (ops_of ?q t)) order)"
    "set order = due now ?q" "sorted (map (expiry_of ?q) order)"
    by (rule check_timers_ok [OF rx, of now now'])
  have due: "t \<in> due now ?q \<longleftrightarrow> e \<le> now" if "waiting ?q t = Some (e, ops)" for t e ops
    using that by (simp add: due_def)
  have "(wop, None) \<in> set (rx_ops rx')" if w: "waiting ?q t = Some (e, ops)" "e \<le> now" "wop \<in> set ops" for t e ops wop
  proof -
    let ?F = "\<lambda>t. map (\<lambda>wop. (wop, None)) (ops_of ?q t)"
    have "t \<in> set order" using due [OF w(1)] w(2) ch(6) by simp
    then have "?F t \<in> set (map ?F order)" unfolding set_map by (rule imageI)
    moreover have "(wop, None) \<in> set (?F t)" using w(1,3) by simp
    ultimately have "(wop, None) \<in> set (concat (map ?F order))" unfolding set_concat by (rule UN_I)
    then show ?thesis unfolding ch(5) set_append by (rule UnI2)
  qed
  then have "if e \<le> now then waiting (rx_queue rx') t = None \<and> (\<forall>wop \<in> set ops. (wop, None) \<in> set (rx_ops rx'))
      else waiting (rx_queue rx') t = Some (e, ops)" if "waiting ?q t = Some (e, ops)" for t e ops
    using that ch(4) due [OF that] by simp
  moreover have "waiting (rx_queue rx') t = None \<or> waiting (rx_queue rx') t = waiting ?q t" for t
    using ch(4) by simp
  ultimately have "handed_over now rx rx'" unfolding handed_over_def using ch(2,3,5) by blast
  with ch(1) show ?thesis by blast
qed

text \<open>C19: in every state the timers can reach, whatever waits does so with the expiry of its timer, and
  the \<open>timerfd\<close> is set to end the wait of the reactor at most a microsecond after it; when the reactor
  then looks at the timers, the operations of those that have expired are handed to the scheduler
  without an error, and none of them waits any more. The outstanding work counts the operations
  that wait and those that are handed over, so that \<open>run\<close> ends when there is none left.\<close>

theorem alarm_covers_timers:
  assumes "reachable_service sv"
  shows "(\<forall>t e ops. service_waiting sv t = Some (e, ops) \<longrightarrow>
      e = ti_expiry (sv_impl sv t) \<and> (\<exists>a. alarm (sv_reactor sv) = Some a \<and> a \<le> max 1 (e + 1000))) \<and>
    (\<exists>rx. check_timers now now' (sv_reactor sv) = Some rx \<and>
      (\<forall>t e ops. service_waiting sv t = Some (e, ops) \<longrightarrow>
        (if e \<le> now then waiting (rx_queue rx) t = None \<and> (\<forall>wop \<in> set ops. (wop, None) \<in> set (rx_ops rx))
         else waiting (rx_queue rx) t = Some (e, ops)))) \<and>
    (\<not> rx_shutdown (sv_reactor sv) \<longrightarrow>
      rx_work (sv_reactor sv) = int (ops_in (service_waiting sv)) + int (length (rx_ops (sv_reactor sv))))"
proof -
  have ok: "service_ok sv" "reactor_ok (sv_reactor sv)"
    using reachable_service_ok [OF assms] by (simp_all add: service_ok_def)
  then have al: "alarmed (sv_reactor sv)" by (simp add: reactor_ok_def)
  from timers_handed_over [OF ok(2), of now now'] obtain rx where
    "check_timers now now' (sv_reactor sv) = Some rx" "handed_over now (sv_reactor sv) rx" by blast
  then have "\<exists>rx. check_timers now now' (sv_reactor sv) = Some rx \<and>
      (\<forall>t e ops. service_waiting sv t = Some (e, ops) \<longrightarrow>
        (if e \<le> now then waiting (rx_queue rx) t = None \<and> (\<forall>wop \<in> set ops. (wop, None) \<in> set (rx_ops rx))
         else waiting (rx_queue rx) t = Some (e, ops)))"
    unfolding handed_over_def by blast
  moreover have "\<forall>t e ops. service_waiting sv t = Some (e, ops) \<longrightarrow>
      e = ti_expiry (sv_impl sv t) \<and> (\<exists>a. alarm (sv_reactor sv) = Some a \<and> a \<le> max 1 (e + 1000))"
    using service_okD(2) [OF ok(1)] alarmedD [OF al] by simp
  moreover have "\<not> rx_shutdown (sv_reactor sv) \<longrightarrow>
      rx_work (sv_reactor sv) = int (ops_in (service_waiting sv)) + int (length (rx_ops (sv_reactor sv)))"
    using ok(2) by (simp add: reactor_ok_def)
  ultimately show ?thesis by (intro conjI)
qed

text \<open>A timer at 7000 that an operation waits for.\<close>

definition example_service :: timer_service where
  "example_service = async_wait 0 5 (example_op 1) (snd (expires_at 5 7000 new_service))"

lemma example_service_reachable: "reachable_service example_service"
  unfolding example_service_def
  by (intro waited expiry_set started) (simp add: new_service_def new_queue_ok ops_at_def)

lemma example_service_waiting: "service_waiting example_service 5 = Some (7000, [example_op 1])"
proof -
  have none: "service_waiting new_service t = None" for t using new_queue_ok by (simp add: new_service_def)
  have short: "ops_at (service_waiting new_service) 5 \<le> SIZE_MAX" using none by (simp add: ops_at_def)
  note e = expires_at_ok [OF new_service_ok short refl, of 7000]
  have "\<not> rx_shutdown (sv_reactor new_service)" by (simp add: new_service_def)
  with async_wait_ok(2) [OF e(1) refl, of 0 5 "example_op 1"] e(2,3,4) none
  show ?thesis by (simp add: example_service_def)
qed

theorem alarm_covers_timers_witness:
  "\<exists>a. alarm (sv_reactor example_service) = Some a \<and> a \<le> 8000"
proof -
  note covers = alarm_covers_timers [OF example_service_reachable, of 0 0, THEN conjunct1, rule_format]
  from covers [OF example_service_waiting] show ?thesis by simp
qed

end
