(* ===== verification/Tcp_Events.thy ===== *)
theory Tcp_Events
  imports Tcp_Transfer
begin

text \<open>
  The exchange of \<open>src/src/misc/tcp_transfer.hpp\<close> as a labelled transition system: one rule for
  each thing that can happen to the operation that is pending, and the states that an
  exchange reaches from its preparation. The event loop \<open>io_step\<close> takes exactly these steps.
  The invariant says that a pending operation is guarded: its timer is armed, unless it is
  already cancelled. So an exchange never waits for ever, and when nothing is left to wait for,
  nothing is pending and no timer is armed.
\<close>

section \<open>Events\<close>

datatype event =
    Write_done
  | Write_some bytes
  | Write_nothing
  | Write_failed error_code
  | Write_timed_out
  | Write_aborted
  | Read_some bytes
  | Read_nothing
  | Read_full
  | Read_closed error_code
  | Read_timed_out
  | Read_aborted
  | Timer_expired

inductive event_step :: "tcp_transfer \<Rightarrow> event \<Rightarrow> tcp_transfer \<Rightarrow> bool" where
  write_aborted: "op_pending t = Writing remaining \<Longrightarrow> op_cancelled t \<Longrightarrow>
    event_step t Write_aborted (write_some_done (Some Operation_aborted) 0 remaining t)"
| write_done: "op_pending t = Writing remaining \<Longrightarrow> \<not> op_cancelled t \<Longrightarrow>
    writes (sock t) = Written # ws \<Longrightarrow>
    event_step t Write_done
      (write_some_done None (length remaining) remaining (t\<lparr>sock := after_send [remaining] ws (sock t)\<rparr>))"
| wrote_some: "op_pending t = Writing remaining \<Longrightarrow> \<not> op_cancelled t \<Longrightarrow>
    writes (sock t) = Wrote n # ws \<Longrightarrow> sent = write_some n remaining \<Longrightarrow> sent \<noteq> [] \<or> remaining = [] \<Longrightarrow>
    event_step t (Write_some sent)
      (write_some_done None (length sent) remaining (t\<lparr>sock := after_send [sent] ws (sock t)\<rparr>))"
| wrote_nothing: "op_pending t = Writing remaining \<Longrightarrow> \<not> op_cancelled t \<Longrightarrow>
    writes (sock t) = Wrote n # ws \<Longrightarrow> write_some n remaining = [] \<Longrightarrow> remaining \<noteq> [] \<Longrightarrow>
    event_step t Write_nothing (t\<lparr>sock := after_send [] ws (sock t)\<rparr>)"
| write_failed: "op_pending t = Writing remaining \<Longrightarrow> \<not> op_cancelled t \<Longrightarrow>
    writes (sock t) = Write_fails ec # ws \<Longrightarrow>
    event_step t (Write_failed ec)
      (write_some_done (Some ec) 0 remaining (t\<lparr>sock := after_send [] ws (sock t)\<rparr>))"
| write_timed_out: "op_pending t = Writing remaining \<Longrightarrow> \<not> op_cancelled t \<Longrightarrow>
    writes (sock t) = [] \<or> writes (sock t) = Write_stalls # ws \<Longrightarrow> write_timer t \<Longrightarrow>
    event_step t Write_timed_out
      (on_write_timeout None (t\<lparr>write_timer := False,
         sock := (sock t)\<lparr>writes := drop 1 (writes (sock t))\<rparr>\<rparr>))"
| read_aborted: "op_pending t = Reading consumed \<Longrightarrow> op_cancelled t \<Longrightarrow>
    event_step t Read_aborted (read_some_done (Some Operation_aborted) [] consumed t)"
| read_full: "op_pending t = Reading consumed \<Longrightarrow> \<not> op_cancelled t \<Longrightarrow> expected t \<le> consumed \<Longrightarrow>
    event_step t Read_full (read_some_done None [] consumed t)"
| read_nothing: "op_pending t = Reading consumed \<Longrightarrow> \<not> op_cancelled t \<Longrightarrow> consumed < expected t \<Longrightarrow>
    incoming (sock t) = Chunk [] # as \<Longrightarrow>
    event_step t Read_nothing (t\<lparr>sock := (sock t)\<lparr>incoming := as\<rparr>\<rparr>)"
| read_some: "op_pending t = Reading consumed \<Longrightarrow> \<not> op_cancelled t \<Longrightarrow> consumed < expected t \<Longrightarrow>
    incoming (sock t) = Chunk bs # as \<Longrightarrow> bs \<noteq> [] \<Longrightarrow> n = expected t - consumed \<Longrightarrow>
    event_step t (Read_some (take n bs))
      (read_some_done None (take n bs) consumed
        (t\<lparr>sock := (sock t)\<lparr>incoming := (if length bs \<le> n then as else Chunk (drop n bs) # as)\<rparr>\<rparr>))"
| read_closed: "op_pending t = Reading consumed \<Longrightarrow> \<not> op_cancelled t \<Longrightarrow> consumed < expected t \<Longrightarrow>
    incoming (sock t) = Closed ec # as \<Longrightarrow>
    event_step t (Read_closed ec) (read_some_done (Some ec) [] consumed t)"
| read_timed_out: "op_pending t = Reading consumed \<Longrightarrow> \<not> op_cancelled t \<Longrightarrow> consumed < expected t \<Longrightarrow>
    incoming (sock t) = [] \<or> incoming (sock t) = Deadline # as \<Longrightarrow> read_timer t \<Longrightarrow>
    event_step t Read_timed_out
      (on_read_timeout None (t\<lparr>read_timer := False,
         sock := (sock t)\<lparr>incoming := drop 1 (incoming (sock t))\<rparr>\<rparr>))"
| write_timer_expired: "op_pending t = Idle \<Longrightarrow> write_timer t \<Longrightarrow>
    event_step t Timer_expired (on_write_timeout None (t\<lparr>write_timer := False\<rparr>))"
| read_timer_expired: "op_pending t = Idle \<Longrightarrow> \<not> write_timer t \<Longrightarrow> read_timer t \<Longrightarrow>
    event_step t Timer_expired (on_read_timeout None (t\<lparr>read_timer := False\<rparr>))"

inductive_cases event_stepE: "event_step t e t'"

text \<open>The event loop takes these steps, and no others.\<close>

lemma event_step_io: "event_step t e t' \<Longrightarrow> io_step t = Some t'"
  by (erule event_stepE) (auto simp: io_step_def Let_def after_send_def)

lemma io_step_event:
  assumes "io_step t = Some t'"
  shows "\<exists>e. event_step t e t'"
proof (cases "op_pending t")
  case Idle
  with assms show ?thesis
    by (auto simp: io_step_def intro: event_step.intros split: if_splits)
next
  case (Writing remaining)
  show ?thesis
  proof (cases "op_cancelled t \<or> writes (sock t) = []")
    case True
    with Writing assms show ?thesis
      using write_timed_out [OF Writing, where ws = "[]"]
      by (auto simp: io_step_def Let_def intro: event_step.intros split: if_splits)
  next
    case False
    then obtain w ws where w: "writes (sock t) = w # ws" by (cases "writes (sock t)") auto
    show ?thesis
    proof (cases w)
      case (Wrote n)
      with w False Writing assms show ?thesis
        using wrote_some [OF Writing, of n ws, OF _ _ refl] wrote_nothing [OF Writing, of n ws]
        by (cases "write_some n remaining = []"; cases "remaining = []")
          (auto simp: io_step_def Let_def after_send_def)
    next
      case Written
      with w False Writing assms show ?thesis
        using write_done [OF Writing, of ws] by (auto simp: io_step_def Let_def after_send_def)
    next
      case (Write_fails ec)
      with w False Writing assms show ?thesis
        using write_failed [OF Writing, of ec ws] by (auto simp: io_step_def Let_def after_send_def)
    next
      case Write_stalls
      with w False Writing assms show ?thesis
        using write_timed_out [OF Writing, where ws = ws] by (auto simp: io_step_def Let_def split: if_splits)
    qed
  qed
next
  case (Reading consumed)
  show ?thesis
  proof (cases "op_cancelled t \<or> expected t \<le> consumed \<or> incoming (sock t) = []")
    case True
    with Reading assms show ?thesis
      using read_timed_out [OF Reading, where as = "[]"]
      by (auto simp: io_step_def Let_def not_le intro: event_step.intros split: if_splits)
  next
    case False
    then obtain a as where a: "incoming (sock t) = a # as" by (cases "incoming (sock t)") auto
    show ?thesis
    proof (cases a)
      case (Chunk bs)
      with a False Reading assms show ?thesis
        using read_some [OF Reading _ _ a [unfolded Chunk] _ refl] read_nothing [OF Reading]
        by (cases "bs = []") (auto simp: io_step_def Let_def)
    next
      case (Closed ec)
      with a False Reading assms show ?thesis
        using read_closed [OF Reading, of ec as] by (auto simp: io_step_def Let_def)
    next
      case Deadline
      with a False Reading assms show ?thesis
        using read_timed_out [OF Reading, where as = as] by (auto simp: io_step_def Let_def split: if_splits)
    qed
  qed
qed

lemma event_step_iff: "(\<exists>e. event_step t e t') \<longleftrightarrow> io_step t = Some t'"
  using event_step_io io_step_event by blast

section \<open>Reachable states\<close>

inductive reachable :: "tcp_transfer \<Rightarrow> bool" where
  start_transfer: "is_open s \<Longrightarrow> reachable (prepare_transfer request n (new_transfer s))"
| start_read: "is_open s \<Longrightarrow> reachable (prepare_read n (new_transfer s))"
| step: "reachable t \<Longrightarrow> event_step t e t' \<Longrightarrow> reachable t'"

text \<open>A pending operation is guarded by its timer, or about to be aborted.\<close>

definition guarded :: "tcp_transfer \<Rightarrow> bool" where
  "guarded t \<longleftrightarrow> length (tbuffer t) = expected t \<and>
     (case op_pending t of
        Idle \<Rightarrow> \<not> write_timer t \<and> \<not> read_timer t \<and> \<not> op_cancelled t
      | Writing _ \<Rightarrow> \<not> read_timer t \<and> (write_timer t \<or> op_cancelled t)
      | Reading consumed \<Rightarrow>
          \<not> write_timer t \<and> (read_timer t \<or> op_cancelled t) \<and> consumed \<le> expected t)"

lemma guarded_read_some_done:
  assumes "op_pending t = Reading consumed" "guarded t" "consumed + length bs \<le> expected t"
  shows "guarded (read_some_done ec bs consumed t)"
  using assms by (auto simp: guarded_def handler_defs Let_def)

lemma guarded_sock [simp]: "guarded (t\<lparr>sock := s\<rparr>) = guarded t"
  by (simp add: guarded_def split: pending.split)

lemma guarded_write_some_done:
  assumes "op_pending t = Writing remaining" "guarded t" "ec \<noteq> None \<or> \<not> op_cancelled t"
  shows "guarded (write_some_done ec n remaining t)"
  using assms by (auto simp: guarded_def handler_defs Let_def)

lemma guarded_start:
  "guarded (prepare_transfer request n (new_transfer s))" "guarded (prepare_read n (new_transfer s))"
  by (simp_all add: guarded_def prepare_transfer_def prepare_read_def new_transfer_def handler_defs Let_def)

lemma guarded_step:
  assumes "event_step t e t'" "guarded t"
  shows "guarded t'"
  using assms
proof cases
  case (write_timed_out remaining ws)
  with assms(2) show ?thesis by (auto simp: guarded_def handler_defs)
next
  case (read_timed_out consumed as)
  with assms(2) show ?thesis by (auto simp: guarded_def handler_defs)
next
  case (read_aborted consumed)
  with assms(2) show ?thesis by (auto simp: guarded_def [of t] intro!: guarded_read_some_done)
qed (use assms(2) in \<open>auto simp: guarded_def [of t] intro!: guarded_write_some_done guarded_read_some_done\<close>)

lemma reachable_guarded: "reachable t \<Longrightarrow> guarded t"
  by (induction rule: reachable.induct) (auto simp: guarded_start intro: guarded_step)

text \<open>Something happens to every pending operation, so an exchange stops only when it is over.\<close>

lemma guarded_progress:
  assumes "guarded t" "op_pending t \<noteq> Idle"
  shows "\<exists>e t'. event_step t e t'"
proof -
  have "\<exists>t'. io_step t = Some t'"
    using assms
    by (auto simp: guarded_def io_step_def Let_def split: pending.splits list.splits arrival.splits write_outcome.splits)
  then show ?thesis using io_step_event by blast
qed

lemma guarded_idle_stops: "guarded t \<Longrightarrow> op_pending t = Idle \<Longrightarrow> io_step t = None"
  by (simp add: guarded_def io_step_def)

lemma io_run_stops: "io_step (io_run t) = None"
proof (induction t rule: io_run.induct)
  case (1 t)
  then show ?case by (cases "io_step t") (simp_all add: io_run.simps [of t])
qed

lemma reachable_io_run: "reachable t \<Longrightarrow> reachable (io_run t)"
proof (induction t rule: io_run.induct)
  case (1 t)
  then show ?case
    using reachable.step [OF 1(2)] io_step_event [of t]
    by (cases "io_step t") (auto simp: io_run.simps [of t])
qed

section \<open>Properties\<close>

text \<open>C11: in every state an exchange reaches the pending operation is guarded by its timer or about to
  be aborted, so some event always happens to it; the buffer has the expected length, and when
  nothing is pending no timer is armed.\<close>

theorem exchange_guarded:
  assumes "reachable t"
  shows "guarded t \<and> (op_pending t \<noteq> Idle \<longleftrightarrow> (\<exists>e t'. event_step t e t'))"
proof
  show "guarded t" using assms by (rule reachable_guarded)
  then show "op_pending t \<noteq> Idle \<longleftrightarrow> (\<exists>e t'. event_step t e t')"
    using guarded_progress [of t] guarded_idle_stops [of t] event_step_io [of t] by fastforce
qed

definition example_socket :: tcp_socket where
  "example_socket = \<lparr>is_open = True, incoming = [Chunk [1, 2]], writes = [Written], outgoing = []\<rparr>"

theorem exchange_guarded_witness:
  "guarded (prepare_transfer [9] 2 (new_transfer example_socket)) \<and>
   (\<exists>e t'. event_step (prepare_transfer [9] 2 (new_transfer example_socket)) e t')"
proof -
  have "reachable (prepare_transfer [9] 2 (new_transfer example_socket))"
    by (rule reachable.start_transfer) (simp add: example_socket_def)
  from exchange_guarded [OF this] show ?thesis by (simp add: prepare_transfer_def)
qed

text \<open>C17: the event loop ends whatever the network does, with nothing pending, no timer armed and no
  cancellation left over.\<close>

theorem exchange_ends:
  assumes "reachable t"
  shows "op_pending (io_run t) = Idle \<and> \<not> write_timer (io_run t) \<and> \<not> read_timer (io_run t) \<and>
    \<not> op_cancelled (io_run t) \<and> length (tbuffer (io_run t)) = expected (io_run t)"
proof -
  have ok: "guarded (io_run t)" by (rule reachable_guarded [OF reachable_io_run [OF assms]])
  have "op_pending (io_run t) = Idle"
    using guarded_progress [OF ok] event_step_io io_run_stops [of t] by fastforce
  with ok show ?thesis by (simp add: guarded_def)
qed

theorem exchange_ends_witness:
  "op_pending (io_run (prepare_read 4 (new_transfer example_socket))) = Idle"
  using exchange_ends [OF reachable.start_read [of example_socket 4]] by (simp add: example_socket_def)

text \<open>C16: reading from a peer, as the machine of handlers and timers does it, is receiving from the
  script: the bytes asked for if they come in time, in whatever segments, else the error.\<close>

theorem read_refines_receive:
  "do_read n s =
     (if is_open s then (fst (receive n (incoming s)), s\<lparr>incoming := snd (receive n (incoming s))\<rparr>)
      else (Inl Not_connected, s))"
  by (simp add: do_read_receive do_read_closed)

text \<open>C7: a request and its answer: the request goes out in whatever parts the socket takes, in order and
  nothing twice; the answer is read only when all of it went out; a write that fails or stalls
  ends the exchange with its error, when no more than a front of the request went out, and
  consumes nothing that was received.\<close>

theorem transfer_refines_receive:
  "do_transfer request n s =
     (if \<not> is_open s then (Inl Not_connected, s)
      else case send request (writes s) of
        (Some ec, out, ws) \<Rightarrow> (Inl ec, after_send out ws s)
      | (None, out, ws) \<Rightarrow>
          (fst (receive n (incoming s)),
           (after_send out ws s)\<lparr>incoming := snd (receive n (incoming s))\<rparr>)) \<and>
   (case send request (writes s) of
      (Some ec, out, ws) \<Rightarrow> \<exists>rest. request = concat out @ rest
    | (None, out, ws) \<Rightarrow> concat out = request)"
proof -
  obtain r out ws where sent: "send request (writes s) = (r, out, ws)"
    by (cases "send request (writes s)") auto
  then show ?thesis
    using send_prefix [of request "writes s"] do_transfer_send [OF _ sent, of n]
      do_transfer_closed [of s request n]
    by (cases r; cases "is_open s") auto
qed

end
