(* ===== verification/Timed_Transfer.thy ===== *)
theory Timed_Transfer
  imports Timer_Service Tcp_Events "HOL-Library.Sublist"
begin

text \<open>
  \<open>src/src/misc/tcp_transfer.hpp\<close> once more, with a clock: the two \<open>steady_timer\<close>s of a \<open>TcpTransfer\<close> are
  timers of the service of \<open>Timer_Service\<close>, where \<open>Tcp_Transfer\<close> only knows whether they are armed. The
  handlers are those of \<open>Tcp_Transfer\<close> with the calls of the timers in their places; that the
  flags there are what can be seen of the timers here is shown first. The flags of the record
  \<open>tm_transfer\<close> are not used.
\<close>

record timed =
  tm_transfer :: tcp_transfer
  tm_service :: timer_service

definition READ_TIMER :: nat where
  "READ_TIMER = 0"

definition WRITE_TIMER :: nat where
  "WRITE_TIMER = 1"

definition read_timeout_op :: wait_op where
  "read_timeout_op = \<lparr>wo_id = READ_TIMER, wo_cancellation_key = 0\<rparr>"

definition write_timeout_op :: wait_op where
  "write_timeout_op = \<lparr>wo_id = WRITE_TIMER, wo_cancellation_key = 0\<rparr>"

definition on_transfer :: "(tcp_transfer \<Rightarrow> tcp_transfer) \<Rightarrow> timed \<Rightarrow> timed" where
  "on_transfer f x = x\<lparr>tm_transfer := f (tm_transfer x)\<rparr>"

definition cancel_wait :: "nat \<Rightarrow> timed \<Rightarrow> timed" where
  "cancel_wait timer x = x\<lparr>tm_service := snd (service_cancel timer (tm_service x))\<rparr>"

definition read_wait :: "int \<Rightarrow> timed \<Rightarrow> timed" where
  "read_wait now x = x\<lparr>tm_service := async_wait now READ_TIMER read_timeout_op (tm_service x)\<rparr>"

definition write_wait :: "int \<Rightarrow> timed \<Rightarrow> timed" where
  "write_wait now x = x\<lparr>tm_service := async_wait now WRITE_TIMER write_timeout_op (tm_service x)\<rparr>"

section \<open>The handlers\<close>

definition timed_read_partly :: "int \<Rightarrow> error_code option \<Rightarrow> nat \<Rightarrow> timed \<Rightarrow> timed \<times> nat" where
  "timed_read_partly now ec bytes_read x =
     (let x = on_transfer (\<lambda>t. t\<lparr>read_error := ec\<rparr>) (cancel_wait READ_TIMER x) in
      if ec \<noteq> None then (on_transfer socket_cancel x, 0)
      else (read_wait now x, expected (tm_transfer x) - bytes_read))"

definition timed_read_complete :: "error_code option \<Rightarrow> nat \<Rightarrow> timed \<Rightarrow> timed" where
  "timed_read_complete ec bytes_read x =
     (let x = on_transfer (\<lambda>t. t\<lparr>read_error := ec\<rparr>) (cancel_wait READ_TIMER x) in
      if ec \<noteq> None then on_transfer socket_cancel x else x)"

definition timed_async_read :: "int \<Rightarrow> timed \<Rightarrow> timed" where
  "timed_async_read now x = fst (timed_read_partly now None 0 (on_transfer (\<lambda>t. t\<lparr>op_pending := Reading 0\<rparr>) x))"

definition timed_read_some_done :: "int \<Rightarrow> error_code option \<Rightarrow> bytes \<Rightarrow> nat \<Rightarrow> timed \<Rightarrow> timed" where
  "timed_read_some_done now ec bs consumed x =
     (let x = on_transfer (\<lambda>t. t\<lparr>tbuffer := take consumed (tbuffer t) @ bs @ drop (consumed + length bs) (tbuffer t),
                op_pending := Idle, op_cancelled := False\<rparr>) x;
          consumed = consumed + length bs
      in if (ec = None \<and> bs = []) \<or> consumed = expected (tm_transfer x) then timed_read_complete ec consumed x
         else
           (case timed_read_partly now ec consumed x of
              (x, max_size) \<Rightarrow>
                if max_size = 0 then timed_read_complete ec consumed x
                else on_transfer (\<lambda>t. t\<lparr>op_pending := Reading consumed\<rparr>) x))"

definition timed_write_complete :: "int \<Rightarrow> error_code option \<Rightarrow> timed \<Rightarrow> timed" where
  "timed_write_complete now ec x =
     (let x = on_transfer (\<lambda>t. t\<lparr>write_error := ec\<rparr>) (cancel_wait WRITE_TIMER x) in
      if ec \<noteq> None then on_transfer socket_cancel x
      else timed_async_read now (read_wait now x))"

definition timed_write_some_done :: "int \<Rightarrow> error_code option \<Rightarrow> nat \<Rightarrow> bytes \<Rightarrow> timed \<Rightarrow> timed" where
  "timed_write_some_done now ec bytes_transferred remaining x =
     (let x = on_transfer (\<lambda>t. t\<lparr>op_pending := Idle, op_cancelled := False\<rparr>) x;
          remaining = drop bytes_transferred remaining
      in if (ec = None \<and> bytes_transferred = 0) \<or> remaining = [] then timed_write_complete now ec x
         else if transfer_all ec = 0 then timed_write_complete now ec x
         else on_transfer (\<lambda>t. t\<lparr>op_pending := Writing remaining\<rparr>) x)"

text \<open>The handler of an operation the scheduler hands out.\<close>

definition timed_timeout :: "wait_op \<Rightarrow> error_code option \<Rightarrow> timed \<Rightarrow> timed" where
  "timed_timeout wop ec x =
     (if wo_id wop = WRITE_TIMER then on_transfer (on_write_timeout ec) x else on_transfer (on_read_timeout ec) x)"

definition timed_prepare_transfer :: "int \<Rightarrow> bytes \<Rightarrow> nat \<Rightarrow> timed \<Rightarrow> timed" where
  "timed_prepare_transfer now request expected_length x =
     write_wait now (on_transfer (\<lambda>t. t\<lparr>expected := expected_length, tbuffer := resize0 expected_length (tbuffer t),
       write_error := Some Operation_aborted, read_error := Some Operation_aborted,
       op_pending := Writing request\<rparr>) x)"

definition timed_prepare_read :: "int \<Rightarrow> nat \<Rightarrow> timed \<Rightarrow> timed" where
  "timed_prepare_read now expected_length x =
     timed_async_read now (read_wait now (on_transfer (\<lambda>t. t\<lparr>expected := expected_length,
       tbuffer := resize0 expected_length (tbuffer t), read_error := Some Operation_aborted\<rparr>) x))"

text \<open>The constructor: the timers get their expiry, the second one at another reading of the clock.\<close>

definition SECOND :: int where
  "SECOND = 1000000000"

definition new_timed :: "int \<Rightarrow> int \<Rightarrow> int \<Rightarrow> tcp_socket \<Rightarrow> timer_service \<Rightarrow> timed" where
  "new_timed now now' read_timeout s sv =
     \<lparr>tm_transfer = new_transfer s,
      tm_service = new_waitable_timer now' (2 * SECOND) WRITE_TIMER
        (new_waitable_timer now (read_timeout * SECOND) READ_TIMER sv)\<rparr>"

section \<open>An armed timer\<close>

text \<open>
  The interface the handlers use of a timer: it is armed by a wait and not armed when cancelled, and
  neither moves its expiry. \<open>ok\<close> is the invariant of whatever holds the timer.
\<close>

locale deadline_timer =
  fixes ok :: "'s \<Rightarrow> bool" and armed :: "'s \<Rightarrow> bool" and expiry :: "'s \<Rightarrow> int"
    and cancel :: "'s \<Rightarrow> 's" and wait :: "'s \<Rightarrow> 's"
  assumes cancel_ok: "ok s \<Longrightarrow> ok (cancel s)" and wait_ok: "ok s \<Longrightarrow> \<not> armed s \<Longrightarrow> ok (wait s)"
    and cancelled: "ok s \<Longrightarrow> \<not> armed (cancel s)" and armed: "ok s \<Longrightarrow> \<not> armed s \<Longrightarrow> armed (wait s)"
    and cancel_expiry: "ok s \<Longrightarrow> expiry (cancel s) = expiry s"
    and wait_expiry: "ok s \<Longrightarrow> \<not> armed s \<Longrightarrow> expiry (wait s) = expiry s"
begin

lemma restart_ok: "ok s \<Longrightarrow> ok (wait (cancel s))"
  by (simp add: cancel_ok wait_ok cancelled)

lemma restart_armed: "ok s \<Longrightarrow> armed (wait (cancel s))"
  by (simp add: cancel_ok armed cancelled)

lemma restart_expiry: "ok s \<Longrightarrow> expiry (wait (cancel s)) = expiry s"
  by (simp add: cancel_ok wait_expiry cancelled cancel_expiry)

text \<open>However often it is started again.\<close>

lemma restarts_expiry: "ok s \<Longrightarrow> expiry (((\<lambda>s. wait (cancel s)) ^^ n) s) = expiry s \<and> ok (((\<lambda>s. wait (cancel s)) ^^ n) s)"
  by (induction n) (simp_all add: restart_ok restart_expiry)

end

text \<open>A timer of the service, which at most one wait of the handlers is on.\<close>

definition held :: "nat \<Rightarrow> wait_op \<Rightarrow> timer_service \<Rightarrow> bool" where
  "held t wop sv \<longleftrightarrow> service_ok sv \<and> \<not> rx_shutdown (sv_reactor sv) \<and>
     (\<forall>e ops. service_waiting sv t = Some (e, ops) \<longrightarrow> ops = [wop])"

lemma held_short: "held t wop sv \<Longrightarrow> ops_at (service_waiting sv) t \<le> SIZE_MAX"
  by (auto simp: held_def ops_at_def SIZE_MAX_def split: option.split)

lemma held_cancel:
  assumes "held t wop sv"
  shows "held t wop (snd (service_cancel t sv))" "service_waiting (snd (service_cancel t sv)) = (service_waiting sv)(t := None)"
    and "ti_expiry (sv_impl (snd (service_cancel t sv)) u) = ti_expiry (sv_impl sv u)"
    and "rx_ops (sv_reactor (snd (service_cancel t sv))) = rx_ops (sv_reactor sv) @
      (if service_waiting sv t = None then [] else [(wop, Some Operation_aborted)])"
    and "u \<noteq> t \<Longrightarrow> held u wop' sv \<Longrightarrow> held u wop' (snd (service_cancel t sv))"
proof -
  have sv: "service_ok sv" using assms by (simp add: held_def)
  note c = service_cancel_ok [OF sv held_short [OF assms]]
  show "service_waiting (snd (service_cancel t sv)) = (service_waiting sv)(t := None)"
    "ti_expiry (sv_impl (snd (service_cancel t sv)) u) = ti_expiry (sv_impl sv u)"
    using c by simp_all
  show "rx_ops (sv_reactor (snd (service_cancel t sv))) = rx_ops (sv_reactor sv) @
      (if service_waiting sv t = None then [] else [(wop, Some Operation_aborted)])"
    using c(5) assms by (auto simp: held_def aborted_def split: option.splits)
  show "held t wop (snd (service_cancel t sv))" "u \<noteq> t \<Longrightarrow> held u wop' sv \<Longrightarrow> held u wop' (snd (service_cancel t sv))"
    using assms c unfolding held_def by simp_all
qed

lemma held_wait:
  assumes "held t wop sv" "service_waiting sv t = None"
  shows "held t wop (async_wait now t wop sv)"
    and "service_waiting (async_wait now t wop sv) = (service_waiting sv)(t \<mapsto> (ti_expiry (sv_impl sv t), [wop]))"
    and "ti_expiry (sv_impl (async_wait now t wop sv) u) = ti_expiry (sv_impl sv u)"
    and "rx_ops (sv_reactor (async_wait now t wop sv)) = rx_ops (sv_reactor sv)"
    and "u \<noteq> t \<Longrightarrow> held u wop' sv \<Longrightarrow> held u wop' (async_wait now t wop sv)"
proof -
  have sv: "service_ok sv" "\<not> rx_shutdown (sv_reactor sv)" using assms by (simp_all add: held_def)
  note a = async_wait_ok [OF sv(1) refl, of now t wop]
  show w: "service_waiting (async_wait now t wop sv) = (service_waiting sv)(t \<mapsto> (ti_expiry (sv_impl sv t), [wop]))"
    using a(2) sv(2) assms(2) by simp
  show "ti_expiry (sv_impl (async_wait now t wop sv) u) = ti_expiry (sv_impl sv u)"
    "rx_ops (sv_reactor (async_wait now t wop sv)) = rx_ops (sv_reactor sv)"
    using a(3,5) sv(2) by simp_all
  show "held t wop (async_wait now t wop sv)" "u \<noteq> t \<Longrightarrow> held u wop' sv \<Longrightarrow> held u wop' (async_wait now t wop sv)"
    using a(1,4) sv assms unfolding held_def w by simp_all
qed

interpretation service_timer: deadline_timer "held t wop" "\<lambda>sv. service_waiting sv t \<noteq> None" "\<lambda>sv. ti_expiry (sv_impl sv t)"
  "\<lambda>sv. snd (service_cancel t sv)" "async_wait now t wop" for t wop now
  by unfold_locales (simp_all add: held_cancel held_wait del: not_None_eq not_Some_eq)

text \<open>The flags of \<open>Tcp_Transfer\<close> are another instance; there is no expiry to move.\<close>

interpretation read_flag: deadline_timer "\<lambda>_. True" read_timer "\<lambda>_. 0" "\<lambda>t. t\<lparr>read_timer := False\<rparr>" "\<lambda>t. t\<lparr>read_timer := True\<rparr>"
  by unfold_locales simp_all

section \<open>The flags are what can be seen of the timers\<close>

definition armed_at :: "nat \<Rightarrow> timed \<Rightarrow> bool" where
  "armed_at timer x \<longleftrightarrow> service_waiting (tm_service x) timer \<noteq> None"

abbreviation deadline_of :: "nat \<Rightarrow> timed \<Rightarrow> int" where
  "deadline_of timer x \<equiv> ti_expiry (sv_impl (tm_service x) timer)"

abbreviation posted :: "timed \<Rightarrow> completed" where
  "posted x \<equiv> rx_ops (sv_reactor (tm_service x))"

definition seen :: "timed \<Rightarrow> tcp_transfer" where
  "seen x = (tm_transfer x)\<lparr>write_timer := armed_at WRITE_TIMER x, read_timer := armed_at READ_TIMER x\<rparr>"

definition timers_ok :: "timed \<Rightarrow> bool" where
  "timers_ok x \<longleftrightarrow> held READ_TIMER read_timeout_op (tm_service x) \<and> held WRITE_TIMER write_timeout_op (tm_service x)"

lemma two_timers [simp]: "READ_TIMER \<noteq> WRITE_TIMER" "WRITE_TIMER \<noteq> READ_TIMER"
  by (simp_all add: READ_TIMER_def WRITE_TIMER_def)

lemma on_transfer_sel [simp]:
  "tm_transfer (on_transfer f x) = f (tm_transfer x)" "tm_service (on_transfer f x) = tm_service x"
  "timers_ok (on_transfer f x) = timers_ok x" "armed_at u (on_transfer f x) = armed_at u x"
  by (simp_all add: on_transfer_def timers_ok_def armed_at_def)

lemma wait_sel [simp]:
  "tm_transfer (cancel_wait t x) = tm_transfer x" "tm_transfer (read_wait now x) = tm_transfer x"
  "tm_transfer (write_wait now x) = tm_transfer x"
  by (simp_all add: cancel_wait_def read_wait_def write_wait_def)

lemma cancel_wait_ok [simp]:
  assumes "timers_ok x" "t = READ_TIMER \<or> t = WRITE_TIMER"
  shows "timers_ok (cancel_wait t x)" "armed_at u (cancel_wait t x) \<longleftrightarrow> armed_at u x \<and> u \<noteq> t"
    and "deadline_of u (cancel_wait t x) = deadline_of u x" "prefix (posted x) (posted (cancel_wait t x))"
proof -
  have "\<exists>wop. held t wop (tm_service x)" using assms by (auto simp: timers_ok_def)
  then obtain wop where "held t wop (tm_service x)" by blast
  note h = held_cancel [OF this]
  show "deadline_of u (cancel_wait t x) = deadline_of u x" "prefix (posted x) (posted (cancel_wait t x))"
    "armed_at u (cancel_wait t x) \<longleftrightarrow> armed_at u x \<and> u \<noteq> t"
    using h(2,3,4) by (simp_all add: cancel_wait_def armed_at_def)
  show "timers_ok (cancel_wait t x)"
    using assms held_cancel(1,5) by (auto simp: timers_ok_def cancel_wait_def)
qed

lemma read_wait_ok [simp]:
  assumes "timers_ok x" "\<not> armed_at READ_TIMER x"
  shows "timers_ok (read_wait now x)" "armed_at u (read_wait now x) \<longleftrightarrow> armed_at u x \<or> u = READ_TIMER"
    and "deadline_of u (read_wait now x) = deadline_of u x" "posted (read_wait now x) = posted x"
proof -
  have h: "held READ_TIMER read_timeout_op (tm_service x)" "service_waiting (tm_service x) READ_TIMER = None"
    "held WRITE_TIMER write_timeout_op (tm_service x)"
    using assms unfolding timers_ok_def armed_at_def by blast+
  note w = held_wait [OF h(1,2), where now = now]
  show "timers_ok (read_wait now x)" using w(1,5) h(3) by (simp add: timers_ok_def read_wait_def)
  show "armed_at u (read_wait now x) \<longleftrightarrow> armed_at u x \<or> u = READ_TIMER"
    "deadline_of u (read_wait now x) = deadline_of u x" "posted (read_wait now x) = posted x"
    using w(2,3,4) by (simp_all add: read_wait_def armed_at_def)
qed

lemma write_wait_ok [simp]:
  assumes "timers_ok x" "\<not> armed_at WRITE_TIMER x"
  shows "timers_ok (write_wait now x)" "armed_at u (write_wait now x) \<longleftrightarrow> armed_at u x \<or> u = WRITE_TIMER"
    and "deadline_of u (write_wait now x) = deadline_of u x" "posted (write_wait now x) = posted x"
proof -
  have h: "held WRITE_TIMER write_timeout_op (tm_service x)" "service_waiting (tm_service x) WRITE_TIMER = None"
    "held READ_TIMER read_timeout_op (tm_service x)"
    using assms unfolding timers_ok_def armed_at_def by blast+
  note w = held_wait [OF h(1,2), where now = now]
  show "timers_ok (write_wait now x)" using w(1,5) h(3) by (simp add: timers_ok_def write_wait_def)
  show "armed_at u (write_wait now x) \<longleftrightarrow> armed_at u x \<or> u = WRITE_TIMER"
    "deadline_of u (write_wait now x) = deadline_of u x" "posted (write_wait now x) = posted x"
    using w(2,3,4) by (simp_all add: write_wait_def armed_at_def)
qed

text \<open>Every handler keeps the invariant and both deadlines, and is the handler of \<open>Tcp_Transfer\<close> on what is seen.\<close>

definition follows :: "timed \<Rightarrow> tcp_transfer \<Rightarrow> timed \<Rightarrow> bool" where
  "follows x t y \<longleftrightarrow> timers_ok y \<and> seen y = t \<and> (\<forall>u. deadline_of u y = deadline_of u x) \<and> prefix (posted x) (posted y)"

lemma followsI:
  "timers_ok y \<Longrightarrow> seen y = t \<Longrightarrow> (\<And>u. deadline_of u y = deadline_of u x) \<Longrightarrow> prefix (posted x) (posted y) \<Longrightarrow> follows x t y"
  by (simp add: follows_def)

lemma follows_trans: "follows x t y \<Longrightarrow> follows y t' z \<Longrightarrow> follows x t' z"
  by (auto simp: follows_def)

lemma follows_on_transfer: "timers_ok x \<Longrightarrow> seen (on_transfer f x) = t \<Longrightarrow> follows x t (on_transfer f x)"
  by (simp add: follows_def)

lemma seen_expected [simp]: "expected (seen x) = expected (tm_transfer x)"
  by (simp add: seen_def)

lemma seen_cancel: "timers_ok x \<Longrightarrow> seen (on_transfer socket_cancel x) = socket_cancel (seen x)"
  by (simp add: seen_def socket_cancel_def)

lemma follows_read_partly:
  assumes "timers_ok x"
  shows "follows x (fst (on_read_partly ec n (seen x))) (fst (timed_read_partly now ec n x))"
    and "snd (timed_read_partly now ec n x) = snd (on_read_partly ec n (seen x))"
proof -
  show "follows x (fst (on_read_partly ec n (seen x))) (fst (timed_read_partly now ec n x))"
    using assms
    by (intro followsI)
      (auto simp: timed_read_partly_def on_read_partly_def seen_def socket_cancel_def Let_def split: if_splits)
  show "snd (timed_read_partly now ec n x) = snd (on_read_partly ec n (seen x))"
    by (simp add: timed_read_partly_def on_read_partly_def seen_def Let_def)
qed

lemma follows_read_complete:
  assumes "timers_ok x"
  shows "follows x (on_read_complete ec n (seen x)) (timed_read_complete ec n x)"
  using assms
  by (intro followsI) (auto simp: timed_read_complete_def on_read_complete_def seen_def socket_cancel_def Let_def split: if_splits)

lemma follows_async_read:
  assumes "timers_ok x"
  shows "follows x (async_read (seen x)) (timed_async_read now x)"
proof -
  let ?x = "on_transfer (\<lambda>t. t\<lparr>op_pending := Reading 0\<rparr>) x"
  have "seen ?x = (seen x)\<lparr>op_pending := Reading 0\<rparr>" by (simp add: seen_def)
  moreover have "follows x (seen ?x) ?x" using assms by (intro follows_on_transfer) simp_all
  ultimately show ?thesis
    using follows_read_partly(1) [of ?x None 0 now] assms follows_trans
    unfolding timed_async_read_def async_read_def by fastforce
qed

lemma follows_write_complete:
  assumes "timers_ok x" "\<not> armed_at READ_TIMER x"
  shows "follows x (on_write_complete ec (seen x)) (timed_write_complete now ec x)"
proof (cases "ec = None")
  case False
  then show ?thesis
    using assms
    by (intro followsI) (auto simp: timed_write_complete_def on_write_complete_def seen_def socket_cancel_def Let_def split: if_splits)
next
  case True
  let ?y = "read_wait now (on_transfer (\<lambda>t. t\<lparr>write_error := ec\<rparr>) (cancel_wait WRITE_TIMER x))"
  have y: "follows x ((seen x)\<lparr>write_timer := False, write_error := ec, read_timer := True\<rparr>) ?y"
    using assms by (intro followsI) (auto simp: seen_def)
  have "timed_write_complete now ec x = timed_async_read now ?y"
    using True by (simp add: timed_write_complete_def Let_def)
  moreover have "on_write_complete ec (seen x) = async_read ((seen x)\<lparr>write_timer := False, write_error := ec, read_timer := True\<rparr>)"
    using True by (simp add: on_write_complete_def Let_def)
  moreover have "timers_ok ?y" "seen ?y = (seen x)\<lparr>write_timer := False, write_error := ec, read_timer := True\<rparr>"
    using y by (simp_all only: follows_def)
  ultimately show ?thesis
    using follows_trans [OF y follows_async_read [of ?y now]] by simp
qed

lemma follows_read_some_done:
  assumes "timers_ok x"
  shows "follows x (read_some_done ec bs consumed (seen x)) (timed_read_some_done now ec bs consumed x)"
proof -
  let ?f = "\<lambda>t. t\<lparr>tbuffer := take consumed (tbuffer t) @ bs @ drop (consumed + length bs) (tbuffer t),
                op_pending := Idle, op_cancelled := False\<rparr>"
  let ?x = "on_transfer ?f x" and ?n = "consumed + length bs"
  have sx: "seen ?x = ?f (seen x)" by (simp add: seen_def)
  have ok: "timers_ok ?x" using assms by simp
  have fx: "follows x (seen ?x) ?x" using assms by (intro follows_on_transfer) simp_all
  note complete = follows_trans [OF fx follows_read_complete [OF ok]]
  show ?thesis
  proof (cases "(ec = None \<and> bs = []) \<or> ?n = expected (tm_transfer x)")
    case True
    then have "timed_read_some_done now ec bs consumed x = timed_read_complete ec ?n ?x"
      "read_some_done ec bs consumed (seen x) = on_read_complete ec ?n (seen ?x)"
      unfolding sx timed_read_some_done_def read_some_done_def Let_def by auto
    then show ?thesis using complete by simp
  next
    case False
    obtain y m where y: "timed_read_partly now ec ?n ?x = (y, m)" by fastforce
    obtain t m' where t: "on_read_partly ec ?n (seen ?x) = (t, m')" by fastforce
    have p: "follows ?x t y" "m' = m"
      using follows_read_partly [OF ok, where ec = ec and n = ?n and now = now] y t by simp_all
    then have yok: "timers_ok y" "seen y = t" by (simp_all add: follows_def)
    have "timed_read_some_done now ec bs consumed x =
        (if m = 0 then timed_read_complete ec ?n y else on_transfer (\<lambda>t. t\<lparr>op_pending := Reading ?n\<rparr>) y)"
      using False y unfolding timed_read_some_done_def Let_def by auto
    moreover have "read_some_done ec bs consumed (seen x) =
        (if m = 0 then on_read_complete ec ?n t else t\<lparr>op_pending := Reading ?n\<rparr>)"
      using False t p(2) unfolding sx read_some_done_def Let_def by auto
    moreover have "follows y (on_read_complete ec ?n t) (timed_read_complete ec ?n y)"
      using follows_read_complete [OF yok(1), of ec ?n] yok(2) by simp
    moreover have "follows y (t\<lparr>op_pending := Reading ?n\<rparr>) (on_transfer (\<lambda>t. t\<lparr>op_pending := Reading ?n\<rparr>) y)"
      using yok by (intro follows_on_transfer) (auto simp: seen_def)
    ultimately show ?thesis
      using follows_trans [OF fx p(1)] follows_trans by (auto split: if_splits)
  qed
qed

lemma follows_write_some_done:
  assumes "timers_ok x" "\<not> armed_at READ_TIMER x"
  shows "follows x (write_some_done ec n remaining (seen x)) (timed_write_some_done now ec n remaining x)"
proof -
  let ?f = "\<lambda>t. t\<lparr>op_pending := Idle, op_cancelled := False\<rparr>"
  let ?x = "on_transfer ?f x"
  have sx: "seen ?x = ?f (seen x)" by (simp add: seen_def)
  have fx: "follows x (seen ?x) ?x" using assms by (intro follows_on_transfer) simp_all
  have "follows x (on_write_complete ec (seen ?x)) (timed_write_complete now ec ?x)"
    using follows_trans [OF fx follows_write_complete [of ?x ec now]] assms by simp
  moreover have "follows ?x ((seen ?x)\<lparr>op_pending := Writing r\<rparr>) (on_transfer (\<lambda>t. t\<lparr>op_pending := Writing r\<rparr>) ?x)" for r
    using assms by (intro follows_on_transfer) (auto simp: seen_def)
  ultimately show ?thesis
    using follows_trans [OF fx] unfolding timed_write_some_done_def write_some_done_def Let_def sx by auto
qed

section \<open>Runs with a clock\<close>

text \<open>
  What can happen: the pending operation makes progress or ends, whatever the network does (a cancelled
  one ends with \<open>operation_aborted\<close>), the reactor looks at the timers, and the scheduler hands out an
  operation. Every step may read the clock.
\<close>

definition with_reactor :: "reactor \<Rightarrow> timed \<Rightarrow> timed" where
  "with_reactor rx x = x\<lparr>tm_service := (tm_service x)\<lparr>sv_reactor := rx\<rparr>\<rparr>"

abbreviation reactor_of :: "timed \<Rightarrow> reactor" where
  "reactor_of x \<equiv> sv_reactor (tm_service x)"

inductive timed_step :: "timed \<Rightarrow> timed \<Rightarrow> bool" where
  sent: "op_pending (tm_transfer x) = Writing r \<Longrightarrow> (op_cancelled (tm_transfer x) \<Longrightarrow> ec = Some Operation_aborted) \<Longrightarrow>
    timed_step x (timed_write_some_done now ec n r x)"
| received: "op_pending (tm_transfer x) = Reading c \<Longrightarrow> c + length bs \<le> expected (tm_transfer x) \<Longrightarrow>
    (op_cancelled (tm_transfer x) \<Longrightarrow> ec = Some Operation_aborted) \<Longrightarrow>
    timed_step x (timed_read_some_done now ec bs c x)"
| fired: "check_timers now now' (reactor_of x) = Some rx \<Longrightarrow> timed_step x (with_reactor rx x)"
| handled: "next_operation (reactor_of x) = Some ((wop, ec), rx) \<Longrightarrow> timed_step x (timed_timeout wop ec (with_reactor rx x))"

lemma with_reactor_sel [simp]:
  "tm_transfer (with_reactor rx x) = tm_transfer x" "reactor_of (with_reactor rx x) = rx"
  "sv_impl (tm_service (with_reactor rx x)) = sv_impl (tm_service x)"
  by (simp_all add: with_reactor_def)

text \<open>The pending operation is cancelled, or a timer is armed for it, or its timeout is handed out.\<close>

definition timed_guard :: "timed \<Rightarrow> bool" where
  "timed_guard x \<longleftrightarrow> timers_ok x \<and>
     (case op_pending (tm_transfer x) of
        Idle \<Rightarrow> True
      | Writing _ \<Rightarrow> \<not> armed_at READ_TIMER x \<and>
          (op_cancelled (tm_transfer x) \<or> armed_at WRITE_TIMER x \<or> (write_timeout_op, None) \<in> set (posted x))
      | Reading _ \<Rightarrow>
          op_cancelled (tm_transfer x) \<or> armed_at READ_TIMER x \<or> (read_timeout_op, None) \<in> set (posted x))"

lemma timed_guard_follows:
  assumes "timed_guard x" "follows x t y"
    and "\<And>r. op_pending t = Writing r \<Longrightarrow> \<not> read_timer t \<and> (\<exists>r0. op_pending (tm_transfer x) = Writing r0) \<and>
      \<not> op_cancelled (tm_transfer x) \<and> write_timer t = armed_at WRITE_TIMER x"
    and "\<And>c. op_pending t = Reading c \<Longrightarrow> read_timer t"
  shows "timed_guard y"
proof -
  have y: "timers_ok y" "t = seen y" "prefix (posted x) (posted y)" using assms(2) by (auto simp: follows_def)
  have same: "op_pending (tm_transfer y) = op_pending t" "read_timer t = armed_at READ_TIMER y"
    "write_timer t = armed_at WRITE_TIMER y"
    unfolding y(2) by (simp_all add: seen_def)
  have "set (posted x) \<subseteq> set (posted y)" using y(3) set_mono_prefix by blast
  then show ?thesis
    using assms(1,3,4) y(1) same by (auto simp: timed_guard_def split: pending.splits)
qed

lemma write_some_done_pending:
  "op_pending (write_some_done ec n r t) = Writing r' \<Longrightarrow> ec = None \<and> read_timer (write_some_done ec n r t) = read_timer t \<and>
     write_timer (write_some_done ec n r t) = write_timer t"
  "op_pending (write_some_done ec n r t) = Reading c \<Longrightarrow> read_timer (write_some_done ec n r t)"
  by (auto simp: write_some_done_def on_write_complete_def async_read_def on_read_partly_def socket_cancel_def Let_def
      split: if_splits)

lemma read_some_done_pending:
  "op_pending (read_some_done ec bs c t) \<noteq> Writing r'"
  "op_pending (read_some_done ec bs c t) = Reading c' \<Longrightarrow> read_timer (read_some_done ec bs c t)"
  by (auto simp: read_some_done_def on_read_complete_def on_read_partly_def socket_cancel_def Let_def split: if_splits)

lemma held_reactor:
  assumes "held t wop sv" "service_ok (sv\<lparr>sv_reactor := rx\<rparr>)" "rx_shutdown rx = rx_shutdown (sv_reactor sv)"
    and "\<And>x. waiting (rx_queue rx) t = Some x \<Longrightarrow> service_waiting sv t = Some x"
  shows "held t wop (sv\<lparr>sv_reactor := rx\<rparr>)"
  using assms by (auto simp: held_def)

lemma timers_ok_reactor:
  assumes "timers_ok x" "reactor_ok rx" "rx_shutdown rx = rx_shutdown (reactor_of x)"
    and "\<And>t y. waiting (rx_queue rx) t = Some y \<Longrightarrow> service_waiting (tm_service x) t = Some y"
  shows "timers_ok (with_reactor rx x)"
proof -
  have "service_ok (tm_service x)" using assms(1) by (simp add: timers_ok_def held_def)
  then have "service_ok ((tm_service x)\<lparr>sv_reactor := rx\<rparr>)" by (rule service_ok_reactor [OF _ assms(2,4)])
  then show ?thesis
    using assms(1,3,4) held_reactor unfolding timers_ok_def with_reactor_def by simp
qed

lemma guard_fired:
  assumes g: "timed_guard x" and h: "handed_over now (reactor_of x) rx"
  shows "timed_guard (with_reactor rx x)"
proof -
  let ?y = "with_reactor rx x"
  have ok: "timers_ok x" using g by (simp add: timed_guard_def)
  note d = handed_overD [OF h]
  have moved: "armed_at t ?y \<or> (wop, None) \<in> set (posted ?y)" if arm: "armed_at t x" "held t wop (tm_service x)" for t wop
  proof -
    obtain e where "service_waiting (tm_service x) t = Some (e, [wop])"
      using arm by (auto simp: armed_at_def held_def)
    from d(6) [OF this, of wop] show ?thesis by (auto simp: armed_at_def)
  qed
  have unarmed: "\<not> armed_at t x \<Longrightarrow> \<not> armed_at t ?y" for t
    using d(5) [of t] unfolding armed_at_def by (cases "waiting (rx_queue rx) t") auto
  have "timers_ok ?y" by (rule timers_ok_reactor [OF ok d(1,2)]) (rule d(5))
  moreover have "held READ_TIMER read_timeout_op (tm_service x)" "held WRITE_TIMER write_timeout_op (tm_service x)"
    using ok by (simp_all add: timers_ok_def)
  moreover have "p \<in> set (posted x) \<Longrightarrow> p \<in> set (posted ?y)" for p using d(3) by auto
  ultimately show ?thesis
    using g moved [of READ_TIMER read_timeout_op] moved [of WRITE_TIMER write_timeout_op] unarmed [of READ_TIMER]
    unfolding timed_guard_def by (cases "op_pending (tm_transfer x)") auto
qed

lemma timeout_cancels:
  assumes "ec = None" "op_pending (tm_transfer x) \<noteq> Idle"
  shows "op_cancelled (tm_transfer (timed_timeout wop ec x))"
  using assms by (simp add: timed_timeout_def on_write_timeout_def on_read_timeout_def socket_cancel_def)

lemma timeout_keeps:
  "tm_service (timed_timeout wop ec x) = tm_service x"
  "op_pending (tm_transfer (timed_timeout wop ec x)) = op_pending (tm_transfer x)"
  "op_cancelled (tm_transfer x) \<Longrightarrow> op_cancelled (tm_transfer (timed_timeout wop ec x))"
  by (simp_all add: timed_timeout_def on_write_timeout_def on_read_timeout_def socket_cancel_def)

lemma guard_handled:
  assumes g: "timed_guard x" and run: "next_operation (reactor_of x) = Some ((wop, ec), rx)"
  shows "timed_guard (timed_timeout wop ec (with_reactor rx x))"
proof -
  have ok: "timers_ok x" using g by (simp add: timed_guard_def)
  then have rxo: "reactor_ok (reactor_of x)" by (simp add: timers_ok_def held_def service_ok_def)
  note n = next_operation_ok [OF rxo run]
  let ?x = "with_reactor rx x" and ?y = "timed_timeout wop ec (with_reactor rx x)"
  have "timers_ok ?x" by (rule timers_ok_reactor [OF ok n(1,4)]) (simp add: n(2))
  then have yok: "timers_ok ?y" by (simp add: timers_ok_def timeout_keeps)
  have same: "armed_at t ?y = armed_at t x" for t using n(2) by (simp add: armed_at_def timeout_keeps)
  have ops: "posted x = (wop, ec) # posted ?y" using n(3) by (simp add: timeout_keeps)
  have pend: "op_pending (tm_transfer ?y) = op_pending (tm_transfer x)" by (simp add: timeout_keeps)
  have cancelled: "op_cancelled (tm_transfer ?y)"
    if "op_cancelled (tm_transfer x) \<or> (ec = None \<and> op_pending (tm_transfer x) \<noteq> Idle)"
    using that timeout_keeps(3) [of ?x] timeout_cancels [of ec ?x] by auto
  show ?thesis
    using g yok same pend cancelled ops unfolding timed_guard_def
    by (cases "op_pending (tm_transfer x)") (simp_all, blast+)
qed

lemma timed_step_guard:
  assumes "timed_step x y" "timed_guard x"
  shows "timed_guard y \<and> (\<forall>u. deadline_of u y = deadline_of u x)"
  using assms(1)
proof cases
  case (sent r ec now n)
  have ok: "timers_ok x" "\<not> armed_at READ_TIMER x" using assms(2) sent(2) by (simp_all add: timed_guard_def)
  let ?t = "write_some_done ec n r (seen x)"
  have f: "follows x ?t y" using follows_write_some_done [OF ok] sent(1) by simp
  have "timed_guard y"
    by (rule timed_guard_follows [OF assms(2) f])
      (use write_some_done_pending [of ec n r "seen x"] ok(2) sent(2,3) in \<open>auto simp: seen_def\<close>)
  then show ?thesis using f by (simp add: follows_def)
next
  case (received c bs ec now)
  have ok: "timers_ok x" using assms(2) by (simp add: timed_guard_def)
  let ?t = "read_some_done ec bs c (seen x)"
  have f: "follows x ?t y" using follows_read_some_done [OF ok] received(1) by simp
  have "timed_guard y"
    by (rule timed_guard_follows [OF assms(2) f]) (use read_some_done_pending [of ec bs c "seen x"] in auto)
  then show ?thesis using f by (simp add: follows_def)
next
  case (fired now now' rx)
  have "reactor_ok (reactor_of x)" using assms(2) by (simp add: timed_guard_def timers_ok_def held_def service_ok_def)
  from timers_handed_over [OF this, of now now'] fired(2) have "handed_over now (reactor_of x) rx" by auto
  from guard_fired [OF assms(2) this] show ?thesis using fired(1) by simp
next
  case (handled wop ec rx)
  from guard_handled [OF assms(2) handled(2)] show ?thesis using handled(1) by (simp add: timeout_keeps)
qed

section \<open>The deadlines\<close>

text \<open>A service whose two timers are fresh.\<close>

definition fresh_timers :: "timer_service \<Rightarrow> bool" where
  "fresh_timers sv \<longleftrightarrow> service_ok sv \<and> \<not> rx_shutdown (sv_reactor sv) \<and>
     service_waiting sv READ_TIMER = None \<and> service_waiting sv WRITE_TIMER = None"

lemma new_waitable_timer_ok:
  assumes "service_ok sv" "service_waiting sv t = None"
  shows "service_ok (new_waitable_timer now d t sv)"
    and "service_waiting (new_waitable_timer now d t sv) = service_waiting sv"
    and "ti_expiry (sv_impl (new_waitable_timer now d t sv) u) = (if u = t then time_add now d else ti_expiry (sv_impl sv u))"
    and "sv_reactor (new_waitable_timer now d t sv) = sv_reactor sv"
proof -
  let ?sv = "service_construct t sv"
  have run: "new_waitable_timer now d t sv =
      ?sv\<lparr>sv_impl := (sv_impl ?sv)(t := (sv_impl ?sv t)\<lparr>ti_expiry := time_add now d\<rparr>)\<rparr>"
    by (simp add: new_waitable_timer_def expires_after_def expires_at_def service_cancel_def service_construct_def)
  show "service_ok (new_waitable_timer now d t sv)"
    using assms unfolding run service_ok_def by (auto simp: service_construct_def)
  show "service_waiting (new_waitable_timer now d t sv) = service_waiting sv"
    "ti_expiry (sv_impl (new_waitable_timer now d t sv) u) = (if u = t then time_add now d else ti_expiry (sv_impl sv u))"
    "sv_reactor (new_waitable_timer now d t sv) = sv_reactor sv"
    by (simp_all add: run service_construct_def)
qed

lemma new_timed_ok:
  assumes "fresh_timers sv" and x_def: "x = new_timed now now' read_timeout s sv"
  shows "timers_ok x" "\<not> armed_at u x \<or> (u \<noteq> READ_TIMER \<and> u \<noteq> WRITE_TIMER)" "seen x = new_transfer s"
    and "deadline_of READ_TIMER x = time_add now (read_timeout * SECOND)"
    and "deadline_of WRITE_TIMER x = time_add now' (2 * SECOND)" "reactor_of x = sv_reactor sv"
proof -
  let ?sv1 = "new_waitable_timer now (read_timeout * SECOND) READ_TIMER sv"
  have f: "service_ok sv" "\<not> rx_shutdown (sv_reactor sv)" "service_waiting sv READ_TIMER = None"
    "service_waiting sv WRITE_TIMER = None"
    using assms(1) by (simp_all add: fresh_timers_def)
  note r = new_waitable_timer_ok [OF f(1,3), of now "read_timeout * SECOND"]
  have "service_waiting ?sv1 WRITE_TIMER = None" using r(2) f(4) by simp
  note w = new_waitable_timer_ok [OF r(1) this, of now' "2 * SECOND"]
  show "timers_ok x"
    using w(1,2,4) r(2,4) f by (simp add: timers_ok_def held_def x_def new_timed_def)
  show "\<not> armed_at u x \<or> (u \<noteq> READ_TIMER \<and> u \<noteq> WRITE_TIMER)"
    using w(2) r(2) f by (auto simp: armed_at_def x_def new_timed_def)
  show "seen x = new_transfer s"
    using w(2) r(2) f by (simp add: seen_def armed_at_def x_def new_timed_def new_transfer_def)
  show "deadline_of READ_TIMER x = time_add now (read_timeout * SECOND)"
    "deadline_of WRITE_TIMER x = time_add now' (2 * SECOND)" "reactor_of x = sv_reactor sv"
    using w(3,4) r(3,4) by (simp_all add: x_def new_timed_def)
qed

lemma prepared_transfer:
  assumes "timers_ok x" "\<not> armed_at READ_TIMER x" "\<not> armed_at WRITE_TIMER x"
  shows "follows x (prepare_transfer request n (seen x)) (timed_prepare_transfer now request n x)"
    and "timed_guard (timed_prepare_transfer now request n x)"
proof -
  show "follows x (prepare_transfer request n (seen x)) (timed_prepare_transfer now request n x)"
    using assms by (intro followsI) (auto simp: timed_prepare_transfer_def prepare_transfer_def seen_def)
  show "timed_guard (timed_prepare_transfer now request n x)"
    using assms by (simp add: timed_guard_def timed_prepare_transfer_def)
qed

lemma prepared_read:
  assumes "timers_ok x" "\<not> armed_at READ_TIMER x" "op_pending (tm_transfer x) = Idle"
  shows "follows x (prepare_read n (seen x)) (timed_prepare_read now n x)"
    and "timed_guard (timed_prepare_read now n x)"
proof -
  let ?f = "\<lambda>t. t\<lparr>expected := n, tbuffer := resize0 n (tbuffer t), read_error := Some Operation_aborted\<rparr>"
  let ?y = "read_wait now (on_transfer ?f x)"
  have y: "follows x ((?f (seen x))\<lparr>read_timer := True\<rparr>) ?y"
    using assms by (intro followsI) (auto simp: seen_def)
  then have "timers_ok ?y" "seen ?y = (?f (seen x))\<lparr>read_timer := True\<rparr>" by (simp_all only: follows_def)
  with follows_trans [OF y follows_async_read [of ?y now]]
  show f: "follows x (prepare_read n (seen x)) (timed_prepare_read now n x)"
    by (simp add: timed_prepare_read_def prepare_read_def)
  have g: "timed_guard x" using assms by (simp add: timed_guard_def)
  show "timed_guard (timed_prepare_read now n x)"
    by (rule timed_guard_follows [OF g f]) (auto simp: prepare_read_def async_read_def on_read_partly_def Let_def)
qed

text \<open>The states of one use of a \<open>TcpTransfer\<close> that was constructed at \<open>start\<close>.\<close>

definition timed_states :: "int \<Rightarrow> int \<Rightarrow> int \<Rightarrow> timed \<Rightarrow> bool" where
  "timed_states start start' read_timeout x \<longleftrightarrow>
     (\<exists>s sv x0. fresh_timers sv \<and> timed_step\<^sup>*\<^sup>* x0 x \<and>
       ((\<exists>now request n. x0 = timed_prepare_transfer now request n (new_timed start start' read_timeout s sv)) \<or>
        (\<exists>now n. x0 = timed_prepare_read now n (new_timed start start' read_timeout s sv))))"

lemma timed_steps_guard:
  assumes "timed_step\<^sup>*\<^sup>* x0 x" "timed_guard x0"
  shows "timed_guard x \<and> (\<forall>u. deadline_of u x = deadline_of u x0)"
  using assms by (induction rule: rtranclp_induct) (auto dest: timed_step_guard)

lemma timed_states_ok:
  assumes "timed_states start start' read_timeout x"
  shows "timed_guard x" "deadline_of READ_TIMER x = time_add start (read_timeout * SECOND)"
    and "deadline_of WRITE_TIMER x = time_add start' (2 * SECOND)"
proof -
  from assms obtain s sv x0 where run: "fresh_timers sv" "timed_step\<^sup>*\<^sup>* x0 x"
    "(\<exists>now request n. x0 = timed_prepare_transfer now request n (new_timed start start' read_timeout s sv)) \<or>
     (\<exists>now n. x0 = timed_prepare_read now n (new_timed start start' read_timeout s sv))"
    unfolding timed_states_def by blast
  let ?x = "new_timed start start' read_timeout s sv"
  note n = new_timed_ok [OF run(1) refl, where now = start and now' = start' and
    read_timeout = read_timeout and s = s]
  have un: "\<not> armed_at READ_TIMER ?x" "\<not> armed_at WRITE_TIMER ?x" using n(2) by blast+
  have idle: "op_pending (tm_transfer ?x) = Idle" by (simp add: new_timed_def new_transfer_def)
  have "timed_guard x0 \<and> (\<forall>u. deadline_of u x0 = deadline_of u ?x)"
    using run(3) prepared_transfer [OF n(1) un] prepared_read [OF n(1) un(1) idle] by (auto simp: follows_def)
  with timed_steps_guard [OF run(2)] n(4,5)
  show "timed_guard x" "deadline_of READ_TIMER x = time_add start (read_timeout * SECOND)"
    "deadline_of WRITE_TIMER x = time_add start' (2 * SECOND)" by simp_all
qed

text \<open>
  An operation that is still going on at its deadline is cancelled by the next look at the timers and
  the operation it hands out.
\<close>

lemma timeout_at_deadline:
  assumes g: "timed_guard x" and live: "\<not> op_cancelled (tm_transfer x)"
    and pend: "(op_pending (tm_transfer x) = Reading c \<and> timer = READ_TIMER \<and> wop = read_timeout_op) \<or>
      (op_pending (tm_transfer x) = Writing r \<and> timer = WRITE_TIMER \<and> wop = write_timeout_op)"
    and late: "deadline_of timer x \<le> now"
  shows "\<exists>rx. check_timers now now' (reactor_of x) = Some rx \<and> (wop, None) \<in> set (rx_ops rx)"
proof -
  have ok: "timers_ok x" using g by (simp add: timed_guard_def)
  then have rxo: "reactor_ok (reactor_of x)" by (simp add: timers_ok_def held_def service_ok_def)
  from timers_handed_over [OF rxo, of now now'] obtain rx
    where rx: "check_timers now now' (reactor_of x) = Some rx" "handed_over now (reactor_of x) rx" by blast
  note d = handed_overD [OF rx(2)]
  have "armed_at timer x \<or> (wop, None) \<in> set (posted x)"
    using g live pend by (auto simp: timed_guard_def)
  then have "(wop, None) \<in> set (rx_ops rx)"
  proof
    assume arm: "armed_at timer x"
    have "held timer wop (tm_service x)" using ok pend by (auto simp: timers_ok_def)
    with arm obtain e where w: "service_waiting (tm_service x) timer = Some (e, [wop])"
      by (auto simp: armed_at_def held_def)
    have "service_ok (tm_service x)" using ok by (simp add: timers_ok_def held_def)
    from service_okD(2) [OF this w] have "e \<le> now" using late by simp
    with d(7) [OF w, of wop] show ?thesis by simp
  qed (use d(3) in auto)
  with rx(1) show ?thesis by blast
qed

text \<open>C18: the timeouts of a transfer are fixed when it is constructed: whatever arrives, and however often
  a wait is started again, the read timer waits for the expiry it got then, so a part that arrives
  does not give the peer more time; an operation that is still going on at its deadline gets its
  timeout handed out by the next look at the timers; and between the timeouts the handlers do what
  they do in the model that only knows whether the timers are armed.\<close>

theorem timeouts_count_from_start:
  assumes "timed_states start start' read_timeout x"
  shows "(\<forall>e ops. service_waiting (tm_service x) READ_TIMER = Some (e, ops) \<longrightarrow>
      e = time_add start (read_timeout * SECOND) \<and> ops = [read_timeout_op]) \<and>
    (\<forall>e ops. service_waiting (tm_service x) WRITE_TIMER = Some (e, ops) \<longrightarrow>
      e = time_add start' (2 * SECOND) \<and> ops = [write_timeout_op]) \<and>
    (\<forall>c. op_pending (tm_transfer x) = Reading c \<longrightarrow>
      seen (timed_read_some_done now ec bs c x) = read_some_done ec bs c (seen x) \<and>
      (\<not> op_cancelled (tm_transfer x) \<and> time_add start (read_timeout * SECOND) \<le> now \<longrightarrow>
        (\<exists>rx. check_timers now now' (reactor_of x) = Some rx \<and> (read_timeout_op, None) \<in> set (rx_ops rx)))) \<and>
    (\<forall>r. op_pending (tm_transfer x) = Writing r \<longrightarrow>
      seen (timed_write_some_done now ec n r x) = write_some_done ec n r (seen x) \<and>
      (\<not> op_cancelled (tm_transfer x) \<and> time_add start' (2 * SECOND) \<le> now \<longrightarrow>
        (\<exists>rx. check_timers now now' (reactor_of x) = Some rx \<and> (write_timeout_op, None) \<in> set (rx_ops rx))))"
proof -
  note st = timed_states_ok [OF assms]
  have ok: "timers_ok x" using st(1) by (simp add: timed_guard_def)
  then have sv: "service_ok (tm_service x)" "held READ_TIMER read_timeout_op (tm_service x)"
    "held WRITE_TIMER write_timeout_op (tm_service x)" by (simp_all add: timers_ok_def held_def)
  have w: "e = deadline_of t x \<and> ops = [wop]" if "service_waiting (tm_service x) t = Some (e, ops)" "held t wop (tm_service x)"
    for t e ops wop using service_okD(2) [OF sv(1) that(1)] that by (auto simp: held_def)
  have un: "\<not> armed_at READ_TIMER x" if "op_pending (tm_transfer x) = Writing r" for r
    using st(1) that by (simp add: timed_guard_def)
  show ?thesis
  proof (intro conjI allI impI)
    fix c assume c: "op_pending (tm_transfer x) = Reading c"
    show "seen (timed_read_some_done now ec bs c x) = read_some_done ec bs c (seen x)"
      using follows_read_some_done [OF ok] by (simp add: follows_def)
    assume "\<not> op_cancelled (tm_transfer x) \<and> time_add start (read_timeout * SECOND) \<le> now"
    then show "\<exists>rx. check_timers now now' (reactor_of x) = Some rx \<and> (read_timeout_op, None) \<in> set (rx_ops rx)"
      using timeout_at_deadline [OF st(1), of c READ_TIMER read_timeout_op] c st(2) by simp
  next
    fix r assume r: "op_pending (tm_transfer x) = Writing r"
    show "seen (timed_write_some_done now ec n r x) = write_some_done ec n r (seen x)"
      using follows_write_some_done [OF ok un [OF r]] by (simp add: follows_def)
    assume "\<not> op_cancelled (tm_transfer x) \<and> time_add start' (2 * SECOND) \<le> now"
    then show "\<exists>rx. check_timers now now' (reactor_of x) = Some rx \<and> (write_timeout_op, None) \<in> set (rx_ops rx)"
      using timeout_at_deadline [OF st(1), of _ WRITE_TIMER write_timeout_op r] r st(3) by simp
  qed (use w sv st(2,3) in auto)
qed

section \<open>A write timeout that comes late\<close>

text \<open>
  A timeout that is handed out cancels whatever is pending. When the write timer expires while the
  request goes out, its handler cancels the read of the answer, whose own deadline is still ahead;
  the write has succeeded.
\<close>

lemma quiet_prepared:
  assumes fresh: "fresh_timers sv" and quiet: "service_waiting sv = Map.empty" "rx_ops (sv_reactor sv) = []"
    and x0: "x0 = timed_prepare_transfer now0 request n (new_timed start start' read_timeout s sv)"
  shows "timed_guard x0" "posted x0 = []" "deadline_of WRITE_TIMER x0 = time_add start' (2 * SECOND)"
    and "service_waiting (tm_service x0) t = (if t = WRITE_TIMER then Some (deadline_of WRITE_TIMER x0, [write_timeout_op]) else None)"
proof -
  let ?x = "new_timed start start' read_timeout s sv"
  let ?z = "on_transfer (\<lambda>t. t\<lparr>expected := n, tbuffer := resize0 n (tbuffer t),
       write_error := Some Operation_aborted, read_error := Some Operation_aborted, op_pending := Writing request\<rparr>) ?x"
  note nt = new_timed_ok [OF fresh refl, where now = start and now' = start' and read_timeout = read_timeout and s = s]
  have un: "\<not> armed_at READ_TIMER ?x" "\<not> armed_at WRITE_TIMER ?x" using nt(2) by blast+
  have z: "timers_ok ?z" "\<not> armed_at WRITE_TIMER ?z" using nt(1) un(2) by simp_all
  have rx: "reactor_of ?z = sv_reactor sv" using nt(6) by simp
  have x0z: "x0 = write_wait now0 ?z" by (simp add: x0 timed_prepare_transfer_def)
  show "timed_guard x0" using prepared_transfer(2) [OF nt(1) un] by (simp add: x0)
  show "posted x0 = []" "deadline_of WRITE_TIMER x0 = time_add start' (2 * SECOND)"
    using write_wait_ok(3,4) [OF z, where now = now0] quiet(2) nt(5) rx by (simp_all add: x0z)
  have "held WRITE_TIMER write_timeout_op (tm_service ?z)" "service_waiting (tm_service ?z) WRITE_TIMER = None"
    using z(1) unfolding rx quiet(1) by (simp_all add: timers_ok_def)
  from held_wait(2,3) [OF this, where now = now0]
  show "service_waiting (tm_service x0) t = (if t = WRITE_TIMER then Some (deadline_of WRITE_TIMER x0, [write_timeout_op]) else None)"
    unfolding x0z write_wait_def using rx quiet(1) by simp
qed

lemma only_write_timer_fires:
  assumes g: "timed_guard x" and idle: "posted x = []" and late: "e \<le> now"
    and w: "\<And>t. service_waiting (tm_service x) t = (if t = WRITE_TIMER then Some (e, [write_timeout_op]) else None)"
  shows "\<exists>rx rest. check_timers now now' (reactor_of x) = Some rx \<and> rx_ops rx = (write_timeout_op, None) # rest"
proof -
  have rxo: "reactor_ok (reactor_of x)"
    using g by (simp add: timed_guard_def timers_ok_def held_def service_ok_def)
  have due: "due now (rx_queue (reactor_of x)) = {WRITE_TIMER}" using w late by (auto simp: due_def split: if_splits)
  obtain order rx where c: "check_timers now now' (reactor_of x) = Some rx" "reactor_ok rx" "rx_shutdown rx = rx_shutdown (reactor_of x)"
    "waiting (rx_queue rx) = (\<lambda>t. if t \<in> due now (rx_queue (reactor_of x)) then None else service_waiting (tm_service x) t)"
    "rx_ops rx = posted x @ concat (map (\<lambda>t. map (\<lambda>wop. (wop, None)) (ops_of (rx_queue (reactor_of x)) t)) order)"
    "set order = due now (rx_queue (reactor_of x))" "sorted (map (expiry_of (rx_queue (reactor_of x))) order)"
    by (rule check_timers_ok [OF rxo, of now now'])
  obtain ts where "order = WRITE_TIMER # ts" using c(6) unfolding due by (cases order) auto
  then show ?thesis using c(1,5) idle w by simp
qed

lemma late_write_timeout_cancels_read:
  assumes fresh: "fresh_timers sv" and quiet: "service_waiting sv = Map.empty" "rx_ops (sv_reactor sv) = []"
    and now: "time_add start' (2 * SECOND) \<le> now"
    and x0: "x0 = timed_prepare_transfer now0 request n (new_timed start start' read_timeout s sv)"
  shows "\<exists>x. timed_step\<^sup>*\<^sup>* x0 x \<and> op_pending (tm_transfer x) = Reading 0 \<and> write_error (tm_transfer x) = None \<and>
    op_cancelled (tm_transfer x) \<and> armed_at READ_TIMER x"
proof -
  note q = quiet_prepared [OF fresh quiet x0]
  have fields: "op_pending (tm_transfer x0) = Writing request" "\<not> op_cancelled (tm_transfer x0)"
    by (simp_all add: x0 timed_prepare_transfer_def new_timed_def new_transfer_def)
  obtain rx rest where c: "check_timers now now (reactor_of x0) = Some rx" "rx_ops rx = (write_timeout_op, None) # rest"
    using only_write_timer_fires [OF q(1,2) _ q(4)] now q(3) by metis
  let ?x1 = "with_reactor rx x0"
  have s1: "timed_step x0 ?x1" by (rule timed_step.fired [OF c(1)])
  have g1: "timed_guard ?x1" using timed_step_guard [OF s1 q(1)] by simp
  then have ok1: "timers_ok ?x1" "\<not> armed_at READ_TIMER ?x1" using fields(1) by (simp_all add: timed_guard_def)
  define x2 where "x2 = timed_write_some_done now None (length request) request ?x1"
  have s2: "timed_step ?x1 x2" unfolding x2_def by (rule timed_step.sent) (simp_all add: fields)
  have f2: "follows ?x1 (write_some_done None (length request) request (seen ?x1)) x2"
    unfolding x2_def by (rule follows_write_some_done [OF ok1])
  then have "seen x2 = write_some_done None (length request) request (seen ?x1)" by (simp add: follows_def)
  then have "op_pending (seen x2) = Reading 0" "write_error (seen x2) = None" "read_timer (seen x2)"
    by (simp_all add: write_some_done_def on_write_complete_def async_read_def on_read_partly_def Let_def)
  then have t2: "op_pending (tm_transfer x2) = Reading 0" "write_error (tm_transfer x2) = None" "armed_at READ_TIMER x2"
    by (simp_all add: seen_def)
  obtain more where p2: "posted x2 = (write_timeout_op, None) # more"
    using f2 c(2) by (auto simp: follows_def prefix_def)
  let ?rx3 = "(reactor_of x2)\<lparr>rx_ops := more, rx_work := rx_work (reactor_of x2) - 1\<rparr>"
  let ?x3 = "timed_timeout write_timeout_op None (with_reactor ?rx3 x2)"
  have s3: "timed_step x2 ?x3" by (rule timed_step.handled) (simp add: next_operation_def p2)
  have "op_cancelled (tm_transfer ?x3)" using timeout_cancels [of None "with_reactor ?rx3 x2"] t2(1) by simp
  moreover have "armed_at READ_TIMER ?x3" using t2(3) by (simp add: armed_at_def timeout_keeps)
  moreover have "write_error (tm_transfer ?x3) = None"
    using t2(2) by (simp add: timed_timeout_def on_write_timeout_def on_read_timeout_def socket_cancel_def)
  moreover have "timed_step\<^sup>*\<^sup>* x0 ?x3" using s1 s2 s3 by (meson converse_rtranclp_into_rtranclp rtranclp.rtrancl_refl)
  ultimately show ?thesis using t2(1) by (intro exI [of _ ?x3]) (simp add: timeout_keeps)
qed

section \<open>Examples\<close>

text \<open>
  Three bytes are read with ten seconds for them; the first arrives after nine. One second later the
  timeout is handed out.
\<close>

lemma fresh_new_service: "fresh_timers new_service"
  using new_queue_ok new_service_ok by (simp add: fresh_timers_def new_service_def)

definition example_timed :: timed where
  "example_timed = timed_read_some_done (9 * SECOND) None [7] 0
     (timed_prepare_read 0 3 (new_timed 0 0 10 \<lparr>is_open = True, incoming = [], writes = [], outgoing = []\<rparr> new_service))"

lemma example_timed_state:
  "timed_states 0 0 10 example_timed" "op_pending (tm_transfer example_timed) = Reading 1"
  "\<not> op_cancelled (tm_transfer example_timed)"
proof -
  let ?s = "\<lparr>is_open = True, incoming = [], writes = [], outgoing = []\<rparr>"
  let ?x = "new_timed 0 0 10 ?s new_service" and ?y = "timed_prepare_read 0 3 (new_timed 0 0 10 ?s new_service)"
  note n = new_timed_ok [OF fresh_new_service refl, where now = 0 and now' = 0 and read_timeout = 10 and s = ?s]
  have un: "\<not> armed_at READ_TIMER ?x" using n(2) by blast
  have idle: "op_pending (tm_transfer ?x) = Idle" by (simp add: new_timed_def new_transfer_def)
  have y: "timers_ok ?y" "seen ?y = prepare_read 3 (new_transfer ?s)"
    using prepared_read(1) [OF n(1) un idle, of 3 0] n(3) by (simp_all add: follows_def)
  have seen_y: "op_pending (seen ?y) = Reading 0" "expected (seen ?y) = 3" "\<not> op_cancelled (seen ?y)"
    unfolding y(2) by (simp_all add: prepare_read_def async_read_def on_read_partly_def new_transfer_def Let_def)
  then have fields: "op_pending (tm_transfer ?y) = Reading 0" "expected (tm_transfer ?y) = 3"
    "\<not> op_cancelled (tm_transfer ?y)" by (simp_all add: seen_def)
  have "timed_step ?y example_timed"
    unfolding example_timed_def by (rule timed_step.received) (simp_all add: fields)
  then show "timed_states 0 0 10 example_timed" unfolding timed_states_def using fresh_new_service by blast
  have "seen example_timed = read_some_done None [7] 0 (seen ?y)"
    using follows_read_some_done [OF y(1)] by (simp add: example_timed_def follows_def)
  then have "op_pending (seen example_timed) = Reading 1" "\<not> op_cancelled (seen example_timed)"
    using seen_y by (simp_all add: read_some_done_def on_read_partly_def Let_def)
  then show "op_pending (tm_transfer example_timed) = Reading 1" "\<not> op_cancelled (tm_transfer example_timed)"
    by (simp_all add: seen_def)
qed

theorem timeouts_count_from_start_witness:
  "\<exists>rx. check_timers (10 * SECOND) (10 * SECOND) (reactor_of example_timed) = Some rx \<and>
     (read_timeout_op, None) \<in> set (rx_ops rx)"
proof -
  have "time_add 0 (10 * SECOND) = 10 * SECOND" by (simp add: time_add_def TIME_MAX_def SECOND_def)
  then show ?thesis
    using timeouts_count_from_start [OF example_timed_state(1), where now = "10 * SECOND" and now' = "10 * SECOND"]
      example_timed_state(2,3) by simp
qed

end
