(* ===== verification/Fmt_Numbers.thy ===== *)
theory Fmt_Numbers
  imports Json_Dump "HOL-Library.Log_Nat"
begin

text \<open>
  How \<open>fmt\<close> prints the integers and the bytes the program formats
  (\<open>src/src/lib/fmt-10.1.1/include/fmt/format.h\<close>): the number of digits is looked up by the position
  of the highest bit and corrected by one comparison, the digits are written from behind, two at
  a time, into a buffer of that size. \<open>clz\<close> is the compiler's builtin that counts leading zero bits.

  Shown here: \<open>"{}"\<close> prints \<open>dec_of_nat\<close> and \<open>dec_of_int\<close>, and \<open>"{:02x}"\<close> of a byte prints \<open>hex_of_byte\<close>,
  the notations in which the other theories state what is printed.
\<close>

section \<open>Counting digits\<close>

definition clz :: "'a::len word \<Rightarrow> nat" where
  "clz w = LENGTH('a) - floorlog 2 (unat w)"

definition bsr2log10 :: "nat list" where
  "bsr2log10 =
     [1,  1,  1,  2,  2,  2,  3,  3,  3,  4,  4,  4,  4,  5,  5,  5,
      6,  6,  6,  7,  7,  7,  7,  8,  8,  8,  9,  9,  9,  10, 10, 10,
      10, 11, 11, 11, 12, 12, 12, 13, 13, 13, 13, 14, 14, 14, 15, 15,
      15, 16, 16, 16, 16, 17, 17, 17, 18, 18, 18, 19, 19, 19, 19, 20]"

definition powers_of_10 :: "nat \<Rightarrow> nat list" where
  "powers_of_10 factor =
     [factor * 10, factor * 100, factor * 1000, factor * 10000, factor * 100000,
      factor * 1000000, factor * 10000000, factor * 100000000, factor * 1000000000]"

definition zero_or_powers_of_10 :: "nat list" where
  "zero_or_powers_of_10 = [0, 0] @ powers_of_10 1 @ powers_of_10 1000000000 @ [10000000000000000000]"

definition do_count_digits64 :: "u64 \<Rightarrow> nat" where
  "do_count_digits64 n =
     (let t = bsr2log10 ! (clz (n OR 1) XOR 63) in
      t - of_bool (unat n < zero_or_powers_of_10 ! t))"

definition fmt_inc :: "nat \<Rightarrow> u64" where
  "fmt_inc t = push_bit 32 (of_nat (length (dec_of_nat t))) - of_nat t"

definition inc_table :: "nat list" where
  "inc_table =
     [0, 0, 0, 10, 10, 10, 100, 100, 100, 1000, 1000, 1000, 10000, 10000, 10000,
      100000, 100000, 100000, 1000000, 1000000, 1000000, 10000000, 10000000, 10000000,
      100000000, 100000000, 100000000, 1000000000, 1000000000, 1000000000, 1000000000, 1000000000]"

definition do_count_digits32 :: "u32 \<Rightarrow> nat" where
  "do_count_digits32 n =
     (let inc = map fmt_inc inc_table ! (clz (n OR 1) XOR 31) in
      unat (drop_bit 32 (ucast n + inc)))"

section \<open>Writing digits\<close>

definition digits2 :: "nat \<Rightarrow> string" where
  "digits2 value = take 2 (drop (value * 2)
     (''0001020304050607080910111213141516171819'' @
      ''2021222324252627282930313233343536373839'' @
      ''4041424344454647484950515253545556575859'' @
      ''6061626364656667686970717273747576777879'' @
      ''8081828384858687888990919293949596979899''))"

definition copy2 :: "nat \<Rightarrow> string \<Rightarrow> string \<Rightarrow> string" where
  "copy2 out src buffer = buffer[out := src ! 0, out + 1 := src ! 1]"

function format_decimal_loop :: "string \<Rightarrow> nat \<Rightarrow> nat \<Rightarrow> string" where
  "format_decimal_loop buffer out value =
     (if value \<ge> 100
      then format_decimal_loop (copy2 (out - 2) (digits2 (value mod 100)) buffer) (out - 2) (value div 100)
      else if value < 10 then buffer[out - 1 := digit_char value]
      else copy2 (out - 2) (digits2 value) buffer)"
  by pat_completeness auto
termination
  by (relation "measure (\<lambda>(_, _, value). value)") auto

declare format_decimal_loop.simps [simp del]

definition format_decimal :: "string \<Rightarrow> nat \<Rightarrow> nat \<Rightarrow> nat \<Rightarrow> string" where
  "format_decimal buffer out value digits = format_decimal_loop buffer (out + digits) value"

definition fmt_write :: "bool \<Rightarrow> nat \<Rightarrow> nat \<Rightarrow> string" where
  "fmt_write negative abs_value num_digits =
     (let size = of_bool negative + num_digits;
          buffer = replicate size (CHR 0x00);
          buffer = (if negative then buffer[0 := CHR ''-''] else buffer)
      in format_decimal buffer (of_bool negative) abs_value num_digits)"

definition fmt_write_u64 :: "u64 \<Rightarrow> string" where
  "fmt_write_u64 value = fmt_write False (unat value) (do_count_digits64 value)"

definition fmt_write_i64 :: "u64 \<Rightarrow> string" where
  "fmt_write_i64 value =
     (let negative = sint value < 0;
          abs_value = (if negative then NOT value + 1 else value)
      in fmt_write negative (unat abs_value) (do_count_digits64 abs_value))"

definition fmt_write_u32 :: "u32 \<Rightarrow> string" where
  "fmt_write_u32 value = fmt_write False (unat value) (do_count_digits32 value)"

section \<open>Hexadecimal\<close>

definition count_hex_digits :: "u32 \<Rightarrow> nat" where
  "count_hex_digits n = (clz (n OR 1) XOR 31) div 4 + 1"

function format_hex_loop :: "string \<Rightarrow> nat \<Rightarrow> nat \<Rightarrow> string" where
  "format_hex_loop buffer out value =
     (let buffer = buffer[out - 1 := ''0123456789abcdef'' ! (value AND 15)] in
      if drop_bit 4 value \<noteq> 0 then format_hex_loop buffer (out - 1) (drop_bit 4 value) else buffer)"
  by pat_completeness auto
termination
  by (relation "measure (\<lambda>(_, _, value). value)") (auto simp: drop_bit_eq_div)

declare format_hex_loop.simps [simp del]

definition format_uint_hex :: "u32 \<Rightarrow> nat \<Rightarrow> string" where
  "format_uint_hex value num_digits =
     format_hex_loop (replicate num_digits (CHR 0x00)) num_digits (unat value)"

text \<open>\<open>"{:02x}"\<close>: numeric alignment with zeros to a width of two.\<close>

definition write_int_padding :: "nat \<Rightarrow> nat \<Rightarrow> nat" where
  "write_int_padding width digits = (if width > digits then width - digits else 0)"

definition fmt_write_hex02 :: "u8 \<Rightarrow> string" where
  "fmt_write_hex02 b =
     (let value = ucast b; num_digits = count_hex_digits value in
      replicate (write_int_padding 2 num_digits) (CHR ''0'') @ format_uint_hex value num_digits)"

section \<open>The tables\<close>

lemma bsr_xor:
  "k < 64 \<Longrightarrow> (64 - Suc k) XOR 63 = k" "k < 32 \<Longrightarrow> (32 - Suc k) XOR 31 = k"
proof -
  have "\<forall>k \<in> set [0..<64]. (64 - Suc k) XOR 63 = k" "\<forall>k \<in> set [0..<32]. (32 - Suc k) XOR 31 = k"
    by code_simp+
  then show "k < 64 \<Longrightarrow> (64 - Suc k) XOR 63 = k" "k < 32 \<Longrightarrow> (32 - Suc k) XOR 31 = k"
    by simp_all
qed

lemma take_drop_pairs:
  "\<forall>x \<in> set xs. length (f x) = 2 \<Longrightarrow> v < length xs \<Longrightarrow> take 2 (drop (v * 2) (concat (map f xs))) = f (xs ! v)"
proof (induction xs arbitrary: v)
  case (Cons x xs)
  then show ?case by (cases v) simp_all
qed simp

lemma digits2_eq:
  assumes "v < 100"
  shows "digits2 v = [digit_char (v div 10), digit_char (v mod 10)]"
proof -
  let ?f = "\<lambda>v. [digit_char (v div 10), digit_char (v mod 10)]"
  have "digits2 v = take 2 (drop (v * 2) (concat (map ?f [0..<100])))"
    by (simp add: digits2_def upt_conv_Cons digit_chars del: upt_Suc)
  then show ?thesis using take_drop_pairs [of "[0..<100]" ?f v] assms by simp
qed

lemma bsr2log10_entries:
  "list_all (\<lambda>(k, t). 0 < t \<and> 2 ^ Suc k \<le> (10 :: nat) ^ t \<and> (1 < t \<longrightarrow> 10 ^ (t - 2) \<le> (2 :: nat) ^ k) \<and>
     zero_or_powers_of_10 ! t = (if t = 1 then 0 else 10 ^ (t - 1))) (enumerate 0 bsr2log10)"
  by (simp add: bsr2log10_def zero_or_powers_of_10_def powers_of_10_def)

lemma length_dec_of_powers:
  "length (dec_of_nat 0) = 1" "length (dec_of_nat 10) = 2" "length (dec_of_nat 100) = 3"
  "length (dec_of_nat 1000) = 4" "length (dec_of_nat 10000) = 5" "length (dec_of_nat 100000) = 6"
  "length (dec_of_nat 1000000) = 7" "length (dec_of_nat 10000000) = 8" "length (dec_of_nat 100000000) = 9"
  "length (dec_of_nat 1000000000) = 10"
  by (simp_all add: length_dec_of_nat_div dec_of_nat_small)

lemma inc_table_entries:
  "list_all (\<lambda>(k, t). 0 < length (dec_of_nat t) \<and> length (dec_of_nat t) < 11 \<and>
     2 ^ Suc k \<le> (10 :: nat) ^ length (dec_of_nat t) \<and>
     (1 < length (dec_of_nat t) \<longrightarrow> 10 ^ (length (dec_of_nat t) - 2) \<le> (2 :: nat) ^ k) \<and>
     t = (if length (dec_of_nat t) = 1 then 0 else 10 ^ (length (dec_of_nat t) - 1))) (enumerate 0 inc_table)"
  by (simp add: inc_table_def length_dec_of_powers)

lemma list_all_enumerate: "list_all P (enumerate 0 xs) \<Longrightarrow> k < length xs \<Longrightarrow> P (k, xs ! k)"
  by (simp add: list_all_length nth_enumerate_eq)

section \<open>The number of digits\<close>

lemma clz_bounds:
  fixes w :: "'a::len word"
  assumes "0 < unat w"
  obtains k where "k < LENGTH('a)" "2 ^ k \<le> unat w" "unat w < 2 ^ Suc k" "clz w = LENGTH('a) - Suc k"
proof -
  let ?f = "floorlog 2 (unat w)"
  have b: "2 ^ (?f - 1) \<le> unat w" "unat w < 2 ^ ?f" using floorlog_bounds [of "unat w" 2] assms by simp_all
  have "0 < ?f" using assms b(2) by (cases ?f) simp_all
  then obtain k where k: "?f = Suc k" using gr0_implies_Suc by blast
  have "(2 :: nat) ^ k < 2 ^ LENGTH('a)" using b(1) k unsigned_less [of w] by (simp add: order_le_less_trans)
  then have "k < LENGTH('a)" by simp
  with b k show thesis by (intro that [of k]) (simp_all add: clz_def)
qed

lemma unat_or_one: "unat (n OR 1) = unat n + of_bool (even (unat n))"
proof -
  have "unat (n OR 1) = unat n OR 1" by (simp only: unsigned_or_eq unsigned_1)
  then show ?thesis by (simp only: or_one_eq)
qed

lemma bsr_bounds:
  fixes n :: "'a::len word"
  obtains k where "k < LENGTH('a)" "clz (n OR 1) = LENGTH('a) - Suc k" "k = 0 \<or> 2 ^ k \<le> unat n" "unat n < 2 ^ Suc k"
proof -
  have "0 < unat (n OR 1)" by (auto simp: unat_or_one intro: odd_pos)
  then obtain k where k: "k < LENGTH('a)" "2 ^ k \<le> unat (n OR 1)" "unat (n OR 1) < 2 ^ Suc k"
    "clz (n OR 1) = LENGTH('a) - Suc k"
    by (rule clz_bounds)
  have "2 ^ k \<le> unat n" if "k \<noteq> 0"
  proof -
    have "even (2 ^ k :: nat)" using that by simp
    then have "2 ^ k \<noteq> Suc (unat n)" if "even (unat n)" using that by (metis even_Suc)
    then show ?thesis using k(2) by (cases "even (unat n)") (auto simp: unat_or_one le_Suc_eq)
  qed
  then show thesis using k by (intro that [of k]) (auto simp: unat_or_one)
qed

lemma dec_of_nat_less_power: "n < 10 ^ length (dec_of_nat n)"
proof (induction n rule: dec_of_nat.induct)
  case (1 n)
  show ?case
  proof (cases "n < 10")
    case False
    then have "n div 10 < 10 ^ length (dec_of_nat (n div 10))" using 1 by simp
    then have "n < 10 * 10 ^ length (dec_of_nat (n div 10))" by linarith
    then show ?thesis using False by (simp add: dec_of_nat_step)
  qed (simp add: dec_of_nat_small)
qed

lemma length_dec_of_nat_eq:
  assumes "n < 10 ^ d" "d = 1 \<or> 10 ^ (d - 1) \<le> n" "0 < d"
  shows "length (dec_of_nat n) = d"
proof (rule antisym)
  show "length (dec_of_nat n) \<le> d" using length_dec_of_nat_le assms(1,3) by blast
  show "d \<le> length (dec_of_nat n)"
  proof (cases "d = 1")
    case True
    then show ?thesis by (cases "dec_of_nat n") (use dec_of_nat_nonempty [of n] in auto)
  next
    case False
    then have "(10 :: nat) ^ (d - 1) < 10 ^ length (dec_of_nat n)"
      using assms(2) dec_of_nat_less_power [of n] by linarith
    then have "d - 1 < length (dec_of_nat n)" by simp
    then show ?thesis by simp
  qed
qed

text \<open>The table gives the digits of the largest number with the same highest bit, or one too many.\<close>

lemma digits_by_table:
  assumes "n < 2 ^ Suc k" "k = 0 \<or> 2 ^ k \<le> n" "0 < t" "2 ^ Suc k \<le> (10 :: nat) ^ t"
    "1 < t \<Longrightarrow> 10 ^ (t - 2) \<le> (2 :: nat) ^ k" "p = (if t = 1 then 0 else 10 ^ (t - 1))"
  shows "length (dec_of_nat n) = t - of_bool (n < p)"
proof (cases "n < p")
  case False
  then show ?thesis using assms by (simp add: length_dec_of_nat_eq split: if_splits)
next
  case True
  then have t: "1 < t" "n < 10 ^ (t - 1)" using assms(3,6) by (auto split: if_splits)
  have "t - 1 = 1 \<or> 10 ^ (t - 1 - 1) \<le> n"
  proof (cases "k = 0")
    case True
    with assms(5) t(1) have "(10 :: nat) ^ (t - 2) \<le> 1" by simp
    then have "t - 2 = 0" using self_le_power [of "10 :: nat" "t - 2"] by (cases "t - 2 = 0") auto
    then have "t - 1 = 1" using t(1) by linarith
    then show ?thesis by simp
  next
    case False
    then show ?thesis using assms(2,5) t(1) by (auto simp: numeral_2_eq_2)
  qed
  then show ?thesis using True t length_dec_of_nat_eq [of n "t - 1"] by simp
qed

lemma do_count_digits64_eq: "do_count_digits64 n = length (dec_of_nat (unat n))"
proof -
  obtain k where k: "k < 64" "clz (n OR 1) = 64 - Suc k" "k = 0 \<or> 2 ^ k \<le> unat n" "unat n < 2 ^ Suc k"
    using bsr_bounds [of n] by auto
  have "length bsr2log10 = 64" by (simp add: bsr2log10_def)
  with list_all_enumerate [OF bsr2log10_entries, of k] k(1)
  have t: "0 < bsr2log10 ! k" "2 ^ Suc k \<le> (10 :: nat) ^ (bsr2log10 ! k)"
    "1 < bsr2log10 ! k \<Longrightarrow> 10 ^ (bsr2log10 ! k - 2) \<le> (2 :: nat) ^ k"
    "zero_or_powers_of_10 ! (bsr2log10 ! k) = (if bsr2log10 ! k = 1 then 0 else 10 ^ (bsr2log10 ! k - 1))"
    by simp_all
  show ?thesis
    using digits_by_table [OF k(4,3) t] bsr_xor(1) [OF k(1)] k(2) by (simp add: do_count_digits64_def Let_def)
qed

lemma do_count_digits32_eq: "do_count_digits32 n = length (dec_of_nat (unat n))"
proof -
  obtain k where k: "k < 32" "clz (n OR 1) = 32 - Suc k" "k = 0 \<or> 2 ^ k \<le> unat n" "unat n < 2 ^ Suc k"
    using bsr_bounds [of n] by auto
  define t d where "t = inc_table ! k" and "d = length (dec_of_nat t)"
  have len: "length inc_table = 32" by (simp add: inc_table_def)
  have klen: "k < length inc_table" using k(1) len by simp
  have entry: "0 < d \<and> d < 11 \<and> 2 ^ Suc k \<le> (10 :: nat) ^ d \<and>
      (1 < d \<longrightarrow> 10 ^ (d - 2) \<le> (2 :: nat) ^ k) \<and> t = (if d = 1 then 0 else 10 ^ (d - 1))"
    using list_all_enumerate [OF inc_table_entries klen]
    unfolding prod.case t_def [symmetric] d_def [symmetric] by blast
  then have d: "0 < d" "2 ^ Suc k \<le> (10 :: nat) ^ d" "1 < d \<Longrightarrow> 10 ^ (d - 2) \<le> (2 :: nat) ^ k"
    "t = (if d = 1 then 0 else 10 ^ (d - 1))" "d < 11"
    by blast+
  have digits: "length (dec_of_nat (unat n)) = d - of_bool (unat n < t)"
    by (rule digits_by_table [OF k(4,3) d(1-4)])
  have "(10 :: nat) ^ (d - 1) \<le> 10 ^ 9" using d(5) by (intro power_increasing) simp_all
  then have t: "t < 2 ^ 32" using d(4) by auto
  have n: "unat n < 2 ^ 32" using unsigned_less [of n] by simp
  let ?m = "unat n + d * 2 ^ 32 - t"
  have le: "t \<le> unat n + d * 2 ^ 32" using t d(1) by simp
  have "ucast n + fmt_inc t = (of_nat ?m :: u64)"
    using le by (simp add: fmt_inc_def d_def [symmetric] push_bit_eq_mult of_nat_diff)
  moreover have "?m < 2 ^ 64"
  proof -
    have "d * 2 ^ 32 \<le> 10 * 2 ^ 32" using d(5) by simp
    then show ?thesis using n by simp
  qed
  then have "unat (of_nat ?m :: u64) = ?m" by (simp add: unat_of_nat take_bit_eq_mod)
  ultimately have "unat (drop_bit 32 (ucast n + fmt_inc t)) = drop_bit 32 ?m"
    by (simp only: unat_drop_bit_eq)
  also have "\<dots> = ?m div 2 ^ 32" by (simp only: drop_bit_eq_div)
  also have "\<dots> = d - of_bool (unat n < t)"
  proof (cases "unat n < t")
    case True
    then have "?m = (d - 1) * 2 ^ 32 + (2 ^ 32 + unat n - t)" using t d(1) by (cases d) simp_all
    moreover have "2 ^ 32 + unat n - t < 2 ^ 32" using True by simp
    ultimately show ?thesis using True by simp
  next
    case False
    then have "?m = d * 2 ^ 32 + (unat n - t)" "unat n - t < 2 ^ 32" using n by simp_all
    then show ?thesis using False by simp
  qed
  finally show ?thesis
    using digits bsr_xor(2) [OF k(1)] k(1,2) len
    by (simp add: do_count_digits32_def Let_def t_def)
qed

section \<open>The digits\<close>

lemma copy2_digits:
  assumes "2 \<le> out"
  shows "copy2 (out - 2) [c, d] buffer = buffer[out - 1 := d, out - 2 := c]"
proof -
  have "out - 2 + 1 = out - 1" "out - 2 \<noteq> out - 1" using assms by linarith+
  then show ?thesis by (simp add: copy2_def list_update_swap)
qed

lemma format_decimal_loop_eq:
  "length (dec_of_nat v) \<le> out \<Longrightarrow> format_decimal_loop buffer out v = write_digits v buffer out"
proof (induction buffer out v rule: format_decimal_loop.induct)
  case (1 buffer out v)
  consider "v < 10" | "10 \<le> v" "v < 100" | "100 \<le> v" by linarith
  then show ?case
  proof cases
    case 1
    then show ?thesis by (subst format_decimal_loop.simps, subst write_digits.simps) simp
  next
    case 2
    then have "2 \<le> out" using "1.prems" length_dec_of_nat_bounds(2) [of v] by simp
    with 2 show ?thesis
      by (subst format_decimal_loop.simps, subst write_digits.simps) (simp add: digits2_eq copy2_digits)
  next
    case 3
    have "v div 10 div 10 = v div 100" by (simp add: div_mult2_eq [symmetric])
    moreover have "10 \<le> v div 10" using 3 by linarith
    ultimately have len: "length (dec_of_nat v) = length (dec_of_nat (v div 100)) + 2"
      using 3 length_dec_of_nat_div [of v] length_dec_of_nat_div [of "v div 10"] by simp
    with "1.IH" 3 "1.prems" show ?thesis
      by (subst format_decimal_loop.simps, subst write_digits.simps) (simp add: digits2_eq copy2_digits)
  qed
qed

lemma fmt_write_eq:
  "fmt_write negative v (length (dec_of_nat v)) = (if negative then ''-'' else []) @ dec_of_nat v"
proof (cases negative)
  case True
  let ?n = "length (dec_of_nat v)"
  have "(replicate (1 + ?n) (CHR 0x00))[0 := CHR ''-''] = CHR ''-'' # replicate ?n (CHR 0x00)" by simp
  with True show ?thesis
    by (simp add: fmt_write_def format_decimal_def format_decimal_loop_eq write_digits_eq Let_def)
next
  case False
  then show ?thesis
    by (simp add: fmt_write_def format_decimal_def format_decimal_loop_eq write_digits_eq Let_def)
qed

lemma count_hex_digits_eq:
  assumes "unat n < 256"
  shows "count_hex_digits n = (if unat n < 16 then 1 else 2)"
proof -
  obtain k where k: "k < 32" "clz (n OR 1) = 32 - Suc k" "k = 0 \<or> 2 ^ k \<le> unat n" "unat n < 2 ^ Suc k"
    using bsr_bounds [of n] by auto
  have "count_hex_digits n = k div 4 + 1"
    using bsr_xor(2) [OF k(1)] k(2) by (simp add: count_hex_digits_def)
  moreover have "k < 8"
  proof (rule ccontr)
    assume "\<not> k < 8"
    then have "(2 :: nat) ^ 8 \<le> 2 ^ k" by (intro power_increasing) simp_all
    with k(3) assms \<open>\<not> k < 8\<close> show False by simp
  qed
  moreover have "k < 4" if "unat n < 16"
  proof (rule ccontr)
    assume "\<not> k < 4"
    then have "(2 :: nat) ^ 4 \<le> 2 ^ k" by (intro power_increasing) simp_all
    with k(3) that \<open>\<not> k < 4\<close> show False by simp
  qed
  moreover have "3 < k" if "\<not> unat n < 16"
  proof (rule ccontr)
    assume "\<not> 3 < k"
    then have "(2 :: nat) ^ Suc k \<le> 2 ^ 4" by (intro power_increasing) simp_all
    with k(4) that show False by simp
  qed
  ultimately show ?thesis by (cases "unat n < 16") auto
qed

lemma hex_digits_nth: "d < 16 \<Longrightarrow> ''0123456789abcdef'' ! d = hex_digit d"
proof -
  have "\<forall>d \<in> set [0..<16]. ''0123456789abcdef'' ! d = hex_digit d" by code_simp
  then show "d < 16 \<Longrightarrow> ?thesis" by simp
qed

lemma low_nibble: "(n :: nat) AND 15 = n mod 16"
  using take_bit_eq_mask [of 4 n] by (simp add: mask_eq_exp_minus_1 take_bit_eq_mod)

lemma format_hex_loop_byte:
  "n < 16 \<Longrightarrow> format_hex_loop [c] 1 n = [hex_digit n]"
  "16 \<le> n \<Longrightarrow> n < 256 \<Longrightarrow> format_hex_loop [c, d] 2 n = [hex_digit (n div 16), hex_digit (n mod 16)]"
proof -
  have one: "format_hex_loop buffer 1 n = buffer[0 := hex_digit n]" if "n < 16" for n buffer
    using that by (subst format_hex_loop.simps)
      (simp add: low_nibble hex_digits_nth drop_bit_eq_div Let_def)
  then show "n < 16 \<Longrightarrow> format_hex_loop [c] 1 n = [hex_digit n]" by simp
  assume n: "16 \<le> n" "n < 256"
  then have "n div 16 < 16" "n div 16 \<noteq> 0" by linarith+
  then have "format_hex_loop [c, d] 2 n = format_hex_loop [c, hex_digit (n mod 16)] 1 (n div 16)"
    by (subst format_hex_loop.simps) (simp add: low_nibble hex_digits_nth drop_bit_eq_div Let_def)
  also have "\<dots> = [hex_digit (n div 16), hex_digit (n mod 16)]"
    unfolding one [OF \<open>n div 16 < 16\<close>] by simp
  finally show "format_hex_loop [c, d] 2 n = [hex_digit (n div 16), hex_digit (n mod 16)]" .
qed

lemma unat_of_signed:
  fixes n :: u64
  shows "sint n < 0 \<Longrightarrow> unat (- n) = nat (- sint n)" "\<not> sint n < 0 \<Longrightarrow> unat n = nat (sint n)"
proof -
  have range: "- (2 ^ 63) \<le> sint n" "sint n < 2 ^ 63"
    using sint_ge [of n] sint_lt [of n] by simp_all
  have n: "word_of_int (sint n) = n" by simp
  have unat: "unat (word_of_int k :: u64) = nat k" if "0 \<le> k" "k < 2 ^ 64" for k :: int
    using that by (simp add: unsigned_of_int take_bit_int_eq_self)
  show "\<not> sint n < 0 \<Longrightarrow> unat n = nat (sint n)" using unat [of "sint n"] range by simp
  have "- n = word_of_int (- sint n)" by simp
  then show "sint n < 0 \<Longrightarrow> unat (- n) = nat (- sint n)" using unat [of "- sint n"] range by simp
qed

lemmas format_hex_byte = format_hex_loop_byte [simplified One_nat_def]

lemma zero_hex_digit: "CHR ''0'' = hex_digit 0"
  by code_simp

section \<open>Properties\<close>

text \<open>C35: integers of 32 and 64 bits are printed in decimal notation: the number of digits from the
  tables is right for every number, so the buffer is filled exactly, and the smallest signed
  number is printed too.\<close>

theorem fmt_prints_decimal:
  "fmt_write_u64 n = dec_of_nat (unat n) \<and> fmt_write_i64 n = dec_of_int (sint n) \<and>
   fmt_write_u32 m = dec_of_nat (unat m)"
proof (intro conjI)
  show "fmt_write_u64 n = dec_of_nat (unat n)"
    by (simp add: fmt_write_u64_def do_count_digits64_eq fmt_write_eq)
  show "fmt_write_u32 m = dec_of_nat (unat m)"
    by (simp add: fmt_write_u32_def do_count_digits32_eq fmt_write_eq)
  have "NOT n + 1 = - n" by (simp add: minus_eq_not_plus_1)
  with unat_of_signed [of n] show "fmt_write_i64 n = dec_of_int (sint n)"
    by (simp add: fmt_write_i64_def do_count_digits64_eq fmt_write_eq dec_of_int_def Let_def)
qed

text \<open>A byte is printed with two hexadecimal digits.\<close>

theorem fmt_prints_hex: "fmt_write_hex02 b = hex_of_byte b"
proof -
  have "unat b < 2 ^ 32" using unat_u8_less [of b] by (rule order_less_trans) simp
  then have n: "unat (ucast b :: u32) = unat b"
    by (simp add: unsigned_ucast_eq take_bit_nat_eq_self)
  show ?thesis
  proof (cases "unat b < 16")
    case True
    then show ?thesis
      by (simp add: fmt_write_hex02_def count_hex_digits_eq n format_uint_hex_def hex_of_byte_def
          write_int_padding_def Let_def format_hex_byte zero_hex_digit)
  next
    case False
    then show ?thesis
      by (simp add: fmt_write_hex02_def count_hex_digits_eq n format_uint_hex_def hex_of_byte_def
          write_int_padding_def Let_def format_hex_byte [unfolded numeral_2_eq_2] numeral_2_eq_2)
  qed
qed

end
