(* ===== verification/Fmt_Strings.thy ===== *)
theory Fmt_Strings
  imports Fmt_Numbers
begin

text \<open>
  Format strings: \<open>parse_format_string\<close> and what it calls, of
  \<open>src/src/lib/fmt-10.1.1/include/fmt/core.h\<close>. The parser has two ways through a string, one for short
  strings and one that searches for braces; they are shown to do the same and to return, for every
  handler that does not mind how a text is cut into parts (the interface \<open>text_handler\<close>, which the
  handler of the theory \<open>Fmt_Format\<close> provides). A pointer into the string is the rest of the string
  behind it, a position between two pointers the text between them. A reported error is a
  \<open>format_error\<close>, which is a \<open>runtime_error\<close>.

  What a parser calls is the record \<open>format_handler\<close>: a function for texts, for the number of an
  argument that is given automatically, as a number or as a name, for a field without
  specifications, and for one with specifications, which tells what it leaves of the string. The
  check of a format string when the program is compiled is left out: it does not change what runs.
\<close>

record 's format_handler =
  fh_text :: "string \<Rightarrow> 's \<Rightarrow> 's result"
  fh_auto :: "'s \<Rightarrow> (nat \<times> 's) result"
  fh_index :: "nat \<Rightarrow> 's \<Rightarrow> (nat \<times> 's) result"
  fh_name :: "string \<Rightarrow> 's \<Rightarrow> (nat \<times> 's) result"
  fh_field :: "nat \<Rightarrow> 's \<Rightarrow> 's result"
  fh_specs :: "nat \<Rightarrow> string \<Rightarrow> 's \<Rightarrow> (string \<times> 's) result"

section \<open>The number of an argument\<close>

definition INT_MAX :: nat where
  "INT_MAX = 2147483647"

text \<open>The loop over the digits: the value before the last digit and the value.\<close>

fun int_digits :: "u32 \<Rightarrow> u32 \<Rightarrow> string \<Rightarrow> u32 \<times> u32" where
  "int_digits prev val [] = (prev, val)"
| "int_digits prev val (c # cs) = int_digits val (val * 10 + of_nat (digit_value c)) cs"

definition parse_nonnegative_int :: "nat \<Rightarrow> string \<Rightarrow> nat \<times> string" where
  "parse_nonnegative_int error_value s =
     (let ds = takeWhile isdigit s; (prev, val) = int_digits 0 0 ds
      in (if length ds \<le> 9 then unat val
          else if length ds = 10 \<and> unat prev * 10 + digit_value (last ds) \<le> INT_MAX then unat val
          else error_value,
          dropWhile isdigit s))"

definition char_between :: "char \<Rightarrow> char \<Rightarrow> char \<Rightarrow> bool" where
  "char_between low high c = (low \<le> c \<and> c \<le> high)"

definition is_name_start :: "char \<Rightarrow> bool" where
  "is_name_start c =
     (char_between (CHR ''a'') (CHR ''z'') c \<or> char_between (CHR ''A'') (CHR ''Z'') c \<or> c = CHR ''_'')"

definition is_name_char :: "char \<Rightarrow> bool" where
  "is_name_char c \<longleftrightarrow> is_name_start c \<or> isdigit c"

definition invalid_format :: "'a result" where
  "invalid_format = Inl (Runtime_error ''invalid format string'')"

definition do_parse_arg_id :: "'s format_handler \<Rightarrow> string \<Rightarrow> 's \<Rightarrow> (nat \<times> string \<times> 's) result" where
  "do_parse_arg_id h s st =
     (let c = hd s in
      if isdigit c
      then (let (index, rest) = (if c \<noteq> CHR ''0'' then parse_nonnegative_int INT_MAX s else (0, tl s)) in
            if rest = [] \<or> (hd rest \<noteq> CHR ''}'' \<and> hd rest \<noteq> CHR '':'') then invalid_format
            else result_bind (fh_index h index st) (\<lambda>(id, st). Inr (id, rest, st)))
      else if \<not> is_name_start c then invalid_format
      else result_bind (fh_name h (c # takeWhile is_name_char (tl s)) st)
             (\<lambda>(id, st). Inr (id, dropWhile is_name_char (tl s), st)))"

definition parse_arg_id :: "'s format_handler \<Rightarrow> string \<Rightarrow> 's \<Rightarrow> (nat \<times> string \<times> 's) result" where
  "parse_arg_id h s st =
     (let c = hd s in
      if c \<noteq> CHR ''}'' \<and> c \<noteq> CHR '':'' then do_parse_arg_id h s st
      else result_bind (fh_auto h st) (\<lambda>(id, st). Inr (id, s, st)))"

section \<open>The two ways through a format string\<close>

text \<open>\<open>s\<close> is the string behind the opening brace.\<close>

definition parse_replacement_field :: "'s format_handler \<Rightarrow> string \<Rightarrow> 's \<Rightarrow> (string \<times> 's) result" where
  "parse_replacement_field h s st =
     (if s = [] then invalid_format
      else if hd s = CHR ''}'' then
        result_bind (fh_auto h st) (\<lambda>(id, st). result_bind (fh_field h id st) (\<lambda>st. Inr (tl s, st)))
      else if hd s = CHR ''{'' then result_bind (fh_text h ''{'' st) (\<lambda>st. Inr (tl s, st))
      else
        result_bind (parse_arg_id h s st) (\<lambda>(id, rest, st).
          if rest \<noteq> [] \<and> hd rest = CHR ''}'' then
            result_bind (fh_field h id st) (\<lambda>st. Inr (tl rest, st))
          else if rest \<noteq> [] \<and> hd rest = CHR '':'' then
            result_bind (fh_specs h id (tl rest) st) (\<lambda>(rest, st).
              if rest = [] \<or> hd rest \<noteq> CHR ''}'' then Inl (Runtime_error ''unknown format specifier'')
              else Inr (tl rest, st))
          else Inl (Runtime_error ''missing '}' in format string'')))"

definition unmatched_brace :: "'a result" where
  "unmatched_brace = Inl (Runtime_error ''unmatched '}' in format string'')"

text \<open>The loop for strings of less than 32 characters; \<open>text\<close> is the text since \<open>begin\<close>.\<close>

partial_function (option) parse_short :: "'s format_handler \<Rightarrow> string \<Rightarrow> string \<Rightarrow> 's \<Rightarrow> 's result option" where
  "parse_short h text s st =
     (case s of
        [] \<Rightarrow> Some (fh_text h text st)
      | c # s \<Rightarrow>
          if c = CHR ''{'' then
            (case result_bind (fh_text h text st) (parse_replacement_field h s) of
               Inl e \<Rightarrow> Some (Inl e)
             | Inr (s, st) \<Rightarrow> parse_short h [] s st)
          else if c = CHR ''}'' then
            (if s = [] \<or> hd s \<noteq> CHR ''}'' then Some unmatched_brace
             else (case fh_text h (text @ [c]) st of
                     Inl e \<Rightarrow> Some (Inl e)
                   | Inr st \<Rightarrow> parse_short h [] (tl s) st))
          else parse_short h (text @ [c]) s st)"

lemma shorter_rest: "c \<in> set s \<Longrightarrow> 0 < n \<Longrightarrow> length (dropWhile P s) - n < length s"
  using length_dropWhile_le [of P s] by (cases s) auto

text \<open>The function object \<open>write\<close> of the other loop, on a text between braces.\<close>

function write_text_loop :: "'s format_handler \<Rightarrow> string \<Rightarrow> 's \<Rightarrow> 's result" where
  "write_text_loop h text st =
     (let front = takeWhile (\<lambda>c. c \<noteq> CHR ''}'') text; rest = dropWhile (\<lambda>c. c \<noteq> CHR ''}'') text in
      if rest = [] then fh_text h text st
      else if tl rest = [] \<or> hd (tl rest) \<noteq> CHR ''}'' then unmatched_brace
      else result_bind (fh_text h (front @ [hd rest]) st) (write_text_loop h (tl (tl rest))))"
  by pat_completeness auto
termination
  by (relation "measure (\<lambda>(h, text, st). length text)") (simp_all add: shorter_rest)

declare write_text_loop.simps [simp del]

definition write_text :: "'s format_handler \<Rightarrow> string \<Rightarrow> 's \<Rightarrow> 's result" where
  "write_text h text st = (if text = [] then Inr st else write_text_loop h text st)"

partial_function (option) parse_long :: "'s format_handler \<Rightarrow> string \<Rightarrow> 's \<Rightarrow> 's result option" where
  "parse_long h s st =
     (if s = [] then Some (Inr st)
      else (let text = takeWhile (\<lambda>c. c \<noteq> CHR ''{'') s; rest = dropWhile (\<lambda>c. c \<noteq> CHR ''{'') s in
            if rest = [] then Some (write_text h s st)
            else (case result_bind (write_text h text st) (parse_replacement_field h (tl rest)) of
                    Inl e \<Rightarrow> Some (Inl e)
                  | Inr (s, st) \<Rightarrow> parse_long h s st)))"

definition parse_format_string :: "'s format_handler \<Rightarrow> string \<Rightarrow> 's \<Rightarrow> 's result option" where
  "parse_format_string h s st = (if length s < 32 then parse_short h [] s st else parse_long h s st)"

section \<open>They do the same\<close>

text \<open>A text as it is written in a format string.\<close>

definition quote_braces :: "string \<Rightarrow> string" where
  "quote_braces s = concat (map (\<lambda>c. if c = CHR ''{'' \<or> c = CHR ''}'' then [c, c] else [c]) s)"


text \<open>
  A handler of texts: it does not matter in which parts it gets a text, and what it leaves of the
  specifications of a field is not longer than they were.
\<close>

locale text_handler =
  fixes h :: "'s format_handler"
  assumes text_Nil: "fh_text h [] st = Inr st"
    and text_append: "fh_text h (s @ t) st = result_bind (fh_text h s st) (fh_text h t)"
    and specs_shorter: "fh_specs h k s st = Inr (s', st') \<Longrightarrow> length s' \<le> length s"
begin

lemma bind_Inr: "result_bind r Inr = r"
  by (cases r) simp_all

lemma bind_assoc: "result_bind (result_bind r f) g = result_bind r (\<lambda>x. result_bind (f x) g)"
  by (cases r) simp_all

lemma length_parse_int: "isdigit (hd s) \<Longrightarrow> s \<noteq> [] \<Longrightarrow> length (snd (parse_nonnegative_int e s)) < length s"
  by (cases s) (simp_all add: parse_nonnegative_int_def Let_def length_dropWhile_le less_Suc_eq_le split: prod.split)

lemma arg_id_shorter:
  assumes "parse_arg_id h s st = Inr (k, rest, st')" "s \<noteq> []"
  shows "length rest \<le> length s"
proof -
  have "length (dropWhile P (tl s)) \<le> length s" for P using length_dropWhile_le [of P "tl s"] by simp
  then show ?thesis
    using assms length_parse_int [of s INT_MAX]
    by (auto simp: parse_arg_id_def do_parse_arg_id_def Let_def invalid_format_def result_bind_Inr split: if_splits prod.splits)
qed

lemma field_shorter:
  assumes "parse_replacement_field h s st = Inr (rest, st')"
  shows "length rest < length s"
proof -
  have "length rest < length s" if a: "parse_arg_id h s st = Inr (k, r, st1)" "s \<noteq> []"
    and r: "(r \<noteq> [] \<and> rest = tl r) \<or> (r \<noteq> [] \<and> fh_specs h k (tl r) st1 = Inr (r', st2) \<and> r' \<noteq> [] \<and> rest = tl r')"
    for k r st1 r' st2
    using arg_id_shorter [OF a] r specs_shorter [of k "tl r" st1 r' st2] by (cases r; cases r') auto
  then show ?thesis
    using assms by (cases s) (auto simp: parse_replacement_field_def invalid_format_def result_bind_Inr split: if_splits)
qed

lemma write_text_eq: "write_text h t st = write_text_loop h t st"
  by (simp add: write_text_def write_text_loop.simps [of h "[]"] text_Nil)

lemma write_plain: "CHR ''}'' \<notin> set t \<Longrightarrow> write_text_loop h t st = fh_text h t st"
  by (subst write_text_loop.simps) (simp add: Let_def)

lemma write_brace:
  assumes "CHR ''}'' \<notin> set t"
  shows "write_text_loop h (t @ CHR ''}'' # u) st =
    (if u = [] \<or> hd u \<noteq> CHR ''}'' then unmatched_brace
     else result_bind (fh_text h (t @ ''}'') st) (write_text_loop h (tl u)))"
proof -
  have "takeWhile (\<lambda>c. c \<noteq> CHR ''}'') (t @ CHR ''}'' # u) = t"
    "dropWhile (\<lambda>c. c \<noteq> CHR ''}'') (t @ CHR ''}'' # u) = CHR ''}'' # u"
    using assms by (induction t) auto
  then show ?thesis by (subst write_text_loop.simps) (simp add: Let_def)
qed

lemma short_end: "parse_short h [] [] st = Some (Inr st)"
  by (subst parse_short.simps) (simp add: text_Nil)

lemma short_brace:
  "parse_short h [] (CHR ''{'' # s) st =
     (case parse_replacement_field h s st of Inl e \<Rightarrow> Some (Inl e) | Inr (s, st) \<Rightarrow> parse_short h [] s st)"
  by (subst parse_short.simps) (simp add: text_Nil)

text \<open>Up to the next opening brace, the short loop does what \<open>write\<close> does.\<close>

lemma short_segment:
  assumes "CHR ''{'' \<notin> set u" "CHR ''}'' \<notin> set t" "rest = [] \<or> hd rest = CHR ''{''"
  shows "parse_short h t (u @ rest) st =
    (case write_text_loop h (t @ u) st of Inl e \<Rightarrow> Some (Inl e) | Inr st \<Rightarrow> parse_short h [] rest st)"
  using assms
proof (induction "length u" arbitrary: u t st rule: less_induct)
  case less
  show ?case
  proof (cases u)
    case Nil
    show ?thesis
    proof (cases rest)
      case Nil
      then show ?thesis
        using \<open>u = []\<close> less.prems(2) by (subst parse_short.simps) (simp add: write_plain short_end split: sum.split)
    next
      case (Cons c r)
      then have "rest = CHR ''{'' # r" using less.prems(3) by simp
      then show ?thesis
        using \<open>u = []\<close> less.prems(2)
        by (subst parse_short.simps) (simp add: write_plain short_brace split: sum.split)
    qed
  next
    case u: (Cons c u')
    show ?thesis
    proof (cases "c = CHR ''}''")
      case False
      have "parse_short h t (u @ rest) st = parse_short h (t @ [c]) (u' @ rest) st"
        using u less.prems(1) False by (subst parse_short.simps) auto
      then show ?thesis using less.hyps [of u' "t @ [c]" st] u less.prems False by simp
    next
      case True
      note w = write_brace [OF less.prems(2), of u' st]
      show ?thesis
      proof (cases "u' = [] \<or> hd u' \<noteq> CHR ''}''")
        case bad: True
        then have "u' @ rest = [] \<or> hd (u' @ rest) \<noteq> CHR ''}''" using less.prems(3) by (cases u') auto
        then show ?thesis
          using u True bad w by (subst parse_short.simps) (simp add: unmatched_brace_def)
      next
        case good: False
        then obtain u'' where u'': "u' = CHR ''}'' # u''" by (cases u') auto
        have "parse_short h t (u @ rest) st =
            (case fh_text h (t @ ''}'') st of Inl e \<Rightarrow> Some (Inl e) | Inr st \<Rightarrow> parse_short h [] (u'' @ rest) st)"
          using u True u'' by (subst parse_short.simps) (simp split: sum.split)
        moreover have "parse_short h [] (u'' @ rest) st1 =
            (case write_text_loop h u'' st1 of Inl e \<Rightarrow> Some (Inl e) | Inr st \<Rightarrow> parse_short h [] rest st)" for st1
          using less.hyps [of u'' "[]" st1] u u'' less.prems(1,3) by simp
        ultimately show ?thesis using w u True u'' by (simp split: sum.split)
      qed
    qed
  qed
qed

lemma short_long: "parse_short h [] s st = parse_long h s st \<and> parse_long h s st \<noteq> None"
proof (induction "length s" arbitrary: s st rule: less_induct)
  case less
  show ?case
  proof (cases "s = []")
    case True
    then show ?thesis by (simp add: short_end parse_long.simps)
  next
    case False
    let ?t = "takeWhile (\<lambda>c. c \<noteq> CHR ''{'') s" and ?rest = "dropWhile (\<lambda>c. c \<noteq> CHR ''{'') s"
    have s: "s = ?t @ ?rest" "CHR ''{'' \<notin> set ?t" "?rest = [] \<or> hd ?rest = CHR ''{''"
      using hd_dropWhile [of "\<lambda>c. c \<noteq> CHR ''{''" s] by (auto dest: set_takeWhileD)
    have seg: "parse_short h [] s st =
        (case write_text h ?t st of Inl e \<Rightarrow> Some (Inl e) | Inr st \<Rightarrow> parse_short h [] ?rest st)"
      using short_segment [OF s(2) _ s(3), of "[]" st] s(1) by (simp add: write_text_eq)
    show ?thesis
    proof (cases "?rest = []")
      case True
      have t: "?t = s"
        using takeWhile_dropWhile_id [of "\<lambda>c. c \<noteq> CHR ''{''" s] unfolding True by (simp only: append_Nil2)
      have "parse_long h s st = Some (write_text h s st)"
        using True False by (subst parse_long.simps) (simp add: Let_def)
      with seg show ?thesis unfolding True t by (simp add: short_end split: sum.split)
    next
      case brace: False
      then obtain r where r: "?rest = CHR ''{'' # r" using s(3) by (cases ?rest) auto
      have len: "length r < length s" using length_dropWhile_le [of "\<lambda>c. c \<noteq> CHR ''{''" s] unfolding r by simp
      have step: "parse_short h [] s' st' = parse_long h s' st' \<and> parse_long h s' st' \<noteq> None"
        if "parse_replacement_field h r st1 = Inr (s', st')" for st1 s' st'
        using less.hyps [of s'] field_shorter [OF that] len by simp
      have "parse_long h s st = (case result_bind (write_text h ?t st) (parse_replacement_field h r) of
           Inl e \<Rightarrow> Some (Inl e) | Inr (s, st) \<Rightarrow> parse_long h s st)"
        using False r by (subst parse_long.simps) (simp add: Let_def)
      moreover have "parse_short h [] s st = (case result_bind (write_text h ?t st) (parse_replacement_field h r) of
           Inl e \<Rightarrow> Some (Inl e) | Inr (s, st) \<Rightarrow> parse_short h [] s st)"
        unfolding seg r short_brace by (simp add: result_bind_def split: sum.split)
      moreover have "(case x of Inl e \<Rightarrow> Some (Inl e) | Inr (s, st) \<Rightarrow> parse_short h [] s st) =
          (case x of Inl e \<Rightarrow> Some (Inl e) | Inr (s, st) \<Rightarrow> parse_long h s st) \<and>
          (case x of Inl e \<Rightarrow> Some (Inl e) | Inr (s, st) \<Rightarrow> parse_long h s st) \<noteq> None"
        if x: "x = result_bind (write_text h ?t st) (parse_replacement_field h r)" for x
      proof (cases x)
        case (Inr p)
        obtain s' st' where p: "p = (s', st')" by (cases p)
        have "result_bind (write_text h ?t st) (parse_replacement_field h r) = Inr (s', st')"
          using x Inr p by simp
        then obtain st1 where "parse_replacement_field h r st1 = Inr (s', st')"
          unfolding result_bind_Inr by blast
        from step [OF this] show ?thesis unfolding Inr p by simp
      qed simp
      ultimately show ?thesis by metis
    qed
  qed
qed

lemma parse_format_string_eq: "parse_format_string h s st = parse_short h [] s st"
  using short_long by (simp add: parse_format_string_def)

lemma parse_format_string_returns: "parse_format_string h s st \<noteq> None"
  using short_long by (simp add: parse_format_string_eq)

end

text \<open>
  A handler that takes every text. Texts with doubled braces, and fields without specifications,
  are what is formatted; the fields are numbered by the handler or in the string.
\<close>

locale total_text_handler = text_handler +
  assumes text_total: "\<exists>st'. fh_text h t st = Inr st'"
begin

lemma short_flush:
  "parse_short h t rest st = parse_short h [] rest (projr (fh_text h t st))"
proof (induction "length rest" arbitrary: t rest st rule: less_induct)
  case less
  obtain st1 where st1: "fh_text h t st = Inr st1" using text_total by blast
  have app: "fh_text h (t @ u) st = fh_text h u st1" for u by (simp add: text_append st1)
  show ?case
  proof (cases rest)
    case Nil
    then show ?thesis using st1 by (subst (1 2) parse_short.simps) (simp add: text_Nil)
  next
    case (Cons c r)
    consider "c = CHR ''{''" | "c = CHR ''}''" | "c \<noteq> CHR ''{''" "c \<noteq> CHR ''}''" by blast
    then show ?thesis
    proof cases
      case 1
      then show ?thesis using st1 Cons by (subst (1 2) parse_short.simps) (simp add: text_Nil)
    next
      case 2
      then show ?thesis using st1 Cons app by (subst (1 2) parse_short.simps) simp
    next
      case 3
      have "parse_short h t rest st = parse_short h (t @ [c]) r st"
        using 3 Cons by (subst parse_short.simps) simp
      also have "\<dots> = parse_short h [] r (projr (fh_text h [c] st1))"
        using less.hyps [of r "t @ [c]" st] Cons by (simp add: app)
      also have "\<dots> = parse_short h [c] r st1" using less.hyps [of r "[c]" st1] Cons by simp
      also have "\<dots> = parse_short h [] rest st1" using 3 Cons by (subst (2) parse_short.simps) simp
      finally show ?thesis using st1 by simp
    qed
  qed
qed

lemma short_quoted: "parse_short h [] (quote_braces s @ rest) st = parse_short h [] rest (projr (fh_text h s st))"
proof (induction s arbitrary: st)
  case Nil
  then show ?case by (simp add: quote_braces_def text_Nil)
next
  case (Cons c s)
  obtain st1 where st1: "fh_text h [c] st = Inr st1" using text_total by blast
  have app: "fh_text h (c # s) st = fh_text h s st1" using text_append [of "[c]" s st] by (simp add: st1)
  have "parse_short h [] (quote_braces (c # s) @ rest) st = parse_short h [] (quote_braces s @ rest) st1"
  proof (cases "c = CHR ''{'' \<or> c = CHR ''}''")
    case True
    then show ?thesis
      using st1 by (subst parse_short.simps) (auto simp: quote_braces_def text_Nil parse_replacement_field_def)
  next
    case False
    then have "parse_short h [] (quote_braces (c # s) @ rest) st = parse_short h [c] (quote_braces s @ rest) st"
      by (subst parse_short.simps) (simp add: quote_braces_def)
    also have "\<dots> = parse_short h [] (quote_braces s @ rest) st1" by (simp add: short_flush [of "[c]"] st1)
    finally show ?thesis .
  qed
  then show ?case by (simp add: Cons.IH app)
qed

lemma short_auto:
  "parse_short h [] (''{}'' @ rest) st =
     (case result_bind (fh_auto h st) (\<lambda>(id, st). fh_field h id st) of
        Inl e \<Rightarrow> Some (Inl e) | Inr st \<Rightarrow> parse_short h [] rest st)"
  by (simp add: short_brace parse_replacement_field_def result_bind_def split: sum.split prod.split)

end

end
