(* ===== verification/Fmt_Integers.thy ===== *)
theory Fmt_Integers
  imports Fmt_Numbers
begin

text \<open>
  Integers with format specifications: \<open>format_specs\<close> of \<open>src/src/lib/fmt-10.1.1/include/fmt/core.h\<close>,
  and \<open>write_padded\<close> and \<open>write_int\<close> of \<open>format.h\<close> with what they call. Text is what is appended to the
  output. A width is never negative, so it is a natural number; the fill is the text of one code
  point. A prefix is the word the source packs it into: up to three characters in the lower bytes
  and their number in the highest. The locale of localized numbers is the one a C++ program
  starts with, which groups no digits; the program never changes it.

  Shown here: digits are those of the number in base 2, 8, 10 or 16, and an integer is laid out as
  padding, sign and prefix, zeros, digits and padding (\<open>int_layout\<close>).
\<close>

lemma quotient_less:
  fixes n :: nat
  assumes "0 < b" "\<not> n < 2 ^ b"
  shows "n div 2 ^ b < n"
proof -
  have "(2 :: nat) ^ 1 \<le> 2 ^ b" by (rule power_increasing) (use assms(1) in simp_all)
  then show ?thesis using assms(2) by (intro div_less_dividend) auto
qed

lemma drop_bit_less: "0 < b \<Longrightarrow> drop_bit b n \<noteq> 0 \<Longrightarrow> drop_bit b n < n" for n :: nat
  using quotient_less [of b n] by (cases "n < 2 ^ b") (simp_all add: drop_bit_eq_div)

section \<open>Specifications\<close>

datatype presentation_type =
    Pres_none | Pres_dec | Pres_oct | Pres_hex_lower | Pres_hex_upper | Pres_bin_lower | Pres_bin_upper
  | Pres_hexfloat_lower | Pres_hexfloat_upper | Pres_exp_lower | Pres_exp_upper | Pres_fixed_lower
  | Pres_fixed_upper | Pres_general_lower | Pres_general_upper | Pres_chr | Pres_string | Pres_pointer
  | Pres_debug

datatype align =
    Align_none | Align_left | Align_right | Align_center | Align_numeric

datatype sign =
    Sign_none | Sign_minus | Sign_plus | Sign_space

record format_specs =
  fs_width :: nat
  fs_precision :: int
  fs_type :: presentation_type
  fs_align :: align
  fs_sign :: sign
  fs_alt :: bool
  fs_localized :: bool
  fs_fill :: string

definition default_specs :: format_specs where
  "default_specs = \<lparr>fs_width = 0, fs_precision = - 1, fs_type = Pres_none, fs_align = Align_none,
     fs_sign = Sign_none, fs_alt = False, fs_localized = False, fs_fill = '' ''\<rparr>"

section \<open>Padding\<close>

definition fmt_fill :: "nat \<Rightarrow> string \<Rightarrow> string" where
  "fmt_fill n fill_text = concat (replicate n fill_text)"

text \<open>
  The table of shifts is a string literal whose terminating zero is the entry for numeric
  alignment.
\<close>

definition padding_shift :: "align \<Rightarrow> align \<Rightarrow> nat" where
  "padding_shift default_align a =
     (let shifts = (if default_align = Align_left then [31, 31, 0, 1, 0] else [0, 31, 0, 1, 0]) in
      shifts ! (case a of Align_none \<Rightarrow> 0 | Align_left \<Rightarrow> 1 | Align_right \<Rightarrow> 2 | Align_center \<Rightarrow> 3
                | Align_numeric \<Rightarrow> 4))"

definition write_padded :: "align \<Rightarrow> format_specs \<Rightarrow> nat \<Rightarrow> string \<Rightarrow> string" where
  "write_padded default_align specs width text =
     (let padding = (if fs_width specs > width then fs_width specs - width else 0);
          left_padding = drop_bit (padding_shift default_align (fs_align specs)) padding;
          right_padding = padding - left_padding
      in (if left_padding \<noteq> 0 then fmt_fill left_padding (fs_fill specs) else []) @ text @
         (if right_padding \<noteq> 0 then fmt_fill right_padding (fs_fill specs) else []))"

section \<open>Digits\<close>

text \<open>The number of bits of a digit is never zero.\<close>

definition upper_digits :: string where "upper_digits = ''0123456789ABCDEF''"
definition lower_digits :: string where "lower_digits = ''0123456789abcdef''"

function format_uint_loop :: "nat \<Rightarrow> bool \<Rightarrow> string \<Rightarrow> nat \<Rightarrow> nat \<Rightarrow> string" where
  "format_uint_loop base_bits upper buffer out value =
     (let digits = (if upper then upper_digits else lower_digits);
          digit = value AND (push_bit base_bits 1 - 1);
          buffer = buffer[out - 1 := (if base_bits < 4 then char_of (48 + digit) else digits ! digit)]
      in if base_bits \<noteq> 0 \<and> drop_bit base_bits value \<noteq> 0
         then format_uint_loop base_bits upper buffer (out - 1) (drop_bit base_bits value) else buffer)"
  by pat_completeness auto
termination
  by (relation "measure (\<lambda>(_, _, _, _, value). value)") (auto intro: drop_bit_less)

declare format_uint_loop.simps [simp del]

definition format_uint :: "nat \<Rightarrow> string \<Rightarrow> nat \<Rightarrow> nat \<Rightarrow> bool \<Rightarrow> string" where
  "format_uint base_bits buffer value num_digits upper =
     format_uint_loop base_bits upper buffer num_digits value"

function count_bits_loop :: "nat \<Rightarrow> nat \<Rightarrow> nat" where
  "count_bits_loop bits m =
     (if bits \<noteq> 0 \<and> drop_bit bits m \<noteq> 0 then Suc (count_bits_loop bits (drop_bit bits m)) else 1)"
  by pat_completeness auto
termination
  by (relation "measure (\<lambda>(_, m). m)") (auto intro: drop_bit_less)

declare count_bits_loop.simps [simp del]

section \<open>Integers\<close>

datatype fmt_integer =
    Int_value u32
  | Uint_value u32
  | Long_long_value u64
  | Ulong_long_value u64

definition is_64bit :: "fmt_integer \<Rightarrow> bool" where
  "is_64bit v = (case v of Int_value _ \<Rightarrow> False | Uint_value _ \<Rightarrow> False | _ \<Rightarrow> True)"

definition is_negative :: "fmt_integer \<Rightarrow> bool" where
  "is_negative v = (case v of Int_value w \<Rightarrow> sint w < 0 | Long_long_value w \<Rightarrow> sint w < 0 | _ \<Rightarrow> False)"

text \<open>\<open>count_decimal\<close> for an absolute value of 32 or of 64 bits, in base ten and in base \<open>2\<close> to the \<open>bits\<close>.\<close>

definition count_decimal :: "bool \<Rightarrow> nat \<Rightarrow> nat" where
  "count_decimal wide n = (if wide then do_count_digits64 (of_nat n) else do_count_digits32 (of_nat n))"

definition count_in_base :: "bool \<Rightarrow> nat \<Rightarrow> nat \<Rightarrow> nat" where
  "count_in_base wide bits n =
     (if \<not> wide then (clz ((of_nat n :: u32) OR 1) XOR 31) div bits + 1 else count_bits_loop bits n)"

definition sign_prefix :: "sign \<Rightarrow> u32" where
  "sign_prefix s = (case s of Sign_none \<Rightarrow> 0 | Sign_minus \<Rightarrow> 0 | Sign_plus \<Rightarrow> 0x1000000 OR 0x2B | Sign_space \<Rightarrow> 0x1000000 OR 0x20)"

definition make_write_int_arg :: "fmt_integer \<Rightarrow> sign \<Rightarrow> nat \<times> u32" where
  "make_write_int_arg v s =
     (let abs_value =
            (case v of
               Int_value w \<Rightarrow> unat (if is_negative v then 0 - w else w)
             | Uint_value w \<Rightarrow> unat w
             | Long_long_value w \<Rightarrow> unat (if is_negative v then 0 - w else w)
             | Ulong_long_value w \<Rightarrow> unat w)
      in (abs_value, if is_negative v then 0x01000000 OR 0x2D else sign_prefix s))"

definition prefix_append :: "u32 \<Rightarrow> u32 \<Rightarrow> u32" where
  "prefix_append prefix value =
     (prefix OR (if prefix \<noteq> 0 then push_bit 8 value else value)) +
     push_bit 24 (1 + (if value > 0xFF then 1 else 0))"

function prefix_chars :: "u32 \<Rightarrow> string" where
  "prefix_chars p = (if p \<noteq> 0 then char_of (unat (p AND 0xFF)) # prefix_chars (drop_bit 8 p) else [])"
  by pat_completeness auto
termination
proof (relation "measure unat")
  fix p :: u32
  assume "p \<noteq> 0"
  then have "0 < unat p" by (simp add: unat_gt_0)
  then have "unat (drop_bit 8 p) < unat p" by (simp only: unat_drop_bit_eq) (simp add: drop_bit_eq_div)
  then show "(drop_bit 8 p, p) \<in> measure unat" by (simp only: in_measure)
qed simp

declare prefix_chars.simps [simp del]

text \<open>\<open>write_int_data\<close>: the size and the number of zeros.\<close>

definition write_int_data :: "nat \<Rightarrow> u32 \<Rightarrow> format_specs \<Rightarrow> nat \<times> nat" where
  "write_int_data num_digits prefix specs =
     (let size = unat (drop_bit 24 prefix) + num_digits in
      if fs_align specs = Align_numeric then
        (if fs_width specs > size then (fs_width specs, fs_width specs - size) else (size, 0))
      else if fs_precision specs > int num_digits then
        (unat (drop_bit 24 prefix) + nat (fs_precision specs), nat (fs_precision specs) - num_digits)
      else (size, 0))"

definition write_int :: "nat \<Rightarrow> u32 \<Rightarrow> format_specs \<Rightarrow> string \<Rightarrow> string" where
  "write_int num_digits prefix specs digits =
     (if fs_width specs = 0 \<and> fs_precision specs = - 1
      then prefix_chars (prefix AND 0xFFFFFF) @ digits
      else (let (size, padding) = write_int_data num_digits prefix specs in
            write_padded Align_right specs size
              (prefix_chars (prefix AND 0xFFFFFF) @ replicate padding (CHR ''0'') @ digits)))"

text \<open>Only the presentation \<open>c\<close> of an integer gets here, so nothing is escaped.\<close>

definition write_char :: "format_specs \<Rightarrow> char \<Rightarrow> string" where
  "write_char specs c = write_padded Align_left specs 1 [c]"

definition decimal_digits :: "nat \<Rightarrow> nat \<Rightarrow> string" where
  "decimal_digits value num_digits = format_decimal (replicate num_digits (CHR 0x00)) 0 value num_digits"

definition base_digits :: "nat \<Rightarrow> nat \<Rightarrow> nat \<Rightarrow> bool \<Rightarrow> string" where
  "base_digits base_bits value num_digits upper =
     format_uint base_bits (replicate num_digits (CHR 0x00)) value num_digits upper"

definition write_int_arg :: "bool \<Rightarrow> nat \<Rightarrow> u32 \<Rightarrow> format_specs \<Rightarrow> string result" where
  "write_int_arg wide abs_value prefix specs =
     (case fs_type specs of
        Pres_none \<Rightarrow> (let n = count_decimal wide abs_value in Inr (write_int n prefix specs (decimal_digits abs_value n)))
      | Pres_dec \<Rightarrow> (let n = count_decimal wide abs_value in Inr (write_int n prefix specs (decimal_digits abs_value n)))
      | Pres_hex_lower \<Rightarrow>
          (let prefix = (if fs_alt specs then prefix_append prefix (push_bit 8 0x78 OR 0x30) else prefix);
               n = count_in_base wide 4 abs_value
           in Inr (write_int n prefix specs (base_digits 4 abs_value n False)))
      | Pres_hex_upper \<Rightarrow>
          (let prefix = (if fs_alt specs then prefix_append prefix (push_bit 8 0x58 OR 0x30) else prefix);
               n = count_in_base wide 4 abs_value
           in Inr (write_int n prefix specs (base_digits 4 abs_value n True)))
      | Pres_bin_lower \<Rightarrow>
          (let prefix = (if fs_alt specs then prefix_append prefix (push_bit 8 0x62 OR 0x30) else prefix);
               n = count_in_base wide 1 abs_value
           in Inr (write_int n prefix specs (base_digits 1 abs_value n False)))
      | Pres_bin_upper \<Rightarrow>
          (let prefix = (if fs_alt specs then prefix_append prefix (push_bit 8 0x42 OR 0x30) else prefix);
               n = count_in_base wide 1 abs_value
           in Inr (write_int n prefix specs (base_digits 1 abs_value n False)))
      | Pres_oct \<Rightarrow>
          (let n = count_in_base wide 3 abs_value;
               prefix = (if fs_alt specs \<and> fs_precision specs \<le> int n \<and> abs_value \<noteq> 0
                         then prefix_append prefix 0x30 else prefix)
           in Inr (write_int n prefix specs (base_digits 3 abs_value n False)))
      | Pres_chr \<Rightarrow> Inr (write_char specs (char_of (abs_value mod 256)))
      | _ \<Rightarrow> Inl (Runtime_error ''invalid format specifier''))"

text \<open>A localized integer is printed in base ten whatever its presentation.\<close>

definition write_loc :: "nat \<Rightarrow> u32 \<Rightarrow> format_specs \<Rightarrow> string" where
  "write_loc abs_value prefix specs =
     (let num_digits = do_count_digits64 (of_nat abs_value);
          size = of_bool (prefix \<noteq> 0) + num_digits
      in write_padded Align_right specs size
           ((if prefix \<noteq> 0 then [char_of (unat (prefix AND 0xFF))] else []) @ decimal_digits abs_value num_digits))"

definition write_integer :: "fmt_integer \<Rightarrow> format_specs \<Rightarrow> string result" where
  "write_integer v specs =
     (let (abs_value, prefix) = make_write_int_arg v (fs_sign specs) in
      if fs_localized specs then Inr (write_loc abs_value prefix specs)
      else write_int_arg (is_64bit v) abs_value prefix specs)"

text \<open>\<open>"{}"\<close>.\<close>

definition write_integer_default :: "fmt_integer \<Rightarrow> string" where
  "write_integer_default v =
     (let (abs_value, _) = make_write_int_arg v Sign_none in
      fmt_write (is_negative v) abs_value (count_decimal (is_64bit v) abs_value))"

section \<open>Digits in a base\<close>

definition digit_in_base :: "nat \<Rightarrow> bool \<Rightarrow> nat \<Rightarrow> char" where
  "digit_in_base b upper d = (if b < 4 then digit_char d else (if upper then upper_digits else lower_digits) ! d)"

function notation_in_base :: "nat \<Rightarrow> bool \<Rightarrow> nat \<Rightarrow> string" where
  "notation_in_base b upper n =
     (if b = 0 \<or> n < 2 ^ b then [digit_in_base b upper n]
      else notation_in_base b upper (n div 2 ^ b) @ [digit_in_base b upper (n mod 2 ^ b)])"
  by pat_completeness auto
termination
  by (relation "measure (\<lambda>(_, _, n). n)") (simp_all add: quotient_less)

declare notation_in_base.simps [simp del]

lemma length_notation_pos: "0 < length (notation_in_base b u n)"
  by (subst notation_in_base.simps) simp

lemma count_bits_loop_eq: "0 < b \<Longrightarrow> count_bits_loop b n = length (notation_in_base b u n)"
proof (induction b n rule: count_bits_loop.induct)
  case (1 b n)
  then show ?case
    by (subst count_bits_loop.simps, subst notation_in_base.simps)
      (auto simp: drop_bit_eq_div div_eq_0_iff)
qed

lemma low_digit:
  fixes n :: nat
  shows "n AND (push_bit b 1 - 1) = n mod 2 ^ b"
  "n AND (2 ^ b - Suc 0) = n mod 2 ^ b"
  using take_bit_eq_mask [of b n] by (simp_all add: mask_eq_exp_minus_1 take_bit_eq_mod push_bit_eq_mult)

lemma format_uint_loop_eq:
  assumes "0 < b" "length (notation_in_base b u n) \<le> out" "out \<le> length buffer"
  shows "format_uint_loop b u buffer out n =
    take (out - length (notation_in_base b u n)) buffer @ notation_in_base b u n @ drop out buffer"
  using assms
proof (induction n arbitrary: buffer out rule: less_induct)
  case (less n)
  let ?d = "digit_in_base b u (n mod 2 ^ b)"
  have step: "format_uint_loop b u buffer out n =
      (if n div 2 ^ b \<noteq> 0 then format_uint_loop b u (buffer[out - 1 := ?d]) (out - 1) (n div 2 ^ b)
       else buffer[out - 1 := ?d])"
    using less.prems(1)
    by (subst format_uint_loop.simps) (simp add: low_digit drop_bit_eq_div digit_in_base_def digit_char_def Let_def)
  have out: "0 < out" using less.prems(2) length_notation_pos [of b u n] by linarith
  then obtain k where k: "out = Suc k" by (cases out) simp_all
  have upd: "buffer[k := ?d] = take k buffer @ ?d # drop out buffer"
    using less.prems(3) k by (simp add: upd_conv_take_nth_drop)
  show ?case
  proof (cases "n < 2 ^ b")
    case True
    then show ?thesis using step upd k by (subst (1 2) notation_in_base.simps) simp
  next
    case False
    then have q: "n div 2 ^ b \<noteq> 0" "n div 2 ^ b < n"
      using less.prems(1) False by (simp_all add: div_eq_0_iff quotient_less)
    have not: "notation_in_base b u n = notation_in_base b u (n div 2 ^ b) @ [?d]"
      using False less.prems(1) by (subst notation_in_base.simps) simp
    have "format_uint_loop b u (buffer[k := ?d]) k (n div 2 ^ b) =
        take (k - length (notation_in_base b u (n div 2 ^ b))) (buffer[k := ?d]) @
        notation_in_base b u (n div 2 ^ b) @ drop k (buffer[k := ?d])"
      using less.IH [OF q(2) less.prems(1)] less.prems(2,3) not k by simp
    also have "drop k (buffer[k := ?d]) = ?d # drop out buffer"
      using less.prems(3) k unfolding upd by simp
    also have "take (k - length (notation_in_base b u (n div 2 ^ b))) (buffer[k := ?d]) =
        take (out - length (notation_in_base b u n)) buffer"
      unfolding upd using not k less.prems(3) by (simp add: min_def)
    finally show ?thesis using step q(1) not k by simp
  qed
qed

lemma format_uint_eq:
  assumes "0 < b" "length (notation_in_base b u n) \<le> out" "out \<le> length buffer"
  shows "format_uint b buffer n out u =
    take (out - length (notation_in_base b u n)) buffer @ notation_in_base b u n @ drop out buffer"
  unfolding format_uint_def by (rule format_uint_loop_eq [OF assms])

lemma base_digits_eq: "0 < b \<Longrightarrow> base_digits b n (length (notation_in_base b u n)) u = notation_in_base b u n"
  by (simp add: base_digits_def format_uint_eq)

text \<open>The number of digits from the position of the highest bit.\<close>

lemma length_notation:
  assumes "0 < b" "2 ^ k \<le> n" "n < 2 ^ Suc k"
  shows "length (notation_in_base b u n) = k div b + 1"
  using assms(2,3)
proof (induction n arbitrary: k rule: less_induct)
  case (less n)
  show ?case
  proof (cases "k < b")
    case True
    then have "n < 2 ^ b" using less.prems(2) power_increasing [of "Suc k" b "2 :: nat"] by simp
    then show ?thesis using True by (subst notation_in_base.simps) simp
  next
    case False
    then have "(2 :: nat) ^ b \<le> 2 ^ k" by simp
    then have n: "\<not> n < 2 ^ b" using less.prems(1) by linarith
    have k: "(2 :: nat) ^ k = 2 ^ (k - b) * 2 ^ b" "(2 :: nat) ^ Suc k = 2 ^ Suc (k - b) * 2 ^ b"
      using False by (simp_all flip: power_add)
    have "2 ^ (k - b) \<le> n div 2 ^ b" "n div 2 ^ b < 2 ^ Suc (k - b)"
      using less.prems unfolding k by (simp_all add: less_eq_div_iff_mult_less_eq div_less_iff_less_mult)
    moreover have "n div 2 ^ b < n" by (rule quotient_less [OF assms(1) n])
    ultimately have "length (notation_in_base b u (n div 2 ^ b)) = (k - b) div b + 1" using less.IH by blast
    then show ?thesis
      using n assms(1) False by (subst notation_in_base.simps) (simp add: le_div_geq)
  qed
qed

lemma count_in_base_eq:
  assumes "0 < b" "wide \<or> n < 2 ^ 32"
  shows "count_in_base wide b n = length (notation_in_base b u n)"
proof (cases wide)
  case True
  then show ?thesis by (simp add: count_in_base_def count_bits_loop_eq [OF assms(1), of _ u])
next
  case False
  then have n: "unat (of_nat n :: u32) = n" using assms(2) by (simp add: unat_of_nat take_bit_nat_eq_self)
  obtain k where k: "k < 32" "clz ((of_nat n :: u32) OR 1) = 32 - Suc k" "k = 0 \<or> 2 ^ k \<le> n" "n < 2 ^ Suc k"
    using bsr_bounds [of "of_nat n :: u32"] unfolding n by auto
  have "count_in_base wide b n = k div b + 1"
    using bsr_xor(2) [OF k(1)] k(2) False by (simp add: count_in_base_def)
  moreover have "length (notation_in_base b u n) = k div b + 1"
  proof (cases "2 ^ k \<le> n")
    case True
    then show ?thesis by (rule length_notation [OF assms(1) _ k(4)])
  next
    case False
    with k(3,4) have "k = 0" "n < 2 ^ 1" by auto
    moreover have "(2 :: nat) ^ 1 \<le> 2 ^ b" by (rule power_increasing) (use assms(1) in simp_all)
    ultimately have "n < 2 ^ b" by linarith
    then show ?thesis using \<open>k = 0\<close> by (subst notation_in_base.simps) simp
  qed
  ultimately show ?thesis by simp
qed

lemma count_decimal_eq: "n < (if wide then 2 ^ 64 else 2 ^ 32) \<Longrightarrow> count_decimal wide n = length (dec_of_nat n)"
  by (cases wide)
    (simp_all add: count_decimal_def do_count_digits64_eq do_count_digits32_eq unat_of_nat take_bit_nat_eq_self)

lemma decimal_digits_eq: "decimal_digits n (length (dec_of_nat n)) = dec_of_nat n"
  using fmt_write_eq [of False n] by (simp add: fmt_write_def decimal_digits_def Let_def)

section \<open>Prefixes\<close>

definition sign_text :: "bool \<Rightarrow> sign \<Rightarrow> string" where
  "sign_text negative s =
     (if negative then ''-'' else case s of Sign_plus \<Rightarrow> ''+'' | Sign_space \<Rightarrow> '' '' | _ \<Rightarrow> [])"

definition prefix_is :: "u32 \<Rightarrow> string \<Rightarrow> bool" where
  "prefix_is p t \<longleftrightarrow> prefix_chars (p AND 0xFFFFFF) = t \<and> unat (drop_bit 24 p) = length t"

lemma prefix_tables:
  "list_all (\<lambda>(p, t). prefix_is p t \<and>
     list_all (\<lambda>(c, a). prefix_is (prefix_append p c) (t @ a))
       [(0x7830, ''0x''), (0x5830, ''0X''), (0x6230, ''0b''), (0x4230, ''0B''), (0x30, ''0'')])
   [(0, []), (0x100002D, ''-''), (0x100002B, ''+''), (0x1000020, '' '')]"
  by code_simp

section \<open>The layout of an integer\<close>

definition padding_left :: "align \<Rightarrow> align \<Rightarrow> nat \<Rightarrow> nat" where
  "padding_left default_align a n =
     (case a of
        Align_none \<Rightarrow> (if default_align = Align_left then 0 else n)
      | Align_left \<Rightarrow> 0
      | Align_right \<Rightarrow> n
      | Align_center \<Rightarrow> n div 2
      | Align_numeric \<Rightarrow> n)"

definition padded :: "align \<Rightarrow> format_specs \<Rightarrow> nat \<Rightarrow> string \<Rightarrow> string" where
  "padded default_align specs width text =
     (let n = fs_width specs - width; l = padding_left default_align (fs_align specs) n in
      fmt_fill l (fs_fill specs) @ text @ fmt_fill (n - l) (fs_fill specs))"

lemma fmt_fill_0 [simp]: "fmt_fill 0 t = []"
  by (simp add: fmt_fill_def)

lemma write_padded_eq:
  assumes "fs_width specs < 2 ^ 31"
  shows "write_padded d specs width text = padded d specs width text"
proof -
  let ?n = "fs_width specs - width"
  have "drop_bit 31 ?n = 0" using assms by (simp add: drop_bit_eq_div)
  then have "drop_bit (padding_shift d (fs_align specs)) ?n = padding_left d (fs_align specs) ?n"
    by (cases "fs_align specs") (simp_all add: padding_shift_def padding_left_def drop_bit_eq_div Let_def)
  moreover have "(if fs_width specs > width then ?n else 0) = ?n" by simp
  ultimately show ?thesis by (simp add: write_padded_def padded_def Let_def)
qed

lemma length_fmt_fill: "length (fmt_fill n t) = n * length t"
  by (simp add: fmt_fill_def length_concat sum_list_replicate)

definition int_text :: "format_specs \<Rightarrow> string \<Rightarrow> string \<Rightarrow> string" where
  "int_text specs prefix digits =
     (let size = length prefix + length digits in
      if fs_align specs = Align_numeric
      then prefix @ replicate (fs_width specs - size) (CHR ''0'') @ digits
      else padded Align_right specs size (prefix @ digits))"

lemma write_int_eq:
  assumes "fs_precision specs = - 1" "fs_width specs < 2 ^ 31" "prefix_is p t" "n = length ds"
  shows "write_int n p specs ds = int_text specs t ds"
proof -
  have p: "prefix_chars (p AND 0xFFFFFF) = t" "unat (drop_bit 24 p) = length t"
    using assms(3) by (simp_all add: prefix_is_def)
  have data: "write_int_data n p specs =
      (if fs_align specs = Align_numeric
       then (max (fs_width specs) (length t + n), fs_width specs - (length t + n)) else (length t + n, 0))"
    unfolding write_int_data_def p by (simp add: assms(1) Let_def max_def)
  show ?thesis
    unfolding write_int_def p data [unfolded assms(4)] int_text_def assms(1,4)
    by (auto simp: write_padded_eq [OF assms(2)] padded_def Let_def padding_left_def split: align.split)
qed

definition fmt_int_value :: "fmt_integer \<Rightarrow> int" where
  "fmt_int_value v =
     (case v of Int_value w \<Rightarrow> sint w | Uint_value w \<Rightarrow> uint w | Long_long_value w \<Rightarrow> sint w
      | Ulong_long_value w \<Rightarrow> uint w)"

lemma unat_of_negative:
  fixes w :: "'a::len word"
  assumes "sint w < 0"
  shows "unat (- w) = nat (- sint w)"
proof -
  have "- (2 ^ (LENGTH('a) - 1)) \<le> sint w" by (rule sint_ge)
  moreover have "(2 :: int) ^ (LENGTH('a) - 1) < 2 ^ LENGTH('a)" by (rule power_strict_increasing) simp_all
  ultimately have "0 \<le> - sint w" "- sint w < 2 ^ LENGTH('a)" using assms by linarith+
  moreover have "- w = word_of_int (- sint w)" by simp
  ultimately have "uint (- w) = - sint w" by (metis take_bit_int_eq_self uint_word_of_int_eq)
  then show ?thesis by (simp add: unat_eq_nat_uint)
qed

lemma unat_of_nonnegative:
  fixes w :: "'a::len word"
  assumes "0 \<le> sint w"
  shows "unat w = nat (sint w)"
proof -
  have "sint w < 2 ^ (LENGTH('a) - 1)" by (rule sint_lt)
  moreover have "(2 :: int) ^ (LENGTH('a) - 1) < 2 ^ LENGTH('a)" by (rule power_strict_increasing) simp_all
  ultimately have "sint w < 2 ^ LENGTH('a)" by linarith
  moreover have "w = word_of_int (sint w)" by simp
  ultimately have "uint w = sint w" using assms by (metis take_bit_int_eq_self uint_word_of_int_eq)
  then show ?thesis by (simp add: unat_eq_nat_uint)
qed

lemma is_negative_eq: "is_negative v \<longleftrightarrow> fmt_int_value v < 0"
  by (cases v) (simp_all add: is_negative_def fmt_int_value_def)

lemma write_int_arg_of:
  "make_write_int_arg v s =
     (nat \<bar>fmt_int_value v\<bar>, if is_negative v then 0x100002D else sign_prefix s)"
proof -
  have neg: "unat (- w) = nat (- sint w)" if "sint w < 0" for w :: "'a::len word"
    by (rule unat_of_negative [OF that])
  have pos: "unat w = nat (sint w)" if "\<not> sint w < 0" for w :: "'a::len word"
    using that by (intro unat_of_nonnegative) simp
  show ?thesis
    by (cases v) (auto simp: make_write_int_arg_def is_negative_def fmt_int_value_def neg pos unat_eq_nat_uint [symmetric])
qed

text \<open>What stands between the sign and the digits, and the digits.\<close>

definition int_presentation :: "presentation_type \<Rightarrow> bool \<Rightarrow> nat \<Rightarrow> (string \<times> string) option" where
  "int_presentation t alt n =
     (case t of
        Pres_none \<Rightarrow> Some ([], dec_of_nat n)
      | Pres_dec \<Rightarrow> Some ([], dec_of_nat n)
      | Pres_hex_lower \<Rightarrow> Some (if alt then ''0x'' else [], notation_in_base 4 False n)
      | Pres_hex_upper \<Rightarrow> Some (if alt then ''0X'' else [], notation_in_base 4 True n)
      | Pres_bin_lower \<Rightarrow> Some (if alt then ''0b'' else [], notation_in_base 1 False n)
      | Pres_bin_upper \<Rightarrow> Some (if alt then ''0B'' else [], notation_in_base 1 False n)
      | Pres_oct \<Rightarrow> Some (if alt \<and> n \<noteq> 0 then ''0'' else [], notation_in_base 3 False n)
      | _ \<Rightarrow> None)"

lemma sign_prefix_is:
  fixes v :: fmt_integer and s :: sign
  defines "p \<equiv> (if is_negative v then 0x100002D else sign_prefix s)" and "t \<equiv> sign_text (is_negative v) s"
  shows "prefix_is p t"
    "prefix_is (prefix_append p 0x7830) (t @ ''0x'')"
    "prefix_is (prefix_append p 0x5830) (t @ ''0X'')"
    "prefix_is (prefix_append p 0x6230) (t @ ''0b'')"
    "prefix_is (prefix_append p 0x4230) (t @ ''0B'')"
    "prefix_is (prefix_append p 0x30) (t @ ''0'')"
proof -
  have "(p, t) \<in> {(0, []), (0x100002D, ''-''), (0x100002B, ''+''), (0x1000020, '' '')}"
    unfolding p_def t_def by (cases s) (simp_all add: sign_prefix_def sign_text_def)
  then show "prefix_is p t"
    "prefix_is (prefix_append p 0x7830) (t @ ''0x'')"
    "prefix_is (prefix_append p 0x5830) (t @ ''0X'')"
    "prefix_is (prefix_append p 0x6230) (t @ ''0b'')"
    "prefix_is (prefix_append p 0x4230) (t @ ''0B'')"
    "prefix_is (prefix_append p 0x30) (t @ ''0'')"
    using prefix_tables by auto
qed

lemma abs_value_less: "nat \<bar>fmt_int_value v\<bar> < (if is_64bit v then 2 ^ 64 else 2 ^ 32)"
proof -
  have "nat \<bar>fmt_int_value v\<bar> = fst (make_write_int_arg v Sign_none)" by (simp add: write_int_arg_of)
  also have "\<dots> < (if is_64bit v then 2 ^ 64 else 2 ^ 32)"
    using unsigned_less [where ?'b = 32 and ?'a = nat] unsigned_less [where ?'b = 64 and ?'a = nat]
    by (cases v) (auto simp: make_write_int_arg_def is_64bit_def)
  finally show ?thesis .
qed

lemma write_integer_eq:
  assumes "fs_precision specs = - 1" "fs_width specs < 2 ^ 31" "\<not> fs_localized specs"
    and "int_presentation (fs_type specs) (fs_alt specs) (nat \<bar>fmt_int_value v\<bar>) = Some (base, digits)"
  shows "write_integer v specs = Inr (int_text specs (sign_text (is_negative v) (fs_sign specs) @ base) digits)"
proof -
  let ?n = "nat \<bar>fmt_int_value v\<bar>"
  define p where "p = (if is_negative v then 0x100002D else sign_prefix (fs_sign specs))"
  define t where "t = sign_text (is_negative v) (fs_sign specs)"
  note prefixes = sign_prefix_is [of v "fs_sign specs", folded p_def t_def]
  note int_eq = write_int_eq [OF assms(1,2)]
  have dec: "count_decimal (is_64bit v) ?n = length (dec_of_nat ?n)"
    by (rule count_decimal_eq [OF abs_value_less])
  have base: "count_in_base (is_64bit v) b ?n = length (notation_in_base b u ?n)" if "0 < b" for b u
    using abs_value_less [of v] by (intro count_in_base_eq that) (auto split: if_splits)
  have digits: "base_digits b ?n (count_in_base (is_64bit v) b ?n) u = notation_in_base b u ?n" if "0 < b" for b u
    unfolding base [OF that, of u] by (rule base_digits_eq [OF that])
  have int_base: "write_int (count_in_base (is_64bit v) b ?n) q specs (notation_in_base b u ?n) =
      int_text specs t' (notation_in_base b u ?n)" if "prefix_is q t'" "0 < b" for q t' b u
    by (rule int_eq [OF that(1) base [OF that(2)]])
  have words: "push_bit 8 0x78 OR 0x30 = (0x7830 :: u32)" "push_bit 8 0x58 OR 0x30 = (0x5830 :: u32)"
    "push_bit 8 0x62 OR 0x30 = (0x6230 :: u32)" "push_bit 8 0x42 OR 0x30 = (0x4230 :: u32)"
    by simp_all
  have "write_int_arg (is_64bit v) ?n p specs = Inr (int_text specs (t @ base) digits)"
    unfolding write_int_arg_def words using assms(1,4) int_base [OF prefixes(1), of 3 False]
    by (cases "fs_type specs")
      (auto simp: int_presentation_def Let_def dec decimal_digits_eq digits
         int_eq [OF prefixes(1)] int_base [OF prefixes(1)] int_base [OF prefixes(2)] int_base [OF prefixes(3)]
         int_base [OF prefixes(4)] int_base [OF prefixes(5)] int_base [OF prefixes(6)]
         simp del: One_nat_def split: if_splits)
  then show ?thesis using assms(3) by (simp add: write_integer_def write_int_arg_of p_def t_def)
qed

lemma write_integer_default_eq: "write_integer_default v = dec_of_int (fmt_int_value v)"
proof -
  have "count_decimal (is_64bit v) (nat \<bar>fmt_int_value v\<bar>) = length (dec_of_nat (nat \<bar>fmt_int_value v\<bar>))"
    by (rule count_decimal_eq [OF abs_value_less])
  then show ?thesis
    by (auto simp: write_integer_default_def write_int_arg_of fmt_write_eq is_negative_eq dec_of_int_def)
qed

text \<open>
  The layout: the fill, the prefix, zeros, the digits and the fill again take up the width; where the
  padding goes is the alignment.
\<close>

theorem integer_layout:
  assumes "fs_precision specs = - 1" "fs_width specs < 2 ^ 31" "\<not> fs_localized specs"
    and "int_presentation (fs_type specs) (fs_alt specs) (nat \<bar>fmt_int_value v\<bar>) = Some (base, digits)"
  defines "prefix \<equiv> sign_text (is_negative v) (fs_sign specs) @ base"
  shows "\<exists>l z r. write_integer v specs =
      Inr (fmt_fill l (fs_fill specs) @ prefix @ replicate z (CHR ''0'') @ digits @ fmt_fill r (fs_fill specs)) \<and>
    l + length prefix + z + length digits + r = max (fs_width specs) (length prefix + length digits) \<and>
    (case fs_align specs of
       Align_numeric \<Rightarrow> l = 0 \<and> r = 0 | Align_left \<Rightarrow> l = 0 \<and> z = 0 | Align_center \<Rightarrow> z = 0 \<and> l = (l + r) div 2
     | _ \<Rightarrow> z = 0 \<and> r = 0)"
proof -
  let ?n = "fs_width specs - (length prefix + length digits)"
  let ?l = "if fs_align specs = Align_numeric then 0 else padding_left Align_right (fs_align specs) ?n"
  let ?z = "if fs_align specs = Align_numeric then ?n else 0"
  have "?l \<le> ?n" by (auto simp: padding_left_def split: align.split)
  moreover have "write_integer v specs = Inr (int_text specs prefix digits)"
    unfolding prefix_def by (rule write_integer_eq [OF assms(1-4)])
  ultimately show ?thesis
    by (intro exI [of _ ?l] exI [of _ ?z] exI [of _ "?n - ?z - ?l"])
      (auto simp: int_text_def padded_def padding_left_def Let_def split: align.split)
qed

end
