(* ===== verification/Fmt_Text.thy ===== *)
theory Fmt_Text
  imports Fmt_Integers
begin

text \<open>
  Strings with format specifications (\<open>src/src/lib/fmt-10.1.1/include/fmt/format.h\<close>): the
  branchless UTF-8 decoder, the width of a text in columns, the cut at a precision, and the escaped
  form of the presentation \<open>?\<close>, with the table of printable code points from \<open>format-inl.h\<close>.

  The function object that \<open>for_each_codepoint\<close> calls becomes a function on its state. Texts
  without specifications are what they are; for ASCII the width is the number of characters.
\<close>

section \<open>Decoding\<close>

definition code_point_length :: "char \<Rightarrow> nat" where
  "code_point_length c =
     unat (drop_bit (2 * drop_bit 3 (of_char c)) (0x3a55000000000000 :: u64) AND 3) + 1"

text \<open>The table is a string literal, whose terminating zero is the entry for \<open>0xF8\<close> and above.\<close>

definition fmt_utf8_lengths :: "nat list" where
  "fmt_utf8_lengths = replicate 16 1 @ replicate 8 0 @ [2, 2, 2, 2, 3, 3, 4] @ [0]"

text \<open>The code point, the errors, and how far to go on, for a block of four bytes.\<close>

definition fmt_utf8_decode :: "bytes \<Rightarrow> u32 \<times> u32 \<times> nat" where
  "fmt_utf8_decode s =
     (let masks = [0x00, 0x7f, 0x1f, 0x0f, 0x07];
          mins = [4194304, 0, 128, 2048, 65536];
          shiftc = [0, 18, 12, 6, 0];
          shifte = [0, 6, 4, 2, 0];
          len = fmt_utf8_lengths ! unat (drop_bit 3 (s ! 0));
          c = push_bit 18 (ucast (s ! 0 AND masks ! len));
          c = c OR push_bit 12 (ucast (s ! 1 AND 0x3f));
          c = c OR push_bit 6 (ucast (s ! 2 AND 0x3f));
          c = c OR ucast (s ! 3 AND 0x3f);
          c = drop_bit (shiftc ! len) c;
          e = push_bit 6 (of_bool (c < mins ! len));
          e = e OR push_bit 7 (of_bool (drop_bit 11 c = 0x1b));
          e = e OR push_bit 8 (of_bool (c > 0x10FFFF));
          e = e OR drop_bit 2 (ucast (s ! 1 AND 0xc0));
          e = e OR drop_bit 4 (ucast (s ! 2 AND 0xc0));
          e = e OR drop_bit 6 (ucast (s ! 3));
          e = e XOR 0x2a;
          e = drop_bit (shifte ! len) e
      in (c, e, len + of_bool (len = 0)))"

definition invalid_code_point :: u32 where
  "invalid_code_point = NOT 0"

type_synonym 's point_handler = "u32 \<Rightarrow> string \<Rightarrow> 's \<Rightarrow> bool \<times> 's"

text \<open>\<open>decode\<close>: whether to go on, by how much, and the state; the buffer holds at least a block.\<close>

definition decode_point :: "'s point_handler \<Rightarrow> string \<Rightarrow> 's \<Rightarrow> bool \<times> nat \<times> 's" where
  "decode_point f buf st =
     (let (cp, e, len) = fmt_utf8_decode (bytes_of_string (take 4 buf));
          n = (if e \<noteq> 0 then 1 else len);
          (go, st) = f (if e \<noteq> 0 then invalid_code_point else cp) (take n buf) st
      in (go, n, st))"

lemma utf8_decode_pos: "0 < snd (snd (fmt_utf8_decode s))"
  unfolding fmt_utf8_decode_def Let_def snd_conv by (simp only: of_bool_def split: if_split) simp

lemma decode_point_pos: "decode_point f buf st = (go, n, st') \<Longrightarrow> 0 < n"
  using utf8_decode_pos [of "bytes_of_string (take 4 buf)"]
  by (auto simp: decode_point_def Let_def split: prod.splits if_splits)

text \<open>The blocks of four characters; \<open>None\<close> when the handler stopped.\<close>

function whole_blocks :: "'s point_handler \<Rightarrow> string \<Rightarrow> 's \<Rightarrow> string option \<times> 's" where
  "whole_blocks f s st =
     (if length s \<ge> 4
      then (case decode_point f s st of
              (go, n, st) \<Rightarrow> if go then whole_blocks f (drop n s) st else (None, st))
      else (Some s, st))"
  by pat_completeness auto
termination
  by (relation "measure (\<lambda>(_, s, _). length s)") (auto dest: decode_point_pos [OF sym])

declare whole_blocks.simps [simp del]

text \<open>The last characters, in a buffer that is filled up with zeros.\<close>

function last_block :: "'s point_handler \<Rightarrow> string \<Rightarrow> nat \<Rightarrow> 's \<Rightarrow> 's" where
  "last_block f buf chars_left st =
     (case decode_point f buf st of
        (go, n, st) \<Rightarrow> if go \<and> n < chars_left then last_block f (drop n buf) (chars_left - n) st else st)"
  by pat_completeness auto
termination
  by (relation "measure (\<lambda>(_, _, n, _). n)") (auto dest: decode_point_pos [OF sym])

declare last_block.simps [simp del]

definition for_each_codepoint :: "'s point_handler \<Rightarrow> string \<Rightarrow> 's \<Rightarrow> 's" where
  "for_each_codepoint f s st =
     (case whole_blocks f s st of
        (None, st) \<Rightarrow> st
      | (Some r, st) \<Rightarrow>
          if r = [] then st
          else last_block f (r @ replicate (7 - length r) (CHR 0x00)) (length r) st)"

section \<open>Width and precision\<close>

definition wide_code_point :: "u32 \<Rightarrow> bool" where
  "wide_code_point cp \<longleftrightarrow>
     cp \<ge> 0x1100 \<and>
     (cp \<le> 0x115f \<or> cp = 0x2329 \<or> cp = 0x232a \<or> (cp \<ge> 0x2e80 \<and> cp \<le> 0xa4cf \<and> cp \<noteq> 0x303f) \<or>
      (cp \<ge> 0xac00 \<and> cp \<le> 0xd7a3) \<or> (cp \<ge> 0xf900 \<and> cp \<le> 0xfaff) \<or> (cp \<ge> 0xfe10 \<and> cp \<le> 0xfe19) \<or>
      (cp \<ge> 0xfe30 \<and> cp \<le> 0xfe6f) \<or> (cp \<ge> 0xff00 \<and> cp \<le> 0xff60) \<or> (cp \<ge> 0xffe0 \<and> cp \<le> 0xffe6) \<or>
      (cp \<ge> 0x20000 \<and> cp \<le> 0x2fffd) \<or> (cp \<ge> 0x30000 \<and> cp \<le> 0x3fffd) \<or>
      (cp \<ge> 0x1f300 \<and> cp \<le> 0x1f64f) \<or> (cp \<ge> 0x1f900 \<and> cp \<le> 0x1f9ff))"

definition compute_width :: "string \<Rightarrow> nat" where
  "compute_width s =
     for_each_codepoint (\<lambda>cp _ count. (True, count + (1 + of_bool (wide_code_point cp)))) s 0"

fun code_point_index_loop :: "nat \<Rightarrow> nat \<Rightarrow> nat \<Rightarrow> string \<Rightarrow> nat" where
  "code_point_index_loop i num_code_points n [] = i"
| "code_point_index_loop i num_code_points n (c # s) =
     (if byte_of_char c AND 0xc0 \<noteq> 0x80
      then (if num_code_points + 1 > n then i else code_point_index_loop (i + 1) (num_code_points + 1) n s)
      else code_point_index_loop (i + 1) num_code_points n s)"

definition code_point_index :: "string \<Rightarrow> nat \<Rightarrow> nat" where
  "code_point_index s n = code_point_index_loop 0 0 n s"

section \<open>Printable code points\<close>

definition singletons0 :: "(nat \<times> nat) list" where
  "singletons0 =
     [(0x00, 1), (0x03, 5), (0x05, 6), (0x06, 3), (0x07, 6), (0x08, 8), (0x09, 17), (0x0a, 28), (0x0b, 25),
      (0x0c, 20), (0x0d, 16), (0x0e, 13), (0x0f, 4), (0x10, 3), (0x12, 18), (0x13, 9), (0x16, 1), (0x17, 5),
      (0x18, 2), (0x19, 3), (0x1a, 7), (0x1c, 2), (0x1d, 1), (0x1f, 22), (0x20, 3), (0x2b, 3), (0x2c, 2),
      (0x2d, 11), (0x2e, 1), (0x30, 3), (0x31, 2), (0x32, 1), (0xa7, 2), (0xa9, 2), (0xaa, 4), (0xab, 8),
      (0xfa, 2), (0xfb, 5), (0xfd, 4), (0xfe, 3), (0xff, 9)]"

definition singletons0_lower :: "nat list" where
  "singletons0_lower =
     [0xad, 0x78, 0x79, 0x8b, 0x8d, 0xa2, 0x30, 0x57, 0x58, 0x8b, 0x8c, 0x90, 0x1c, 0x1d, 0xdd, 0x0e, 0x0f, 0x4b,
      0x4c, 0xfb, 0xfc, 0x2e, 0x2f, 0x3f, 0x5c, 0x5d, 0x5f, 0xb5, 0xe2, 0x84, 0x8d, 0x8e, 0x91, 0x92, 0xa9, 0xb1,
      0xba, 0xbb, 0xc5, 0xc6, 0xc9, 0xca, 0xde, 0xe4, 0xe5, 0xff, 0x00, 0x04, 0x11, 0x12, 0x29, 0x31, 0x34, 0x37,
      0x3a, 0x3b, 0x3d, 0x49, 0x4a, 0x5d, 0x84, 0x8e, 0x92, 0xa9, 0xb1, 0xb4, 0xba, 0xbb, 0xc6, 0xca, 0xce, 0xcf,
      0xe4, 0xe5, 0x00, 0x04, 0x0d, 0x0e, 0x11, 0x12, 0x29, 0x31, 0x34, 0x3a, 0x3b, 0x45, 0x46, 0x49, 0x4a, 0x5e,
      0x64, 0x65, 0x84, 0x91, 0x9b, 0x9d, 0xc9, 0xce, 0xcf, 0x0d, 0x11, 0x29, 0x45, 0x49, 0x57, 0x64, 0x65, 0x8d,
      0x91, 0xa9, 0xb4, 0xba, 0xbb, 0xc5, 0xc9, 0xdf, 0xe4, 0xe5, 0xf0, 0x0d, 0x11, 0x45, 0x49, 0x64, 0x65, 0x80,
      0x84, 0xb2, 0xbc, 0xbe, 0xbf, 0xd5, 0xd7, 0xf0, 0xf1, 0x83, 0x85, 0x8b, 0xa4, 0xa6, 0xbe, 0xbf, 0xc5, 0xc7,
      0xce, 0xcf, 0xda, 0xdb, 0x48, 0x98, 0xbd, 0xcd, 0xc6, 0xce, 0xcf, 0x49, 0x4e, 0x4f, 0x57, 0x59, 0x5e, 0x5f,
      0x89, 0x8e, 0x8f, 0xb1, 0xb6, 0xb7, 0xbf, 0xc1, 0xc6, 0xc7, 0xd7, 0x11, 0x16, 0x17, 0x5b, 0x5c, 0xf6, 0xf7,
      0xfe, 0xff, 0x80, 0x0d, 0x6d, 0x71, 0xde, 0xdf, 0x0e, 0x0f, 0x1f, 0x6e, 0x6f, 0x1c, 0x1d, 0x5f, 0x7d, 0x7e,
      0xae, 0xaf, 0xbb, 0xbc, 0xfa, 0x16, 0x17, 0x1e, 0x1f, 0x46, 0x47, 0x4e, 0x4f, 0x58, 0x5a, 0x5c, 0x5e, 0x7e,
      0x7f, 0xb5, 0xc5, 0xd4, 0xd5, 0xdc, 0xf0, 0xf1, 0xf5, 0x72, 0x73, 0x8f, 0x74, 0x75, 0x96, 0x2f, 0x5f, 0x26,
      0x2e, 0x2f, 0xa7, 0xaf, 0xb7, 0xbf, 0xc7, 0xcf, 0xd7, 0xdf, 0x9a, 0x40, 0x97, 0x98, 0x30, 0x8f, 0x1f, 0xc0,
      0xc1, 0xce, 0xff, 0x4e, 0x4f, 0x5a, 0x5b, 0x07, 0x08, 0x0f, 0x10, 0x27, 0x2f, 0xee, 0xef, 0x6e, 0x6f, 0x37,
      0x3d, 0x3f, 0x42, 0x45, 0x90, 0x91, 0xfe, 0xff, 0x53, 0x67, 0x75, 0xc8, 0xc9, 0xd0, 0xd1, 0xd8, 0xd9, 0xe7,
      0xfe, 0xff]"

definition singletons1 :: "(nat \<times> nat) list" where
  "singletons1 =
     [(0x00, 6), (0x01, 1), (0x03, 1), (0x04, 2), (0x08, 8), (0x09, 2), (0x0a, 5), (0x0b, 2), (0x0e, 4),
      (0x10, 1), (0x11, 2), (0x12, 5), (0x13, 17), (0x14, 1), (0x15, 2), (0x17, 2), (0x19, 13), (0x1c, 5),
      (0x1d, 8), (0x24, 1), (0x6a, 3), (0x6b, 2), (0xbc, 2), (0xd1, 2), (0xd4, 12), (0xd5, 9), (0xd6, 2),
      (0xd7, 2), (0xda, 1), (0xe0, 5), (0xe1, 2), (0xe8, 2), (0xee, 32), (0xf0, 4), (0xf8, 2), (0xf9, 2),
      (0xfa, 2), (0xfb, 1)]"

definition singletons1_lower :: "nat list" where
  "singletons1_lower =
     [0x0c, 0x27, 0x3b, 0x3e, 0x4e, 0x4f, 0x8f, 0x9e, 0x9e, 0x9f, 0x06, 0x07, 0x09, 0x36, 0x3d, 0x3e, 0x56, 0xf3,
      0xd0, 0xd1, 0x04, 0x14, 0x18, 0x36, 0x37, 0x56, 0x57, 0x7f, 0xaa, 0xae, 0xaf, 0xbd, 0x35, 0xe0, 0x12, 0x87,
      0x89, 0x8e, 0x9e, 0x04, 0x0d, 0x0e, 0x11, 0x12, 0x29, 0x31, 0x34, 0x3a, 0x45, 0x46, 0x49, 0x4a, 0x4e, 0x4f,
      0x64, 0x65, 0x5c, 0xb6, 0xb7, 0x1b, 0x1c, 0x07, 0x08, 0x0a, 0x0b, 0x14, 0x17, 0x36, 0x39, 0x3a, 0xa8, 0xa9,
      0xd8, 0xd9, 0x09, 0x37, 0x90, 0x91, 0xa8, 0x07, 0x0a, 0x3b, 0x3e, 0x66, 0x69, 0x8f, 0x92, 0x6f, 0x5f, 0xee,
      0xef, 0x5a, 0x62, 0x9a, 0x9b, 0x27, 0x28, 0x55, 0x9d, 0xa0, 0xa1, 0xa3, 0xa4, 0xa7, 0xa8, 0xad, 0xba, 0xbc,
      0xc4, 0x06, 0x0b, 0x0c, 0x15, 0x1d, 0x3a, 0x3f, 0x45, 0x51, 0xa6, 0xa7, 0xcc, 0xcd, 0xa0, 0x07, 0x19, 0x1a,
      0x22, 0x25, 0x3e, 0x3f, 0xc5, 0xc6, 0x04, 0x20, 0x23, 0x25, 0x26, 0x28, 0x33, 0x38, 0x3a, 0x48, 0x4a, 0x4c,
      0x50, 0x53, 0x55, 0x56, 0x58, 0x5a, 0x5c, 0x5e, 0x60, 0x63, 0x65, 0x66, 0x6b, 0x73, 0x78, 0x7d, 0x7f, 0x8a,
      0xa4, 0xaa, 0xaf, 0xb0, 0xc0, 0xd0, 0xae, 0xaf, 0x79, 0xcc, 0x6e, 0x6f, 0x93]"

definition normal0 :: "nat list" where
  "normal0 =
     [0x00, 0x20, 0x5f, 0x22, 0x82, 0xdf, 0x04, 0x82, 0x44, 0x08, 0x1b, 0x04, 0x06, 0x11, 0x81, 0xac, 0x0e, 0x80,
      0xab, 0x35, 0x28, 0x0b, 0x80, 0xe0, 0x03, 0x19, 0x08, 0x01, 0x04, 0x2f, 0x04, 0x34, 0x04, 0x07, 0x03, 0x01,
      0x07, 0x06, 0x07, 0x11, 0x0a, 0x50, 0x0f, 0x12, 0x07, 0x55, 0x07, 0x03, 0x04, 0x1c, 0x0a, 0x09, 0x03, 0x08,
      0x03, 0x07, 0x03, 0x02, 0x03, 0x03, 0x03, 0x0c, 0x04, 0x05, 0x03, 0x0b, 0x06, 0x01, 0x0e, 0x15, 0x05, 0x3a,
      0x03, 0x11, 0x07, 0x06, 0x05, 0x10, 0x07, 0x57, 0x07, 0x02, 0x07, 0x15, 0x0d, 0x50, 0x04, 0x43, 0x03, 0x2d,
      0x03, 0x01, 0x04, 0x11, 0x06, 0x0f, 0x0c, 0x3a, 0x04, 0x1d, 0x25, 0x5f, 0x20, 0x6d, 0x04, 0x6a, 0x25, 0x80,
      0xc8, 0x05, 0x82, 0xb0, 0x03, 0x1a, 0x06, 0x82, 0xfd, 0x03, 0x59, 0x07, 0x15, 0x0b, 0x17, 0x09, 0x14, 0x0c,
      0x14, 0x0c, 0x6a, 0x06, 0x0a, 0x06, 0x1a, 0x06, 0x59, 0x07, 0x2b, 0x05, 0x46, 0x0a, 0x2c, 0x04, 0x0c, 0x04,
      0x01, 0x03, 0x31, 0x0b, 0x2c, 0x04, 0x1a, 0x06, 0x0b, 0x03, 0x80, 0xac, 0x06, 0x0a, 0x06, 0x21, 0x3f, 0x4c,
      0x04, 0x2d, 0x03, 0x74, 0x08, 0x3c, 0x03, 0x0f, 0x03, 0x3c, 0x07, 0x38, 0x08, 0x2b, 0x05, 0x82, 0xff, 0x11,
      0x18, 0x08, 0x2f, 0x11, 0x2d, 0x03, 0x20, 0x10, 0x21, 0x0f, 0x80, 0x8c, 0x04, 0x82, 0x97, 0x19, 0x0b, 0x15,
      0x88, 0x94, 0x05, 0x2f, 0x05, 0x3b, 0x07, 0x02, 0x0e, 0x18, 0x09, 0x80, 0xb3, 0x2d, 0x74, 0x0c, 0x80, 0xd6,
      0x1a, 0x0c, 0x05, 0x80, 0xff, 0x05, 0x80, 0xdf, 0x0c, 0xee, 0x0d, 0x03, 0x84, 0x8d, 0x03, 0x37, 0x09, 0x81,
      0x5c, 0x14, 0x80, 0xb8, 0x08, 0x80, 0xcb, 0x2a, 0x38, 0x03, 0x0a, 0x06, 0x38, 0x08, 0x46, 0x08, 0x0c, 0x06,
      0x74, 0x0b, 0x1e, 0x03, 0x5a, 0x04, 0x59, 0x09, 0x80, 0x83, 0x18, 0x1c, 0x0a, 0x16, 0x09, 0x4c, 0x04, 0x80,
      0x8a, 0x06, 0xab, 0xa4, 0x0c, 0x17, 0x04, 0x31, 0xa1, 0x04, 0x81, 0xda, 0x26, 0x07, 0x0c, 0x05, 0x05, 0x80,
      0xa5, 0x11, 0x81, 0x6d, 0x10, 0x78, 0x28, 0x2a, 0x06, 0x4c, 0x04, 0x80, 0x8d, 0x04, 0x80, 0xbe, 0x03, 0x1b,
      0x03, 0x0f, 0x0d]"

definition normal1 :: "nat list" where
  "normal1 =
     [0x5e, 0x22, 0x7b, 0x05, 0x03, 0x04, 0x2d, 0x03, 0x66, 0x03, 0x01, 0x2f, 0x2e, 0x80, 0x82, 0x1d, 0x03, 0x31,
      0x0f, 0x1c, 0x04, 0x24, 0x09, 0x1e, 0x05, 0x2b, 0x05, 0x44, 0x04, 0x0e, 0x2a, 0x80, 0xaa, 0x06, 0x24, 0x04,
      0x24, 0x04, 0x28, 0x08, 0x34, 0x0b, 0x01, 0x80, 0x90, 0x81, 0x37, 0x09, 0x16, 0x0a, 0x08, 0x80, 0x98, 0x39,
      0x03, 0x63, 0x08, 0x09, 0x30, 0x16, 0x05, 0x21, 0x03, 0x1b, 0x05, 0x01, 0x40, 0x38, 0x04, 0x4b, 0x05, 0x2f,
      0x04, 0x0a, 0x07, 0x09, 0x07, 0x40, 0x20, 0x27, 0x04, 0x0c, 0x09, 0x36, 0x03, 0x3a, 0x05, 0x1a, 0x07, 0x04,
      0x0c, 0x07, 0x50, 0x49, 0x37, 0x33, 0x0d, 0x33, 0x07, 0x2e, 0x08, 0x0a, 0x81, 0x26, 0x52, 0x4e, 0x28, 0x08,
      0x2a, 0x56, 0x1c, 0x14, 0x17, 0x09, 0x4e, 0x04, 0x1e, 0x0f, 0x43, 0x0e, 0x19, 0x07, 0x0a, 0x06, 0x48, 0x08,
      0x27, 0x09, 0x75, 0x0b, 0x3f, 0x41, 0x2a, 0x06, 0x3b, 0x05, 0x0a, 0x06, 0x51, 0x06, 0x01, 0x05, 0x10, 0x03,
      0x05, 0x80, 0x8b, 0x62, 0x1e, 0x48, 0x08, 0x0a, 0x80, 0xa6, 0x5e, 0x22, 0x45, 0x0b, 0x0a, 0x06, 0x0d, 0x13,
      0x39, 0x07, 0x0a, 0x36, 0x2c, 0x04, 0x10, 0x80, 0xc0, 0x3c, 0x64, 0x53, 0x0c, 0x48, 0x09, 0x0a, 0x46, 0x45,
      0x1b, 0x48, 0x08, 0x53, 0x1d, 0x39, 0x81, 0x07, 0x46, 0x0a, 0x1d, 0x03, 0x47, 0x49, 0x37, 0x03, 0x0e, 0x08,
      0x0a, 0x06, 0x39, 0x07, 0x0a, 0x81, 0x36, 0x19, 0x80, 0xb7, 0x01, 0x0f, 0x32, 0x0d, 0x83, 0x9b, 0x66, 0x75,
      0x0b, 0x80, 0xc4, 0x8a, 0xbc, 0x84, 0x2f, 0x8f, 0xd1, 0x82, 0x47, 0xa1, 0xb9, 0x82, 0x39, 0x07, 0x2a, 0x04,
      0x02, 0x60, 0x26, 0x0a, 0x46, 0x0a, 0x28, 0x05, 0x13, 0x82, 0xb0, 0x5b, 0x65, 0x4b, 0x04, 0x39, 0x07, 0x11,
      0x40, 0x05, 0x0b, 0x02, 0x0e, 0x97, 0xf8, 0x08, 0x84, 0xd6, 0x2a, 0x09, 0xa2, 0xf7, 0x81, 0x1f, 0x31, 0x03,
      0x11, 0x04, 0x08, 0x81, 0x8c, 0x89, 0x04, 0x6b, 0x05, 0x0d, 0x03, 0x09, 0x07, 0x10, 0x93, 0x60, 0x80, 0xf6,
      0x0a, 0x73, 0x08, 0x6e, 0x17, 0x46, 0x80, 0x9a, 0x14, 0x0c, 0x57, 0x09, 0x19, 0x80, 0x87, 0x81, 0x47, 0x03,
      0x85, 0x42, 0x0f, 0x15, 0x85, 0x50, 0x2b, 0x80, 0xd5, 0x2d, 0x03, 0x1a, 0x04, 0x02, 0x81, 0x70, 0x3a, 0x05,
      0x01, 0x85, 0x00, 0x80, 0xd7, 0x29, 0x4c, 0x04, 0x0a, 0x04, 0x02, 0x83, 0x11, 0x44, 0x4c, 0x3d, 0x80, 0xc2,
      0x3c, 0x06, 0x01, 0x04, 0x55, 0x05, 0x1b, 0x34, 0x02, 0x81, 0x0e, 0x2c, 0x04, 0x64, 0x0c, 0x56, 0x0a, 0x80,
      0xae, 0x38, 0x1d, 0x0d, 0x2c, 0x04, 0x09, 0x07, 0x02, 0x0e, 0x06, 0x80, 0x9a, 0x83, 0xd8, 0x08, 0x0d, 0x03,
      0x0d, 0x03, 0x74, 0x0c, 0x59, 0x07, 0x0c, 0x14, 0x0c, 0x04, 0x38, 0x08, 0x0a, 0x06, 0x28, 0x08, 0x22, 0x4e,
      0x81, 0x54, 0x0c, 0x15, 0x03, 0x03, 0x05, 0x07, 0x09, 0x19, 0x07, 0x07, 0x09, 0x03, 0x0d, 0x07, 0x29, 0x80,
      0xcb, 0x25, 0x0a, 0x84, 0x06]"

fun singletons_loop :: "nat \<Rightarrow> nat \<Rightarrow> (nat \<times> nat) list \<Rightarrow> nat list \<Rightarrow> bool" where
  "singletons_loop upper low [] lowers = True"
| "singletons_loop upper low ((s_upper, lower_count) # singletons) lowers =
     (if upper < s_upper then True
      else if upper = s_upper \<and> low \<in> set (take lower_count lowers) then False
      else singletons_loop upper low singletons (drop lower_count lowers))"

fun normal_loop :: "int \<Rightarrow> bool \<Rightarrow> nat list \<Rightarrow> bool" where
  "normal_loop x current [] = current"
| "normal_loop x current (v # normal) =
     (if v AND 0x80 \<noteq> 0
      then (case normal of
              [] \<Rightarrow> current
            | w # normal' \<Rightarrow>
                (let x = x - int (push_bit 8 (v AND 0x7f) OR w) in
                 if x < 0 then current else normal_loop x (\<not> current) normal'))
      else (let x = x - int v in if x < 0 then current else normal_loop x (\<not> current) normal))"

definition is_printable16 :: "nat \<Rightarrow> (nat \<times> nat) list \<Rightarrow> nat list \<Rightarrow> nat list \<Rightarrow> bool" where
  "is_printable16 x singletons singleton_lowers normal =
     (singletons_loop (drop_bit 8 x) (x AND 0xff) singletons singleton_lowers \<and> normal_loop (int x) True normal)"

definition is_printable :: "u32 \<Rightarrow> bool" where
  "is_printable cp =
     (let low = unat (cp AND 0xFFFF) in
      if cp < 0x10000 then is_printable16 low singletons0 singletons0_lower normal0
      else if cp < 0x20000 then is_printable16 low singletons1 singletons1_lower normal1
      else if 0x2a6de \<le> cp \<and> cp < 0x2a700 then False
      else if 0x2b735 \<le> cp \<and> cp < 0x2b740 then False
      else if 0x2b81e \<le> cp \<and> cp < 0x2b820 then False
      else if 0x2cea2 \<le> cp \<and> cp < 0x2ceb0 then False
      else if 0x2ebe1 \<le> cp \<and> cp < 0x2f800 then False
      else if 0x2fa1e \<le> cp \<and> cp < 0x30000 then False
      else if 0x3134b \<le> cp \<and> cp < 0xe0100 then False
      else if 0xe01f0 \<le> cp \<and> cp < 0x110000 then False
      else cp < 0x110000)"

section \<open>Escaping\<close>

definition needs_escape :: "u32 \<Rightarrow> bool" where
  "needs_escape cp \<longleftrightarrow> cp < 0x20 \<or> cp = 0x7f \<or> cp = 0x22 \<or> cp = 0x5C \<or> \<not> is_printable cp"

text \<open>The text before the code point, and the code point with its characters when there is one.\<close>

definition find_escape :: "string \<Rightarrow> string \<times> (string \<times> u32) option" where
  "find_escape s =
     for_each_codepoint
       (\<lambda>cp sv (front, _). if needs_escape cp then (False, front, Some (sv, cp)) else (True, front @ sv, None))
       s ([], None)"

definition write_codepoint :: "nat \<Rightarrow> char \<Rightarrow> u32 \<Rightarrow> string" where
  "write_codepoint width prefix cp =
     [CHR 0x5C, prefix] @ format_uint 4 (replicate width (CHR ''0'')) (unat cp) width False"

definition write_escaped_cp :: "string \<times> u32 \<Rightarrow> string" where
  "write_escaped_cp escape =
     (let (sv, cp) = escape; c = char_of (unat cp mod 256) in
      if cp = 0x0A then [CHR 0x5C, CHR ''n'']
      else if cp = 0x0D then [CHR 0x5C, CHR ''r'']
      else if cp = 0x09 then [CHR 0x5C, CHR ''t'']
      else if cp = 0x22 \<or> cp = 0x27 \<or> cp = 0x5C then [CHR 0x5C, c]
      else if cp < 0x100 then write_codepoint 2 (CHR ''x'') cp
      else if cp < 0x10000 then write_codepoint 4 (CHR ''u'') cp
      else if cp < 0x110000 then write_codepoint 8 (CHR ''U'') cp
      else concat (map (\<lambda>ch. write_codepoint 2 (CHR ''x'') (of_nat (of_char ch) AND 0xFF)) sv))"

text \<open>
  The loop runs once for the empty text, and ends at a code point that ends the text. What is left
  after a code point is always shorter; it is asked for so that the function is total.
\<close>

function write_escaped_loop :: "string \<Rightarrow> string" where
  "write_escaped_loop s =
     (case find_escape s of
        (front, None) \<Rightarrow> front
      | (front, Some (sv, cp)) \<Rightarrow>
          (let rest = drop (length front + length sv) s in
           front @ write_escaped_cp (sv, cp) @
           (if rest \<noteq> [] \<and> length rest < length s then write_escaped_loop rest else [])))"
  by pat_completeness auto
termination
  by (relation "measure length") simp_all

declare write_escaped_loop.simps [simp del]

definition write_escaped_string :: "string \<Rightarrow> string" where
  "write_escaped_string s = [CHR 0x22] @ write_escaped_loop s @ [CHR 0x22]"

section \<open>Strings with specifications\<close>

definition write_string :: "format_specs \<Rightarrow> string \<Rightarrow> string" where
  "write_string specs s =
     (let size = (if fs_precision specs \<ge> 0 \<and> fs_precision specs < int (length s)
                  then code_point_index s (nat (fs_precision specs)) else length s);
          is_debug = (fs_type specs = Pres_debug);
          width = (if fs_width specs \<noteq> 0
                   then (if is_debug then length (write_escaped_string s) else compute_width (take size s)) else 0)
      in write_padded Align_left specs width (if is_debug then write_escaped_string s else take size s))"

end
