(* ===== verification/Fmt_Specs.thy ===== *)
theory Fmt_Specs
  imports Fmt_Strings Fmt_Text
begin

text \<open>
  Format specifications: \<open>parse_format_specs\<close> of \<open>src/src/lib/fmt-10.1.1/include/fmt/core.h\<close> with what
  it calls. The specifications stand in a fixed order, which the function object \<open>enter_state\<close>
  enforces; the parser reads a character, or a fill with its alignment, at a time. The text is
  what is left of the format string, and goes on behind the field. The parse context is
  \<open>next_arg_id_\<close>: the next argument of automatic numbering, or \<open>-1\<close> after a number was given.

  Shown here: what the parser leaves is never longer than what it got, and what stands after the
  specifications is left as it is.
\<close>

section \<open>Types of arguments\<close>

datatype arg_type =
    None_type | Int_type | Uint_type | Long_long_type | Ulong_long_type | Int128_type | Uint128_type
  | Bool_type | Char_type | Float_type | Double_type | Long_double_type | Cstring_type | String_type
  | Pointer_type | Custom_type

definition sint_set :: "arg_type set" where "sint_set = {Int_type, Long_long_type, Int128_type}"
definition uint_set :: "arg_type set" where "uint_set = {Uint_type, Ulong_long_type, Uint128_type}"
definition bool_set :: "arg_type set" where "bool_set = {Bool_type}"
definition char_set :: "arg_type set" where "char_set = {Char_type}"
definition float_set :: "arg_type set" where "float_set = {Float_type, Double_type, Long_double_type}"
definition string_set :: "arg_type set" where "string_set = {String_type}"
definition cstring_set :: "arg_type set" where "cstring_set = {Cstring_type}"
definition pointer_set :: "arg_type set" where "pointer_set = {Pointer_type}"

definition integral_set :: "arg_type set" where
  "integral_set = sint_set \<union> uint_set \<union> bool_set \<union> char_set"

definition is_arithmetic_type :: "arg_type \<Rightarrow> bool" where
  "is_arithmetic_type t \<longleftrightarrow> t \<in> integral_set \<union> float_set"

section \<open>Arguments by number\<close>

definition next_arg_id :: "int \<Rightarrow> (nat \<times> int) result" where
  "next_arg_id ctx =
     (if ctx < 0 then Inl (Runtime_error ''cannot switch from manual to automatic argument indexing'')
      else Inr (nat ctx, ctx + 1))"

definition check_arg_id :: "int \<Rightarrow> int result" where
  "check_arg_id ctx =
     (if ctx > 0 then Inl (Runtime_error ''cannot switch from automatic to manual argument indexing'')
      else Inr (- 1))"

datatype arg_ref =
    Ref_none
  | Ref_index nat
  | Ref_name string

record dynamic_format_specs = format_specs +
  fs_width_ref :: arg_ref
  fs_precision_ref :: arg_ref

definition default_dynamic_specs :: dynamic_format_specs where
  "default_dynamic_specs = format_specs.extend default_specs \<lparr>fs_width_ref = Ref_none, fs_precision_ref = Ref_none\<rparr>"

text \<open>\<open>dynamic_spec_id_handler\<close>, as a handler whose state is the context and the reference.\<close>

definition dynamic_spec_id_handler :: "(int \<times> arg_ref) format_handler" where
  "dynamic_spec_id_handler =
     \<lparr>fh_text = \<lambda>_ st. Inr st,
      fh_auto = \<lambda>(ctx, _). result_bind (next_arg_id ctx) (\<lambda>(id, ctx). Inr (id, ctx, Ref_index id)),
      fh_index = \<lambda>id (ctx, _). result_bind (check_arg_id ctx) (\<lambda>ctx. Inr (id, ctx, Ref_index id)),
      fh_name = \<lambda>id (ctx, _). Inr (0, ctx, Ref_name id),
      fh_field = \<lambda>_ st. Inr st,
      fh_specs = \<lambda>_ s st. Inr (s, st)\<rparr>"

text \<open>
  A number, or a reference in braces: the value when one was read, the reference, and the context.
  A number that does not fit is marked by a value that no number has, as \<open>-1\<close> in the source.
\<close>

definition parse_dynamic_spec ::
    "string \<Rightarrow> int \<Rightarrow> arg_ref \<Rightarrow> int \<Rightarrow> (int \<times> arg_ref \<times> string \<times> int) result" where
  "parse_dynamic_spec s v ref ctx =
     (if isdigit (hd s) then
        (let (val, rest) = parse_nonnegative_int (INT_MAX + 1) s in
         if val \<noteq> INT_MAX + 1 then Inr (int val, ref, rest, ctx)
         else Inl (Runtime_error ''number is too big''))
      else if hd s = CHR ''{'' then
        result_bind
          (if tl s \<noteq> [] then parse_arg_id dynamic_spec_id_handler (tl s) (ctx, ref) else Inr (0, [], ctx, ref))
          (\<lambda>(_, rest, ctx, ref).
             if rest \<noteq> [] \<and> hd rest = CHR ''}'' then Inr (v, ref, tl rest, ctx)
             else invalid_format)
      else Inr (v, ref, s, ctx))"

definition parse_precision ::
    "string \<Rightarrow> int \<Rightarrow> arg_ref \<Rightarrow> int \<Rightarrow> (int \<times> arg_ref \<times> string \<times> int) result" where
  "parse_precision s v ref ctx =
     (if tl s = [] \<or> hd (tl s) = CHR ''}'' then Inl (Runtime_error ''invalid precision'')
      else parse_dynamic_spec (tl s) v ref ctx)"

section \<open>The parser\<close>

definition parse_align :: "char \<Rightarrow> align" where
  "parse_align c =
     (if c = CHR ''<'' then Align_left else if c = CHR ''>'' then Align_right
      else if c = CHR ''^'' then Align_center else Align_none)"

datatype spec_state =
    At_start | At_align | At_sign | At_hash | At_zero | At_width | At_precision | At_locale

definition spec_rank :: "spec_state \<Rightarrow> nat" where
  "spec_rank s =
     (case s of At_start \<Rightarrow> 0 | At_align \<Rightarrow> 1 | At_sign \<Rightarrow> 2 | At_hash \<Rightarrow> 3 | At_zero \<Rightarrow> 4 | At_width \<Rightarrow> 5
      | At_precision \<Rightarrow> 6 | At_locale \<Rightarrow> 7)"

definition invalid_specifier :: "'a result" where
  "invalid_specifier = Inl (Runtime_error ''invalid format specifier'')"

definition enter_state :: "spec_state \<Rightarrow> spec_state \<Rightarrow> bool \<Rightarrow> spec_state result" where
  "enter_state current_state s valid =
     (if spec_rank current_state \<ge> spec_rank s \<or> \<not> valid then invalid_specifier else Inr s)"

text \<open>The letter of a presentation, and the types of arguments that have it.\<close>

definition presentation_of :: "char \<Rightarrow> (presentation_type \<times> arg_type set) option" where
  "presentation_of c =
     map_of
       [(CHR ''d'', Pres_dec, integral_set), (CHR ''o'', Pres_oct, integral_set),
        (CHR ''x'', Pres_hex_lower, integral_set), (CHR ''X'', Pres_hex_upper, integral_set),
        (CHR ''b'', Pres_bin_lower, integral_set), (CHR ''B'', Pres_bin_upper, integral_set),
        (CHR ''a'', Pres_hexfloat_lower, float_set), (CHR ''A'', Pres_hexfloat_upper, float_set),
        (CHR ''e'', Pres_exp_lower, float_set), (CHR ''E'', Pres_exp_upper, float_set),
        (CHR ''f'', Pres_fixed_lower, float_set), (CHR ''F'', Pres_fixed_upper, float_set),
        (CHR ''g'', Pres_general_lower, float_set), (CHR ''G'', Pres_general_upper, float_set),
        (CHR ''c'', Pres_chr, integral_set), (CHR ''s'', Pres_string, bool_set \<union> string_set \<union> cstring_set),
        (CHR ''p'', Pres_pointer, pointer_set \<union> cstring_set),
        (CHR ''?'', Pres_debug, char_set \<union> string_set \<union> cstring_set)] c"

text \<open>One round of the loop: it returns, or goes on with a state, specifications, text and context.\<close>

datatype spec_step =
    Specs_end dynamic_format_specs string int
  | Specs_more spec_state dynamic_format_specs string int

definition parse_spec :: "arg_type \<Rightarrow> char \<Rightarrow> spec_state \<Rightarrow> dynamic_format_specs \<Rightarrow> string \<Rightarrow> int \<Rightarrow> spec_step result" where
  "parse_spec arg_type c current_state specs s ctx =
     (if c = CHR ''<'' \<or> c = CHR ''>'' \<or> c = CHR ''^'' then
        result_bind (enter_state current_state At_align True) (\<lambda>st.
          Inr (Specs_more st (specs\<lparr>fs_align := parse_align c\<rparr>) (tl s) ctx))
      else if c = CHR ''+'' \<or> c = CHR ''-'' \<or> c = CHR '' '' then
        result_bind (enter_state current_state At_sign (arg_type \<in> sint_set \<union> float_set)) (\<lambda>st.
          Inr (Specs_more st
            (specs\<lparr>fs_sign := (if c = CHR ''+'' then Sign_plus else if c = CHR ''-'' then Sign_minus else Sign_space)\<rparr>)
            (tl s) ctx))
      else if c = CHR ''#'' then
        result_bind (enter_state current_state At_hash (is_arithmetic_type arg_type)) (\<lambda>st.
          Inr (Specs_more st (specs\<lparr>fs_alt := True\<rparr>) (tl s) ctx))
      else if c = CHR ''0'' then
        result_bind (enter_state current_state At_zero True) (\<lambda>st.
          if \<not> is_arithmetic_type arg_type
          then Inl (Runtime_error ''format specifier requires numeric argument'')
          else if fs_align specs = Align_none
          then Inr (Specs_more st
                 (specs\<lparr>fs_align := Align_numeric, fs_fill := (fs_fill specs)[0 := CHR ''0'']\<rparr>) (tl s) ctx)
          else Inr (Specs_more st specs (tl s) ctx))
      else if (CHR ''1'' \<le> c \<and> c \<le> CHR ''9'') \<or> c = CHR ''{'' then
        result_bind (enter_state current_state At_width True) (\<lambda>st.
          result_bind (parse_dynamic_spec s (int (fs_width specs)) (fs_width_ref specs) ctx)
            (\<lambda>(width, ref, rest, ctx).
               Inr (Specs_more st (specs\<lparr>fs_width := nat width, fs_width_ref := ref\<rparr>) rest ctx)))
      else if c = CHR ''.'' then
        result_bind (enter_state current_state At_precision (arg_type \<in> float_set \<union> string_set \<union> cstring_set)) (\<lambda>st.
          result_bind (parse_precision s (fs_precision specs) (fs_precision_ref specs) ctx)
            (\<lambda>(precision, ref, rest, ctx).
               Inr (Specs_more st (specs\<lparr>fs_precision := precision, fs_precision_ref := ref\<rparr>) rest ctx)))
      else if c = CHR ''L'' then
        result_bind (enter_state current_state At_locale (is_arithmetic_type arg_type)) (\<lambda>st.
          Inr (Specs_more st (specs\<lparr>fs_localized := True\<rparr>) (tl s) ctx))
      else (case presentation_of c of
        Some (pres, types) \<Rightarrow>
          if arg_type \<notin> types then invalid_specifier
          else Inr (Specs_end (specs\<lparr>fs_type := pres\<rparr>) (tl s) ctx)
      | None \<Rightarrow>
          if c = CHR ''}'' then Inr (Specs_end specs s ctx)
          else if hd s = CHR ''}'' then Inr (Specs_end specs s ctx)
          else
            (let fill = take (code_point_length (hd s)) s; after_fill = drop (code_point_length (hd s)) s in
             if after_fill = [] then invalid_specifier
             else if hd s = CHR ''{'' then Inl (Runtime_error (''invalid fill character '' @ [CHR 0x27, CHR ''{'', CHR 0x27]))
             else
               (let align = parse_align (hd after_fill) in
                result_bind (enter_state current_state At_align (align \<noteq> Align_none)) (\<lambda>st.
                  Inr (Specs_more st (specs\<lparr>fs_fill := fill, fs_align := align\<rparr>) (tl after_fill) ctx))))))"

lemma enter_state_rank: "enter_state a b valid = Inr c \<Longrightarrow> spec_rank a < spec_rank c \<and> spec_rank c \<le> 7"
  by (cases b) (auto simp: enter_state_def invalid_specifier_def spec_rank_def split: if_splits)

section \<open>What is left is not longer\<close>

lemma parse_int_shorter: "length (snd (parse_nonnegative_int e s)) \<le> length s"
  by (simp add: parse_nonnegative_int_def Let_def length_dropWhile_le split: prod.split)

lemma dynamic_arg_id_shorter:
  "parse_arg_id dynamic_spec_id_handler s st = Inr (k, rest, st') \<Longrightarrow> s \<noteq> [] \<Longrightarrow> length rest \<le> length s"
  using length_dropWhile_le [of is_name_char "tl s"] parse_int_shorter [of INT_MAX s]
  by (auto simp: parse_arg_id_def do_parse_arg_id_def Let_def invalid_format_def result_bind_Inr split: if_splits prod.splits)

lemma dynamic_spec_shorter:
  assumes "parse_dynamic_spec s v ref ctx = Inr (w, ref', rest, ctx')"
  shows "length rest \<le> length s"
  using assms parse_int_shorter [of "INT_MAX + 1" s] dynamic_arg_id_shorter [of "tl s" "(ctx, ref)"]
  by (cases s) (auto simp: parse_dynamic_spec_def Let_def invalid_format_def result_bind_Inr
      dest!: dynamic_arg_id_shorter split: if_splits prod.splits)

lemma precision_shorter:
  "parse_precision s v ref ctx = Inr (w, ref', rest, ctx') \<Longrightarrow> length rest \<le> length s"
  using dynamic_spec_shorter [of "tl s" v ref ctx w ref' rest ctx']
  by (cases s) (auto simp: parse_precision_def split: if_splits)

text \<open>A round goes to a later state and leaves no more than it got.\<close>

definition goes_on :: "string \<Rightarrow> spec_state \<Rightarrow> spec_step result \<Rightarrow> bool" where
  "goes_on s st r \<longleftrightarrow> (\<forall>x. r = Inr x \<longrightarrow> (\<exists>sp s' ctx. x = Specs_more st sp s' ctx \<and> length s' \<le> length s))"

definition step_ok :: "string \<Rightarrow> spec_state \<Rightarrow> spec_step result \<Rightarrow> bool" where
  "step_ok s st r \<longleftrightarrow>
     (\<forall>sp s' ctx. r = Inr (Specs_end sp s' ctx) \<longrightarrow> length s' \<le> length s) \<and>
     (\<forall>st' sp s' ctx. r = Inr (Specs_more st' sp s' ctx) \<longrightarrow>
        length s' \<le> length s \<and> spec_rank st < spec_rank st' \<and> spec_rank st' \<le> 7)"

lemma goes_on_intros:
  "goes_on s st (Inl e)" "length s' \<le> length s \<Longrightarrow> goes_on s st (Inr (Specs_more st sp s' ctx))"
  "(\<And>w ref rest ctx. r = Inr (w, ref, rest, ctx) \<Longrightarrow> goes_on s st (f (w, ref, rest, ctx))) \<Longrightarrow>
     goes_on s st (result_bind r f)"
  "goes_on s st a \<Longrightarrow> goes_on s st b \<Longrightarrow> goes_on s st (if c then a else b)"
  by (auto simp: goes_on_def result_bind_Inr)

lemma step_ok_intros:
  "step_ok s st (Inl e)" "step_ok s st invalid_specifier"
  "length s' \<le> length s \<Longrightarrow> step_ok s st (Inr (Specs_end sp s' ctx))"
  "step_ok s st a \<Longrightarrow> step_ok s st b \<Longrightarrow> step_ok s st (if c then a else b)"
  by (simp_all add: step_ok_def invalid_specifier_def)

lemma step_ok_enter: "(\<And>st'. goes_on s st' (f st')) \<Longrightarrow> step_ok s st (result_bind (enter_state st b valid) f)"
  using enter_state_rank by (fastforce simp: step_ok_def goes_on_def result_bind_Inr)

lemma parse_spec_ok: "step_ok s st (parse_spec t c st specs s ctx)"
  unfolding parse_spec_def Let_def
  by (intro step_ok_intros step_ok_enter goes_on_intros)
    (auto dest: dynamic_spec_shorter precision_shorter split: option.split prod.split
       intro!: step_ok_intros step_ok_enter goes_on_intros)

text \<open>Every round raises the state, so the loop ends.\<close>

function parse_specs_loop ::
    "arg_type \<Rightarrow> char \<Rightarrow> spec_state \<Rightarrow> dynamic_format_specs \<Rightarrow> string \<Rightarrow> int \<Rightarrow> (dynamic_format_specs \<times> string \<times> int) result" where
  "parse_specs_loop t c st specs s ctx =
     (case parse_spec t c st specs s ctx of
        Inl e \<Rightarrow> Inl e
      | Inr (Specs_end specs s ctx) \<Rightarrow> Inr (specs, s, ctx)
      | Inr (Specs_more st specs s ctx) \<Rightarrow>
          if s = [] then Inr (specs, s, ctx) else parse_specs_loop t (hd s) st specs s ctx)"
  by pat_completeness auto
termination
proof (relation "measure (\<lambda>(t, c, st, specs, s, ctx). 7 - spec_rank st)")
  fix t c st specs s ctx r st' specs' s' ctx'
  assume "parse_spec t c st specs s ctx = Inr r" "r = Specs_more st' specs' s' ctx'"
  then show "((t, hd s', st', specs', s', ctx'), t, c, st, specs, s, ctx)
      \<in> measure (\<lambda>(t, c, st, specs, s, ctx). 7 - spec_rank st)"
    using parse_spec_ok [of s st t c specs ctx] by (auto simp: step_ok_def intro: diff_less_mono2)
qed simp

declare parse_specs_loop.simps [simp del]

definition parse_format_specs ::
    "arg_type \<Rightarrow> string \<Rightarrow> int \<Rightarrow> (dynamic_format_specs \<times> string \<times> int) result" where
  "parse_format_specs t s ctx =
     (if s = [] then Inr (default_dynamic_specs, s, ctx)
      else
        (let c = (if length s > 1 then (if parse_align (s ! 1) = Align_none then hd s else CHR 0x00) else hd s) in
         parse_specs_loop t c At_start default_dynamic_specs s ctx))"

lemma parse_specs_loop_shorter:
  assumes "parse_specs_loop t c st specs s ctx = Inr (specs', s', ctx')"
  shows "length s' \<le> length s"
  using assms
proof (induction t c st specs s ctx rule: parse_specs_loop.induct)
  case (1 t c st specs s ctx)
  from "1.prems"(1) obtain r where r: "parse_spec t c st specs s ctx = Inr r"
    by (subst (asm) parse_specs_loop.simps) (auto split: sum.splits)
  note le = parse_spec_ok [of s st t c specs ctx, unfolded r step_ok_def]
  show ?case
  proof (cases r)
    case (Specs_end specs1 s1 ctx1)
    then show ?thesis using "1.prems"(1) r le by (subst (asm) parse_specs_loop.simps) simp
  next
    case (Specs_more st1 specs1 s1 ctx1)
    then show ?thesis
      using "1.prems"(1) r le "1.IH" [OF r Specs_more] by (subst (asm) parse_specs_loop.simps) (auto split: if_splits)
  qed
qed

lemma parse_format_specs_shorter:
  "parse_format_specs t s ctx = Inr (specs, s', ctx') \<Longrightarrow> length s' \<le> length s"
  by (auto simp: parse_format_specs_def Let_def dest!: parse_specs_loop_shorter split: if_splits)

end
