(* ===== verification/Fmt_Format.thy ===== *)
theory Fmt_Format
  imports Fmt_Specs
begin

text \<open>
  Formatting: \<open>vformat_to\<close> of \<open>src/src/lib/fmt-10.1.1/include/fmt/format.h\<close> with its handler, the
  resolution of widths and precisions that are arguments, and \<open>fmt::join\<close>. An argument is an
  integer, a string, or a view that joins such values; these are all the program formats. The
  state of the handler is the output and the parse context. \<open>None\<close> would be a format string
  that is parsed for ever, which does not happen (\<open>vformat_returns\<close>).
\<close>

section \<open>Arguments\<close>

datatype fmt_value =
    Integer_value fmt_integer
  | String_value string

definition type_of_value :: "fmt_value \<Rightarrow> arg_type" where
  "type_of_value v =
     (case v of
        Integer_value (Int_value _) \<Rightarrow> Int_type
      | Integer_value (Uint_value _) \<Rightarrow> Uint_type
      | Integer_value (Long_long_value _) \<Rightarrow> Long_long_type
      | Integer_value (Ulong_long_value _) \<Rightarrow> Ulong_long_type
      | String_value _ \<Rightarrow> String_type)"

text \<open>A joined view has the type of its elements, the elements and the separator.\<close>

datatype fmt_arg =
    Plain_arg fmt_value
  | Join_arg arg_type "fmt_value list" string

definition get_arg :: "fmt_arg list \<Rightarrow> nat \<Rightarrow> fmt_arg result" where
  "get_arg args arg_id = (if arg_id < length args then Inr (args ! arg_id) else Inl (Runtime_error ''argument not found''))"

definition write_default :: "fmt_value \<Rightarrow> string" where
  "write_default v = (case v of Integer_value i \<Rightarrow> write_integer_default i | String_value s \<Rightarrow> s)"

definition write_with_specs :: "format_specs \<Rightarrow> fmt_value \<Rightarrow> string result" where
  "write_with_specs specs v =
     (case v of Integer_value i \<Rightarrow> write_integer i specs | String_value s \<Rightarrow> Inr (write_string specs s))"

section \<open>Widths and precisions that are arguments\<close>

text \<open>\<open>width_checker\<close> and \<open>precision_checker\<close>, which differ in a word of their messages.\<close>

definition check_dynamic :: "string \<Rightarrow> fmt_arg \<Rightarrow> nat result" where
  "check_dynamic what arg =
     (case arg of
        Plain_arg (Integer_value i) \<Rightarrow>
          if is_negative i then Inl (Runtime_error (''negative '' @ what)) else Inr (nat (fmt_int_value i))
      | _ \<Rightarrow> Inl (Runtime_error (what @ '' is not integer'')))"

definition get_dynamic_spec :: "string \<Rightarrow> fmt_arg \<Rightarrow> nat result" where
  "get_dynamic_spec what arg =
     result_bind (check_dynamic what arg) (\<lambda>v.
       if v > INT_MAX then Inl (Runtime_error ''number is too big'') else Inr v)"

definition handle_dynamic_spec :: "string \<Rightarrow> fmt_arg list \<Rightarrow> arg_ref \<Rightarrow> int \<Rightarrow> int result" where
  "handle_dynamic_spec what args ref v =
     (case ref of
        Ref_none \<Rightarrow> Inr v
      | Ref_index arg_id \<Rightarrow>
          result_bind (get_arg args arg_id) (\<lambda>arg. result_bind (get_dynamic_spec what arg) (\<lambda>n. Inr (int n)))
      | Ref_name _ \<Rightarrow> Inl (Runtime_error ''argument not found''))"

definition resolve_specs :: "fmt_arg list \<Rightarrow> dynamic_format_specs \<Rightarrow> format_specs result" where
  "resolve_specs args specs =
     result_bind (handle_dynamic_spec ''width'' args (fs_width_ref specs) (int (fs_width specs))) (\<lambda>width.
     result_bind (handle_dynamic_spec ''precision'' args (fs_precision_ref specs) (fs_precision specs)) (\<lambda>precision.
       Inr (format_specs.truncate (specs\<lparr>fs_width := nat width, fs_precision := precision\<rparr>))))"

section \<open>Joined views\<close>

fun join_text :: "fmt_arg list \<Rightarrow> dynamic_format_specs \<Rightarrow> string \<Rightarrow> fmt_value list \<Rightarrow> string result" where
  "join_text args specs sep [] = Inr []"
| "join_text args specs sep (v # vs) =
     result_bind (resolve_specs args specs) (\<lambda>s.
     result_bind (write_with_specs s v) (\<lambda>text.
       if vs = [] then Inr text
       else result_bind (join_text args specs sep vs) (\<lambda>more. Inr (text @ sep @ more))))"

text \<open>\<open>format_custom_arg\<close>: what it prints, what it leaves of the format string, and the context.\<close>

definition format_custom :: "fmt_arg list \<Rightarrow> arg_type \<Rightarrow> fmt_value list \<Rightarrow> string \<Rightarrow> string \<Rightarrow> int \<Rightarrow> (string \<times> string \<times> int) result" where
  "format_custom args t vs sep s ctx =
     result_bind (parse_format_specs t s ctx) (\<lambda>(specs, rest, ctx).
     result_bind (join_text args specs sep vs) (\<lambda>text. Inr (text, rest, ctx)))"

section \<open>The handler\<close>

record fmt_state =
  fo_out :: string
  fo_ctx :: int

definition on_text :: "string \<Rightarrow> fmt_state \<Rightarrow> fmt_state result" where
  "on_text text st = Inr (st\<lparr>fo_out := fo_out st @ text\<rparr>)"

definition on_auto_arg_id :: "fmt_state \<Rightarrow> (nat \<times> fmt_state) result" where
  "on_auto_arg_id st = result_bind (next_arg_id (fo_ctx st)) (\<lambda>(arg_id, ctx). Inr (arg_id, st\<lparr>fo_ctx := ctx\<rparr>))"

definition on_arg_id :: "nat \<Rightarrow> fmt_state \<Rightarrow> (nat \<times> fmt_state) result" where
  "on_arg_id arg_id st = result_bind (check_arg_id (fo_ctx st)) (\<lambda>ctx. Inr (arg_id, st\<lparr>fo_ctx := ctx\<rparr>))"

text \<open>There are no named arguments.\<close>

definition on_named_arg_id :: "string \<Rightarrow> fmt_state \<Rightarrow> (nat \<times> fmt_state) result" where
  "on_named_arg_id name st = Inl (Runtime_error ''argument not found'')"

definition default_text :: "fmt_arg list \<Rightarrow> fmt_arg \<Rightarrow> string result" where
  "default_text args arg =
     (case arg of
        Plain_arg v \<Rightarrow> Inr (write_default v)
      | Join_arg t vs sep \<Rightarrow> result_bind (format_custom args t vs sep [] 0) (\<lambda>(text, _, _). Inr text))"

definition on_replacement_field :: "fmt_arg list \<Rightarrow> nat \<Rightarrow> fmt_state \<Rightarrow> fmt_state result" where
  "on_replacement_field args arg_id st =
     result_bind (get_arg args arg_id) (\<lambda>arg. result_bind (default_text args arg) (\<lambda>text. on_text text st))"

definition on_format_specs :: "fmt_arg list \<Rightarrow> nat \<Rightarrow> string \<Rightarrow> fmt_state \<Rightarrow> (string \<times> fmt_state) result" where
  "on_format_specs args arg_id s st =
     result_bind (get_arg args arg_id) (\<lambda>arg.
       case arg of
         Join_arg t vs sep \<Rightarrow>
           result_bind (format_custom args t vs sep s (fo_ctx st)) (\<lambda>(text, rest, ctx).
           result_bind (on_text text (st\<lparr>fo_ctx := ctx\<rparr>)) (\<lambda>st. Inr (rest, st)))
       | Plain_arg v \<Rightarrow>
           result_bind (parse_format_specs (type_of_value v) s (fo_ctx st)) (\<lambda>(specs, rest, ctx).
           result_bind (resolve_specs args specs) (\<lambda>specs.
             if rest = [] \<or> hd rest \<noteq> CHR ''}'' then Inl (Runtime_error ''missing '}' in format string'')
             else
               result_bind (write_with_specs specs v) (\<lambda>text.
               result_bind (on_text text (st\<lparr>fo_ctx := ctx\<rparr>)) (\<lambda>st. Inr (rest, st))))))"

definition vformat_handler :: "fmt_arg list \<Rightarrow> fmt_state format_handler" where
  "vformat_handler args =
     \<lparr>fh_text = on_text, fh_auto = on_auto_arg_id, fh_index = on_arg_id, fh_name = on_named_arg_id,
      fh_field = on_replacement_field args, fh_specs = on_format_specs args\<rparr>"

text \<open>The format string \<open>{}\<close> is taken apart from the others.\<close>

definition vformat_to :: "string \<Rightarrow> fmt_arg list \<Rightarrow> string result option" where
  "vformat_to fmt args =
     (if fmt = ''{}''
      then Some (result_bind (get_arg args 0) (default_text args))
      else map_option (\<lambda>r. result_bind r (\<lambda>st. Inr (fo_out st)))
             (parse_format_string (vformat_handler args) fmt \<lparr>fo_out = [], fo_ctx = 0\<rparr>))"

definition println :: "string \<Rightarrow> fmt_arg list \<Rightarrow> string result option" where
  "println fmt args =
     (case vformat_to fmt args of
        None \<Rightarrow> None
      | Some (Inl e) \<Rightarrow> Some (Inl e)
      | Some (Inr text) \<Rightarrow> vformat_to (''{}'' @ [CHR 0x0A]) [Plain_arg (String_value text)])"

lemma on_format_specs_shorter:
  assumes "on_format_specs args arg_id s st = Inr (s', st')"
  shows "length s' \<le> length s"
proof -
  obtain arg where "get_arg args arg_id = Inr arg" using assms by (auto simp: on_format_specs_def result_bind_Inr)
  then show ?thesis
    using assms
    by (cases arg) (auto simp: on_format_specs_def format_custom_def result_bind_Inr
        dest: parse_format_specs_shorter split: if_splits)
qed

interpretation fmt: total_text_handler "vformat_handler args" for args
  by unfold_locales
    (auto simp: vformat_handler_def on_text_def result_bind_def dest: on_format_specs_shorter)

lemma vformat_handler_simps [simp]:
  "fh_text (vformat_handler args) = on_text" "fh_auto (vformat_handler args) = on_auto_arg_id"
  "fh_index (vformat_handler args) = on_arg_id" "fh_name (vformat_handler args) = on_named_arg_id"
  "fh_field (vformat_handler args) = on_replacement_field args" "fh_specs (vformat_handler args) = on_format_specs args"
  by (simp_all add: vformat_handler_def)

section \<open>Formatting\<close>

text \<open>The format string that is taken apart is formatted as it would be by the parser.\<close>

lemma vformat_short:
  "vformat_to fmt args =
     map_option (\<lambda>r. result_bind r (\<lambda>st. Inr (fo_out st)))
       (parse_short (vformat_handler args) [] fmt \<lparr>fo_out = [], fo_ctx = 0\<rparr>)"
proof (cases "fmt = ''{}''")
  case True
  have "parse_short (vformat_handler args) [] ''{}'' st =
      (case result_bind (on_auto_arg_id st) (\<lambda>(k, st). on_replacement_field args k st) of
         Inl e \<Rightarrow> Some (Inl e) | Inr st \<Rightarrow> Some (Inr st))" for st
    using fmt.short_auto [of args "[]" st] by (simp add: fmt.short_end split: sum.split)
  then show ?thesis
    unfolding True
    by (cases "get_arg args 0"; simp add: vformat_to_def on_auto_arg_id_def next_arg_id_def on_replacement_field_def)
      (auto simp: on_text_def result_bind_def split: sum.split)
next
  case False
  then show ?thesis by (simp add: vformat_to_def fmt.parse_format_string_eq)
qed

text \<open>Formatting ends.\<close>

lemma vformat_returns: "vformat_to fmt args \<noteq> None"
  using fmt.parse_format_string_returns [of args fmt] by (simp add: vformat_to_def del: not_None_eq)

text \<open>A format string in parts: text, a field that is numbered automatically, or a field with a number.\<close>

datatype fmt_piece =
    Text_piece string
  | Auto_piece
  | Index_piece nat

fun piece_format :: "fmt_piece \<Rightarrow> string" where
  "piece_format (Text_piece s) = quote_braces s"
| "piece_format Auto_piece = ''{}''"
| "piece_format (Index_piece k) = ''{'' @ dec_of_nat k @ ''}''"

text \<open>What the parts print, from left to right, and the parse context after them.\<close>

fun pieces_text :: "fmt_arg list \<Rightarrow> int \<Rightarrow> fmt_piece list \<Rightarrow> (string \<times> int) result" where
  "pieces_text args ctx [] = Inr ([], ctx)"
| "pieces_text args ctx (Text_piece s # ps) = result_bind (pieces_text args ctx ps) (\<lambda>(t, ctx). Inr (s @ t, ctx))"
| "pieces_text args ctx (Auto_piece # ps) =
     result_bind (next_arg_id ctx) (\<lambda>(arg_id, ctx).
     result_bind (get_arg args arg_id) (\<lambda>arg. result_bind (default_text args arg) (\<lambda>s.
     result_bind (pieces_text args ctx ps) (\<lambda>(t, ctx). Inr (s @ t, ctx)))))"
| "pieces_text args ctx (Index_piece k # ps) =
     result_bind (check_arg_id ctx) (\<lambda>ctx.
     result_bind (get_arg args k) (\<lambda>arg. result_bind (default_text args arg) (\<lambda>s.
     result_bind (pieces_text args ctx ps) (\<lambda>(t, ctx). Inr (s @ t, ctx)))))"

lemma int_digits_eq:
  "int_digits p (of_nat n) s =
     (if s = [] then p else of_nat (foldl (\<lambda>n c. 10 * n + digit_value c) n (butlast s)),
      of_nat (foldl (\<lambda>n c. 10 * n + digit_value c) n s))"
proof (induction s arbitrary: p n)
  case Nil
  then show ?case by simp
next
  case (Cons c s)
  have "int_digits p (of_nat n) (c # s) = int_digits (of_nat n) (of_nat (10 * n + digit_value c)) s"
    by (simp add: mult.commute)
  then show ?case unfolding Cons.IH by (cases "s = []") simp_all
qed

lemma parse_nonnegative_int_dec:
  assumes "k \<le> INT_MAX" "rest = [] \<or> \<not> isdigit (hd rest)"
  shows "parse_nonnegative_int e (dec_of_nat k @ rest) = (k, rest)"
proof -
  let ?d = "dec_of_nat k"
  have split: "takeWhile isdigit (?d @ rest) = ?d" "dropWhile isdigit (?d @ rest) = rest"
    using assms(2) dec_of_nat_isdigit [of _ k] by (cases rest; simp add: takeWhile_append dropWhile_append)+
  have val: "snd (int_digits 0 0 ?d) = of_nat k" "fst (int_digits 0 0 ?d) = of_nat (digits_value (butlast ?d))"
    using int_digits_eq [of 0 0 ?d] digits_value_dec_of_nat [of k] by (simp_all add: digits_value_def)
  have bl: "10 * digits_value (butlast ?d) + digit_value (last ?d) = k"
    using digits_value_snoc [of "butlast ?d" "last ?d"] by simp
  have small: "k < 2 ^ 32" "digits_value (butlast ?d) < 2 ^ 32" using assms(1) bl by (simp_all add: INT_MAX_def)
  then have u: "unat (of_nat k :: u32) = k"
    "unat (of_nat (digits_value (butlast ?d)) :: u32) = digits_value (butlast ?d)"
    by (simp_all add: unat_of_nat take_bit_nat_eq_self)
  have "k < 10 ^ 10" using assms(1) by (simp add: INT_MAX_def)
  then have "length ?d \<le> 10" by (rule length_dec_of_nat_le) simp
  then show ?thesis
    unfolding parse_nonnegative_int_def split Let_def using bl assms(1)
    by (auto simp: val u mult.commute split: prod.split) (use val u bl in auto)
qed

lemma hd_dec_of_nat_pos: "0 < k \<Longrightarrow> hd (dec_of_nat k) \<noteq> CHR ''0''"
proof (induction k rule: dec_of_nat.induct)
  case (1 k)
  show ?case
  proof (cases "k < 10")
    case True
    moreover have "digit_value (CHR ''0'') = 0" by (simp add: digit_value_def)
    ultimately have "digit_char k \<noteq> CHR ''0''" using "1.prems" digit_value_digit_char [of k] by fastforce
    then show ?thesis using True by (simp add: dec_of_nat_small)
  next
    case False
    then show ?thesis using 1 by (simp add: dec_of_nat_step)
  qed
qed

lemma index_parsed:
  assumes "k \<le> INT_MAX"
  shows "parse_arg_id h (dec_of_nat k @ CHR ''}'' # rest) st =
    result_bind (fh_index h k st) (\<lambda>(arg_id, st). Inr (arg_id, CHR ''}'' # rest, st))"
proof -
  have hd: "hd (dec_of_nat k @ CHR ''}'' # rest) = hd (dec_of_nat k)" "isdigit (hd (dec_of_nat k))" by simp_all
  then have "hd (dec_of_nat k) \<noteq> CHR ''}''" "hd (dec_of_nat k) \<noteq> CHR '':''" by (auto simp: isdigit_def)
  moreover have "(if hd (dec_of_nat k) \<noteq> CHR ''0'' then parse_nonnegative_int INT_MAX (dec_of_nat k @ CHR ''}'' # rest)
      else (0, tl (dec_of_nat k @ CHR ''}'' # rest))) = (k, CHR ''}'' # rest)"
    using hd_dec_of_nat_pos [of k] parse_nonnegative_int_dec [OF assms, of "CHR ''}'' # rest"]
    by (cases "k = 0") (simp_all add: dec_of_nat_small digit_chars isdigit_def)
  ultimately show ?thesis unfolding parse_arg_id_def do_parse_arg_id_def hd Let_def by (simp add: hd)
qed

definition good_piece :: "fmt_piece \<Rightarrow> bool" where
  "good_piece p = (case p of Index_piece k \<Rightarrow> k \<le> INT_MAX | _ \<Rightarrow> True)"

lemma result_bind_case:
  "result_bind (result_bind r f) g = result_bind r (\<lambda>x. result_bind (f x) g)"
  "result_bind (case p of (x, y) \<Rightarrow> k x y) g = (case p of (x, y) \<Rightarrow> result_bind (k x y) g)"
  by (auto simp: result_bind_def split: sum.split prod.split)

lemma case_bind_pair:
  "(case result_bind r (\<lambda>st. Inr (x, st)) of Inl e \<Rightarrow> f e | Inr (y, st) \<Rightarrow> g y st) =
     (case r of Inl e \<Rightarrow> f e | Inr st \<Rightarrow> g x st)"
  by (cases r) simp_all

lemma pieces_short:
  assumes "list_all good_piece ps"
  shows "parse_short (vformat_handler args) [] (concat (map piece_format ps)) st =
     Some (result_bind (pieces_text args (fo_ctx st) ps) (\<lambda>(t, ctx). Inr (st\<lparr>fo_out := fo_out st @ t, fo_ctx := ctx\<rparr>)))"
  using assms
proof (induction ps arbitrary: st)
  case Nil
  then show ?case by (simp add: fmt.short_end)
next
  case (Cons p ps)
  let ?h = "vformat_handler args" and ?rest = "concat (map piece_format ps)"
  have field: "(case on_replacement_field args k st1 of
        Inl e \<Rightarrow> Some (Inl e) | Inr st \<Rightarrow> parse_short ?h [] ?rest st) =
      Some (result_bind (get_arg args k) (\<lambda>arg. result_bind (default_text args arg) (\<lambda>s.
        result_bind (pieces_text args (fo_ctx st1) ps) (\<lambda>(t, ctx).
          Inr (st1\<lparr>fo_out := fo_out st1 @ s @ t, fo_ctx := ctx\<rparr>)))))" for k st1
    using Cons by (simp add: on_replacement_field_def on_text_def result_bind_def split: sum.split prod.split)
  show ?case
  proof (cases p)
    case (Text_piece s)
    then show ?thesis using Cons
      by (simp add: fmt.short_quoted on_text_def result_bind_def split: sum.split prod.split)
  next
    case Auto_piece
    show ?thesis
    proof (cases "next_arg_id (fo_ctx st)")
      case (Inl e)
      then show ?thesis using Auto_piece by (simp add: fmt.short_auto [simplified] on_auto_arg_id_def)
    next
      case (Inr r)
      then obtain k ctx where "next_arg_id (fo_ctx st) = Inr (k, ctx)" by (cases r) simp
      then show ?thesis
        using Auto_piece by (simp add: fmt.short_auto [simplified] on_auto_arg_id_def field result_bind_case)
    qed
  next
    case (Index_piece k)
    then have k: "k \<le> INT_MAX" using Cons.prems by (simp add: good_piece_def)
    have "hd (dec_of_nat k) \<noteq> CHR ''}''" "hd (dec_of_nat k) \<noteq> CHR ''{''"
      using hd_dec_of_nat_isdigit [of k] by (auto simp: isdigit_def simp del: hd_dec_of_nat_isdigit)
    then have "parse_short ?h [] (concat (map piece_format (p # ps))) st =
        (case result_bind (on_arg_id k st) (\<lambda>(k, st). on_replacement_field args k st) of
           Inl e \<Rightarrow> Some (Inl e) | Inr st \<Rightarrow> parse_short ?h [] ?rest st)"
      unfolding Index_piece
      by (cases "on_arg_id k st") (auto simp: fmt.short_brace parse_replacement_field_def index_parsed [OF k] result_bind_case case_bind_pair)
    then show ?thesis
      using Index_piece by (cases "check_arg_id (fo_ctx st)") (simp_all add: on_arg_id_def field result_bind_case)
  qed
qed

lemma vformat_of_pieces:
  assumes "list_all good_piece ps"
  shows "vformat_to (concat (map piece_format ps)) args =
    Some (result_bind (pieces_text args 0 ps) (\<lambda>(text, _). Inr text))"
  by (simp add: vformat_short pieces_short [OF assms] result_bind_case)



text \<open>C34: the loop for short format strings and the search for braces of the longer ones do the same, for
  every string and arguments, with the same texts, errors and numbers of arguments, and both return.\<close>

theorem format_loops_agree:
  "parse_short (vformat_handler args) [] s st = parse_long (vformat_handler args) s st \<and>
   parse_long (vformat_handler args) s st \<noteq> None"
  by (rule fmt.short_long)

end
