(* ===== verification/Printed_Texts.thy ===== *)
theory Printed_Texts
  imports Main_Commands Fmt_Format
begin

text \<open>
  The texts the program prints, as \<open>fmt\<close> makes them: the other theories state them as
  concatenations, and here they are shown to be what the format strings of \<open>src/src/main.cpp\<close>,
  \<open>client/client.cpp\<close>, \<open>misc/url.hpp\<close> and \<open>misc/curl.cpp\<close> give for their arguments. A C string is
  passed as a string, which prints the same in a field without specifications.
\<close>

abbreviation string_arg :: "string \<Rightarrow> fmt_arg" where
  "string_arg s \<equiv> Plain_arg (String_value s)"

abbreviation integer_arg :: "fmt_integer \<Rightarrow> fmt_arg" where
  "integer_arg i \<equiv> Plain_arg (Integer_value i)"

text \<open>An \<open>uint8_t\<close> is formatted as an \<open>unsigned\<close>.\<close>

abbreviation byte_value :: "u8 \<Rightarrow> fmt_integer" where
  "byte_value b \<equiv> Uint_value (ucast b)"

definition join_bytes :: "bytes \<Rightarrow> string \<Rightarrow> fmt_arg" where
  "join_bytes bs sep = Join_arg Uint_type (map (\<lambda>b. Integer_value (byte_value b)) bs) sep"

definition join_strings :: "string list \<Rightarrow> string \<Rightarrow> fmt_arg" where
  "join_strings ss sep = Join_arg String_type (map String_value ss) sep"

section \<open>Fields\<close>

lemma fmt_int_value_simps [simp]:
  "fmt_int_value (Int_value i) = sint i" "fmt_int_value (Uint_value i) = uint i"
  "fmt_int_value (Long_long_value w) = sint w" "fmt_int_value (Ulong_long_value w) = uint w"
  by (simp_all add: fmt_int_value_def)

lemma dec_of_uint: "dec_of_int (uint w) = dec_of_nat (unat w)"
  by (simp add: dec_of_int_def)

lemma default_text_plain [simp]:
  "default_text args (string_arg s) = Inr s"
  "default_text args (integer_arg i) = Inr (dec_of_int (fmt_int_value i))"
  by (simp_all add: default_text_def write_default_def write_integer_default_eq)

lemma write_default_specs: "write_with_specs default_specs v = Inr (write_default v)"
proof (cases v)
  case (Integer_value i)
  have "int_presentation Pres_none False (nat \<bar>fmt_int_value i\<bar>) = Some ([], dec_of_nat (nat \<bar>fmt_int_value i\<bar>))"
    by (simp add: int_presentation_def)
  then have "write_integer i default_specs =
      Inr (int_text default_specs (sign_text (is_negative i) Sign_none @ []) (dec_of_nat (nat \<bar>fmt_int_value i\<bar>)))"
    using write_integer_eq [of default_specs i "[]"] by (simp add: default_specs_def)
  then show ?thesis
    unfolding Integer_value
    by (simp add: write_with_specs_def write_default_def write_integer_default_eq int_text_def padded_def
        default_specs_def padding_left_def sign_text_def is_negative_eq dec_of_int_def Let_def)
next
  case (String_value s)
  then show ?thesis
    by (simp add: write_with_specs_def write_default_def write_string_def default_specs_def write_padded_def Let_def)
qed

fun joined :: "string \<Rightarrow> string list \<Rightarrow> string" where
  "joined sep [] = []"
| "joined sep [s] = s"
| "joined sep (s # t # ss) = s @ sep @ joined sep (t # ss)"

lemma join_text_joined:
  assumes "resolve_specs args specs = Inr sp" "\<And>x. write_with_specs sp (g x) = Inr (t x)"
  shows "join_text args specs sep (map g xs) = Inr (joined sep (map t xs))"
proof (induction xs)
  case (Cons x xs)
  then show ?case using assms by (cases xs) simp_all
qed simp

lemma resolve_default: "resolve_specs args default_dynamic_specs = Inr default_specs"
  by (simp add: resolve_specs_def handle_dynamic_spec_def default_dynamic_specs_def default_specs_def
      format_specs.defs)

lemma default_text_join [simp]: "default_text args (Join_arg t vs sep) = Inr (joined sep (map write_default vs))"
  using join_text_joined [OF resolve_default, where g = "\<lambda>v. v" and t = write_default, of args sep vs]
  by (simp add: default_text_def format_custom_def parse_format_specs_def write_default_specs)

text \<open>\<open>{:02x}\<close> of a byte.\<close>

definition hex02_specs :: dynamic_format_specs where
  "hex02_specs = default_dynamic_specs
     \<lparr>fs_align := Align_numeric, fs_fill := ''0'', fs_width := 2, fs_width_ref := Ref_none, fs_type := Pres_hex_lower\<rparr>"

lemma default_specs_sel:
  "fs_fill default_dynamic_specs = '' ''" "fs_align default_dynamic_specs = Align_none"
  "fs_width_ref default_dynamic_specs = Ref_none"
  by (simp_all add: default_dynamic_specs_def default_specs_def format_specs.defs)

lemma parse_hex02: "parse_format_specs Uint_type ''02x}'' 1 = Inr (hex02_specs, ''}'', 1)"
proof -
  let ?zero = "default_dynamic_specs\<lparr>fs_align := Align_numeric, fs_fill := ''0''\<rparr>"
  have zero: "parse_spec Uint_type (CHR ''0'') At_start default_dynamic_specs ''02x}'' 1 =
      Inr (Specs_more At_zero ?zero ''2x}'' 1)"
    by (simp add: parse_spec_def enter_state_def spec_rank_def is_arithmetic_type_def integral_set_def uint_set_def
        default_specs_sel)
  have "parse_nonnegative_int (INT_MAX + 1) ''2x}'' = (2, ''x}'')"
    by (simp add: parse_nonnegative_int_def isdigit_def less_eq_char_def digit_value_def)
  then have two: "parse_spec Uint_type (CHR ''2'') At_zero sp ''2x}'' 1 =
      Inr (Specs_more At_width (sp\<lparr>fs_width := 2, fs_width_ref := fs_width_ref sp\<rparr>) ''x}'' 1)" for sp
    by (simp add: parse_spec_def enter_state_def spec_rank_def parse_dynamic_spec_def isdigit_def INT_MAX_def less_eq_char_def)
  have hex: "parse_spec Uint_type (CHR ''x'') At_width sp ''x}'' 1 = Inr (Specs_end (sp\<lparr>fs_type := Pres_hex_lower\<rparr>) ''}'' 1)" for sp
    by (simp add: parse_spec_def presentation_of_def integral_set_def uint_set_def less_eq_char_def)
  have three: "parse_specs_loop Uint_type (CHR ''x'') At_width sp ''x}'' 1 = Inr (sp\<lparr>fs_type := Pres_hex_lower\<rparr>, ''}'', 1)" for sp
    by (subst parse_specs_loop.simps) (simp add: hex)
  have "parse_specs_loop Uint_type (CHR ''2'') At_zero ?zero ''2x}'' 1 = Inr (hex02_specs, ''}'', 1)"
    by (subst parse_specs_loop.simps) (simp add: two three hex02_specs_def default_specs_sel)
  then have "parse_specs_loop Uint_type (CHR ''0'') At_start default_dynamic_specs ''02x}'' 1 = Inr (hex02_specs, ''}'', 1)"
    by (subst parse_specs_loop.simps) (simp add: zero)
  then show ?thesis by (simp add: parse_format_specs_def parse_align_def)
qed

lemma nibble_digit: "d < 16 \<Longrightarrow> digit_in_base 4 False d = hex_digit d"
  by (simp add: digit_in_base_def lower_digits_def hex_digits_nth)

lemma write_hex02:
  assumes "resolve_specs args hex02_specs = Inr sp"
  shows "write_integer (byte_value b) sp = Inr (hex_of_byte b)"
proof -
  have sp: "sp = default_specs\<lparr>fs_width := 2, fs_align := Align_numeric, fs_fill := ''0'', fs_type := Pres_hex_lower\<rparr>"
    using assms by (simp add: resolve_specs_def handle_dynamic_spec_def hex02_specs_def default_dynamic_specs_def
        default_specs_def format_specs.defs)
  have b: "unat b < 256" using unsigned_less [of b] by simp
  have "unat b < 2 ^ 32" by (rule order_less_trans [OF b]) simp
  then have u: "unat (ucast b :: u32) = unat b" by (simp add: unsigned_ucast_eq take_bit_nat_eq_self)
  have not_neg: "\<not> is_negative (byte_value b)" by (simp add: is_negative_def)
  have digits: "replicate (2 - length (notation_in_base 4 False (unat b))) (CHR ''0'') @ notation_in_base 4 False (unat b) =
      hex_of_byte b"
  proof (cases "unat b < 16")
    case True
    then show ?thesis
      by (subst (1 2) notation_in_base.simps) (simp add: hex_of_byte_def nibble_digit zero_hex_digit)
  next
    case False
    then have "notation_in_base 4 False (unat b) = [hex_digit (unat b div 16), hex_digit (unat b mod 16)]"
      using b by (subst notation_in_base.simps, subst notation_in_base.simps) (simp add: nibble_digit)
    then show ?thesis by (simp add: hex_of_byte_def)
  qed
  have "write_integer (byte_value b) sp =
      Inr (int_text sp (sign_text (is_negative (byte_value b)) (fs_sign sp) @ []) (notation_in_base 4 False (unat b)))"
    by (rule write_integer_eq) (simp_all add: sp default_specs_def int_presentation_def u)
  then show ?thesis
    using digits by (simp add: not_neg sp default_specs_def int_text_def sign_text_def Let_def)
qed

section \<open>Printing a line\<close>

lemma println_eq: "vformat_to fmt args = Some (Inr text) \<Longrightarrow> println fmt args = Some (Inr (text @ newline))"
proof -
  have nl: "''{}'' @ [CHR 0x0A] = concat (map piece_format [Auto_piece, Text_piece newline])"
    by (simp add: quote_braces_def newline_def)
  have "vformat_to (''{}'' @ [CHR 0x0A]) [string_arg text] = Some (Inr (text @ newline))"
    unfolding nl by (subst vformat_of_pieces) (simp_all add: good_piece_def next_arg_id_def get_arg_def)
  then show "vformat_to fmt args = Some (Inr text) \<Longrightarrow> println fmt args = Some (Inr (text @ newline))"
    by (simp add: println_def)
qed

lemma format_pieces:
  assumes "fmt = concat (map piece_format ps)" "list_all good_piece ps" "pieces_text args 0 ps = Inr (text, ctx)"
  shows "vformat_to fmt args = Some (Inr text)"
  unfolding assms(1) by (simp add: vformat_of_pieces [OF assms(2)] assms(3))

lemma index_digits: "dec_of_nat 0 = ''0''" "dec_of_nat 1 = ''1''" "dec_of_nat 2 = ''2''" "dec_of_nat 3 = ''3''"
  by (simp_all add: dec_of_nat_small digit_chars)

lemmas format_simps = good_piece_def next_arg_id_def check_arg_id_def get_arg_def INT_MAX_def

lemma joined_concat: "joined [] ss = concat ss"
proof (induction ss)
  case (Cons s ss)
  then show ?case by (cases ss) simp_all
qed simp

lemma format_hex:
  "vformat_to ''{:02x}'' [join_bytes bs []] = Some (Inr (hex_of_bytes bs))"
proof -
  let ?args = "[join_bytes bs []]"
  obtain sp where sp: "resolve_specs ?args hex02_specs = Inr sp"
    by (simp add: resolve_specs_def handle_dynamic_spec_def hex02_specs_def default_dynamic_specs_def format_specs.defs)
  have "join_text ?args hex02_specs [] (map (\<lambda>b. Integer_value (byte_value b)) bs) =
      Inr (joined [] (map hex_of_byte bs))"
    by (rule join_text_joined [OF sp]) (simp add: write_with_specs_def write_hex02 [OF sp])
  then have custom: "format_custom ?args Uint_type (map (\<lambda>b. Integer_value (byte_value b)) bs) [] ''02x}'' 1 =
      Inr (hex_of_bytes bs, ''}'', 1)"
    by (simp add: format_custom_def parse_hex02 joined_concat hex_of_bytes_def)
  have "parse_short (vformat_handler ?args) [] ''{:02x}'' \<lparr>fo_out = [], fo_ctx = 0\<rparr> =
      Some (Inr \<lparr>fo_out = hex_of_bytes bs, fo_ctx = 1\<rparr>)"
    using custom by (simp add: fmt.short_brace fmt.short_end parse_replacement_field_def parse_arg_id_def
      on_auto_arg_id_def next_arg_id_def on_format_specs_def get_arg_def join_bytes_def on_text_def)
  then show ?thesis by (simp add: vformat_short)
qed

section \<open>The texts of the program\<close>

definition info_format :: string where
  "info_format = ''Tracker URL: {0}'' @ newline @ ''Length: {1}'' @ newline @ ''Info Hash: {2}'' @ newline @
     ''Piece Length: {3}''"

definition info_args :: "string \<Rightarrow> u64 \<Rightarrow> string \<Rightarrow> u64 \<Rightarrow> fmt_arg list" where
  "info_args announce len hash plen =
     [string_arg announce, integer_arg (Long_long_value len), string_arg hash, integer_arg (Long_long_value plen)]"

lemma println_info:
  assumes "mi_length meta = sint len" "mi_piece_length meta = sint plen"
  shows "println info_format (info_args (mi_announce meta) len hash plen) = Some (Inr (info_text meta hash))"
proof -
  let ?ps = "[Text_piece ''Tracker URL: '', Index_piece 0, Text_piece (newline @ ''Length: ''), Index_piece 1,
      Text_piece (newline @ ''Info Hash: ''), Index_piece 2, Text_piece (newline @ ''Piece Length: ''), Index_piece 3]"
  have "info_format = concat (map piece_format ?ps)"
    by (simp add: info_format_def quote_braces_def newline_def index_digits [simplified])
  then have "vformat_to info_format (info_args (mi_announce meta) len hash plen) =
      Some (Inr (''Tracker URL: '' @ mi_announce meta @ newline @ ''Length: '' @ dec_of_int (mi_length meta) @ newline @
        ''Info Hash: '' @ hash @ newline @ ''Piece Length: '' @ dec_of_int (mi_piece_length meta)))"
    by (rule format_pieces) (simp_all add: format_simps info_args_def assms)
  from println_eq [OF this] show ?thesis by (simp add: info_text_def)
qed

lemma println_pieces:
  "println ''{:02x}'' [join_bytes bs []] = Some (Inr (hex_of_bytes bs @ newline))"
  by (rule println_eq [OF format_hex])

lemma join_lines_joined: "join_lines ss = joined newline ss"
  by (induction ss rule: join_lines.induct) simp_all

lemma println_peers: "println ''{}'' [join_strings peers newline] = Some (Inr (join_lines peers @ newline))"
proof (rule println_eq)
  show "vformat_to ''{}'' [join_strings peers newline] = Some (Inr (join_lines peers))"
    by (simp add: vformat_to_def get_arg_def join_strings_def write_default_def comp_def join_lines_joined)
qed

lemma println_peer_id: "println ''Peer ID: {}'' [string_arg peer_id] = Some (Inr (''Peer ID: '' @ peer_id @ newline))"
proof -
  have "vformat_to ''Peer ID: {}'' [string_arg peer_id] = Some (Inr (''Peer ID: '' @ peer_id))"
    by (rule format_pieces [of _ "[Text_piece ''Peer ID: '', Auto_piece]"])
      (simp_all add: format_simps quote_braces_def)
  from println_eq [OF this] show ?thesis by simp
qed

lemma format_downloaded:
  "vformat_to ''Piece {} downloaded to {}.'' [integer_arg (Ulong_long_value idx), string_arg path] =
     Some (Inr (''Piece '' @ dec_of_nat (unat idx) @ '' downloaded to '' @ path @ ''.''))"
  "vformat_to ''Downloaded {} to {}.'' [string_arg file, string_arg path] =
     Some (Inr (''Downloaded '' @ file @ '' to '' @ path @ ''.''))"
  by (rule format_pieces [of _ "[Text_piece ''Piece '', Auto_piece, Text_piece '' downloaded to '', Auto_piece, Text_piece ''.'']"],
      simp_all add: format_simps quote_braces_def dec_of_uint)
    (rule format_pieces [of _ "[Text_piece ''Downloaded '', Auto_piece, Text_piece '' to '', Auto_piece, Text_piece ''.'']"],
      simp_all add: format_simps quote_braces_def)

text \<open>The query of the tracker and the addresses of the peers.\<close>

lemma format_query: "vformat_to ''{0}={1}'' [string_arg name, string_arg param] = Some (Inr (name @ ''='' @ param))"
  by (rule format_pieces [of _ "[Index_piece 0, Text_piece ''='', Index_piece 1]"])
    (simp_all add: format_simps quote_braces_def index_digits [simplified])

lemma format_address:
  "vformat_to ''{}:{}'' [string_arg ip, string_arg port] = Some (Inr (ip @ '':'' @ port))"
  "vformat_to ''{0}:{1}'' [string_arg ip, integer_arg (Int_value p)] = Some (Inr (ip @ '':'' @ dec_of_int (sint p)))"
  by (rule format_pieces [of _ "[Auto_piece, Text_piece '':'', Auto_piece]"], simp_all add: format_simps quote_braces_def)
    (rule format_pieces [of _ "[Index_piece 0, Text_piece '':'', Index_piece 1]"],
      simp_all add: format_simps quote_braces_def index_digits [simplified])

lemma format_ip:
  "vformat_to ''{}.{}.{}.{}'' (map (\<lambda>b. integer_arg (byte_value b)) [a, b, c, d]) =
     Some (Inr (dec_of_nat (unat a) @ ''.'' @ dec_of_nat (unat b) @ ''.'' @ dec_of_nat (unat c) @ ''.'' @ dec_of_nat (unat d)))"
proof -
  have "dec_of_int (uint (ucast w :: u32)) = dec_of_nat (unat w)" for w :: u8
  proof -
    have "unat w < 2 ^ 32" using unat_u8_less [of w] by (rule order_less_trans) simp
    then have "unat (ucast w :: u32) = unat w" by (simp add: unsigned_ucast_eq take_bit_nat_eq_self)
    then show ?thesis by (simp only: dec_of_uint)
  qed
  then show ?thesis
    by (intro format_pieces [of _ "[Auto_piece, Text_piece ''.'', Auto_piece, Text_piece ''.'', Auto_piece, Text_piece ''.'', Auto_piece]"])
      (simp_all add: format_simps quote_braces_def)
qed

section \<open>The command \<open>info\<close>\<close>

text \<open>Lines that are printed one after the other.\<close>

fun println_all :: "(string \<times> fmt_arg list) list \<Rightarrow> string result option" where
  "println_all [] = Some (Inr [])"
| "println_all ((fmt, args) # lines) =
     (case println fmt args of
        None \<Rightarrow> None
      | Some (Inl e) \<Rightarrow> Some (Inl e)
      | Some (Inr text) \<Rightarrow> map_option (\<lambda>r. result_bind r (\<lambda>more. Inr (text @ more))) (println_all lines))"

definition info_calls :: "metainfo \<Rightarrow> string \<Rightarrow> bytes list \<Rightarrow> (string \<times> fmt_arg list) list" where
  "info_calls meta hash pieces =
     [(info_format, info_args (mi_announce meta) (word_of_int (mi_length meta)) hash (word_of_int (mi_piece_length meta))),
      (''Piece Hashes:'', [])] @
     map (\<lambda>piece. (''{:02x}'', [join_bytes piece []])) pieces"

lemma println_info_calls:
  assumes "mi_length meta = sint (word_of_int (mi_length meta) :: u64)"
    "mi_piece_length meta = sint (word_of_int (mi_piece_length meta) :: u64)"
  shows "println_all (info_calls meta hash ps) = Some (Inr (info_lines meta hash ps))"
proof -
  have pieces: "println_all (map (\<lambda>piece. (''{:02x}'', [join_bytes piece []])) ps) =
      Some (Inr (concat (map (\<lambda>piece. hex_of_bytes piece @ newline) ps)))"
    by (induction ps) (simp_all add: println_pieces)
  have "vformat_to ''Piece Hashes:'' [] = Some (Inr ''Piece Hashes:'')"
    by (rule format_pieces [of _ "[Text_piece ''Piece Hashes:'']"]) (simp_all add: format_simps quote_braces_def)
  note heading = println_eq [OF this]
  show ?thesis
    using println_info [OF assms, of hash] heading pieces by (simp add: info_calls_def info_lines_def)
qed

lemma sint_in_range: "- (2 ^ 63) \<le> i \<Longrightarrow> i < 2 ^ 63 \<Longrightarrow> sint (word_of_int i :: u64) = i"
  by (simp add: signed_of_int signed_take_bit_int_eq_self)

lemma get_integer_in_range:
  assumes "bencodable (Json_object info)" "\<exists>j. object_find info k = Some j \<and> get_integer j = Inr i"
  shows "i = sint (word_of_int i :: u64)"
proof -
  obtain j where j: "object_find info k = Some j" "get_integer j = Inr i" using assms(2) by blast
  then have "bencodable j" using object_find_bencodable [OF assms(1)] by blast
  then have "- (2 ^ 63) \<le> i \<and> i < 2 ^ 63" using j(2) by (cases j) (auto simp: get_integer_def)
  then show ?thesis by (simp add: sint_in_range)
qed

text \<open>C32: what the command \<open>info\<close> prints for an accepted torrent file is what \<open>fmt\<close> makes of the format
  strings in the source and their arguments, line by line: 64-bit numbers in decimal notation, every
  piece hash as a view of its bytes that is joined with the specification for two hexadecimal digits.\<close>

theorem info_is_formatted:
  assumes "wd_file world path = Some content" "metainfo_from_file content True = Inr (Some m)"
    and "int (length content) < 2 ^ 63" "metainfo_pieces m = Inr ps"
  shows "\<exists>hash text. metainfo_hash m = Inr hash \<and> println_all (info_calls m hash ps) = Some (Inr text) \<and>
    info_command world path = Some (returns text Success)"
proof -
  obtain enc obj info where shape: "decode_bencoded_value content = Inr (Some (enc, Json_object obj))"
    "object_find obj ''info'' = Some (Json_object info)"
    "\<exists>j. object_find info ''length'' = Some j \<and> get_integer j = Inr (mi_length m)"
    "\<exists>j. object_find info ''piece length'' = Some j \<and> get_integer j = Inr (mi_piece_length m)"
    by (rule metainfo_strict_shape [OF assms(2)])
  obtain hash where hash: "metainfo_hash m = Inr hash" using metainfo_hash_strict [OF assms(2,3)] by blast
  have "bencodable (Json_object obj)" using decode_bencodable(1) [OF assms(3) shape(1)] by simp
  then have ben: "bencodable (Json_object info)" by (rule object_find_bencodable [OF _ shape(2)])
  have "println_all (info_calls m hash ps) = Some (Inr (info_lines m hash ps))"
    by (rule println_info_calls [OF get_integer_in_range [OF ben shape(3)] get_integer_in_range [OF ben shape(4)]])
  moreover have "info_command world path = Some (returns (info_lines m hash ps) Success)"
    using assms(1,2,4) hash by (simp add: info_command_def with_metainfo_def info_lines_def)
  ultimately show ?thesis using hash by blast
qed

theorem info_is_formatted_witness:
  "\<exists>hash text. metainfo_hash example_metainfo = Inr hash \<and>
     println_all (info_calls example_metainfo hash [replicate 20 255, replicate 20 255]) = Some (Inr text) \<and>
     info_command example_world ''f'' = Some (returns text Success)"
  by (rule info_is_formatted [OF example_world_file example_from_file example_torrent_short example_pieces])

end
