(* ===== verification/Worker_Threads.thy ===== *)
theory Worker_Threads
  imports Many_Peers
begin

text \<open>
  The download of a file with the threads of its workers (\<open>src/src/client/download_file.cpp\<close> and
  \<open>src/src/client/piece.hpp\<close>): between the start of a worker and the join that waits for it, the
  thread may run at any time, before, after or between the threads of the other workers and the
  steps of the main thread. A join blocks until the thread has run.

  The theory \<open>Download_File\<close> runs every thread at its join. Shown here: a schedule of the threads never
  blocks for ever and never runs for ever when that sequential download returns, and every
  schedule ends with what the sequential download ends with.
\<close>

section \<open>The main thread and the workers' threads\<close>

text \<open>
  A worker as the main thread left it, with what its thread has made of it once it has run. A
  thread uses its own worker and the torrent, which does not change.
\<close>

type_synonym threaded = "piece_worker \<times> (unit result \<times> piece_worker) option"

datatype main_pc =
    At_round
  | At_worker nat
  | Ended "files result"

record download_state =
  ds_pc :: main_pc
  ds_pieces :: "nat list"
  ds_files :: files
  ds_workers :: "threaded list"

definition started_round :: "nat list \<Rightarrow> threaded list \<Rightarrow> threaded list" where
  "started_round pieces ws = zip (fst (start_workers pieces (map fst ws))) (map snd ws)"

inductive sched :: "download_state \<Rightarrow> download_state \<Rightarrow> bool" where
  thread_runs: "k < length (ds_workers s) \<Longrightarrow> ds_workers s ! k = (w, None) \<Longrightarrow> pw_thread w = Some j \<Longrightarrow>
    sched s (s\<lparr>ds_workers := (ds_workers s)[k := (w, Some (run_job j (w\<lparr>pw_thread := None\<rparr>)))]\<rparr>)"
| no_pieces_left: "ds_pc s = At_round \<Longrightarrow> ds_pieces s = [] \<Longrightarrow>
    sched s (s\<lparr>ds_pc := Ended (Inr (ds_files s))\<rparr>)"
| round_starts: "ds_pc s = At_round \<Longrightarrow> ds_pieces s \<noteq> [] \<Longrightarrow>
    sched s (s\<lparr>ds_pc := At_worker 0, ds_workers := started_round (ds_pieces s) (ds_workers s)\<rparr>)"
| round_ends: "ds_pc s = At_worker (length (ds_workers s)) \<Longrightarrow> sched s (s\<lparr>ds_pc := At_round\<rparr>)"
| not_started: "ds_pc s = At_worker k \<Longrightarrow> k < length (ds_workers s) \<Longrightarrow>
    \<not> started (fst (ds_workers s ! k)) \<Longrightarrow> sched s (s\<lparr>ds_pc := At_worker (Suc k)\<rparr>)"
| join_fails: "ds_pc s = At_worker k \<Longrightarrow> k < length (ds_workers s) \<Longrightarrow>
    ds_workers s ! k = (w, Some (Inl e, w')) \<Longrightarrow>
    sched s (s\<lparr>ds_pc := Ended (Inl e), ds_workers := (ds_workers s)[k := (w', None)]\<rparr>)"
| join_raises: "ds_pc s = At_worker k \<Longrightarrow> k < length (ds_workers s) \<Longrightarrow>
    ds_workers s ! k = (w, Some (Inr (), w')) \<Longrightarrow> \<not> pw_complete w' \<Longrightarrow> \<not> pw_have_mode w' \<Longrightarrow>
    sched s (s\<lparr>ds_pc := Ended (Inl (raise w')), ds_workers := (ds_workers s)[k := (w', None)]\<rparr>)"
| join_passed_over: "ds_pc s = At_worker k \<Longrightarrow> k < length (ds_workers s) \<Longrightarrow>
    ds_workers s ! k = (w, Some (Inr (), w')) \<Longrightarrow> \<not> pw_complete w' \<Longrightarrow> pw_have_mode w' \<Longrightarrow>
    sched s (s\<lparr>ds_pc := At_worker (Suc k), ds_workers := (ds_workers s)[k := (w', None)]\<rparr>)"
| join_twice: "ds_pc s = At_worker k \<Longrightarrow> k < length (ds_workers s) \<Longrightarrow>
    ds_workers s ! k = (w, Some (Inr (), w')) \<Longrightarrow> pw_complete w' \<Longrightarrow>
    pop_piece (ds_pieces s) (pw_last_piece_idx w') = Inl e \<Longrightarrow>
    sched s (s\<lparr>ds_pc := Ended (Inl e), ds_workers := (ds_workers s)[k := (w', None)]\<rparr>)"
| join_collected: "ds_pc s = At_worker k \<Longrightarrow> k < length (ds_workers s) \<Longrightarrow>
    ds_workers s ! k = (w, Some (Inr (), w')) \<Longrightarrow> pw_complete w' \<Longrightarrow>
    pop_piece (ds_pieces s) (pw_last_piece_idx w') = Inr pieces \<Longrightarrow>
    sched s (s\<lparr>ds_pc := At_worker (Suc k), ds_pieces := pieces,
      ds_files := write_piece (pw_buffer w') (pw_last_piece_idx w') (ds_files s),
      ds_workers := (ds_workers s)[k := (w', None)]\<rparr>)"

definition initial_state :: "nat list \<Rightarrow> piece_worker list \<Rightarrow> files \<Rightarrow> download_state" where
  "initial_state pieces workers files =
     \<lparr>ds_pc = At_round, ds_pieces = pieces, ds_files = files, ds_workers = map (\<lambda>w. (w, None)) workers\<rparr>"

section \<open>The invariant\<close>

text \<open>What a thread has left is what it was started to do, so a worker without a thread has left nothing.\<close>

definition faithful :: "threaded \<Rightarrow> bool" where
  "faithful = (\<lambda>(w, out). case out of
     None \<Rightarrow> True
   | Some r \<Rightarrow> \<exists>j. pw_thread w = Some j \<and> r = run_job j (w\<lparr>pw_thread := None\<rparr>))"

definition consistent :: "download_state \<Rightarrow> bool" where
  "consistent s \<longleftrightarrow> list_all faithful (ds_workers s) \<and>
     (case ds_pc s of At_worker k \<Rightarrow> k \<le> length (ds_workers s) | _ \<Rightarrow> True)"

lemma faithful_None [simp]: "faithful (w, None)"
  by (simp add: faithful_def)

lemma faithful_update: "list_all faithful ws \<Longrightarrow> faithful x \<Longrightarrow> list_all faithful (ws[k := x])"
  by (auto simp: list_all_iff dest: set_update_subset_insert [THEN subsetD])

lemma faithful_run: "pw_thread w = Some j \<Longrightarrow> faithful (w, Some (run_job j (w\<lparr>pw_thread := None\<rparr>)))"
  by (simp add: faithful_def)

lemma length_assign [simp]: "length (fst (assign is ws)) = length ws"
  by (induction "is" ws rule: assign.induct) (auto split: prod.splits)

lemma length_start_workers [simp]: "length (fst (start_workers ps ws)) = length ws"
  by (simp add: start_workers_def Let_def)

lemma assign_started:
  "k < length ws \<Longrightarrow> started (ws ! k) \<Longrightarrow> fst (assign is ws) ! k = ws ! k"
  by (induction "is" ws arbitrary: k rule: assign.induct)
    (auto simp: nth_Cons' split: prod.splits if_splits)

lemma map_fst_started_round [simp]:
  "map fst (started_round ps ws) = fst (start_workers ps (map fst ws))"
  by (simp add: started_round_def)

lemma length_started_round [simp]: "length (started_round ps ws) = length ws"
  by (simp add: started_round_def)

lemma faithful_started_round:
  assumes "list_all faithful ws"
  shows "list_all faithful (started_round ps ws)"
  unfolding list_all_length
proof (intro allI impI)
  fix k assume k: "k < length (started_round ps ws)"
  then have e: "started_round ps ws ! k = (fst (start_workers ps (map fst ws)) ! k, snd (ws ! k))"
    by (simp add: started_round_def)
  show "faithful (started_round ps ws ! k)"
  proof (cases "snd (ws ! k)")
    case (Some r)
    moreover have f: "faithful (ws ! k)" using assms k by (simp add: list_all_length)
    ultimately have "started (map fst ws ! k)" using k
      by (cases "ws ! k") (auto simp: faithful_def started_def)
    then have "fst (start_workers ps (map fst ws)) ! k = fst (ws ! k)"
      using k assign_started [of k "map fst ws"] by (simp add: start_workers_def Let_def)
    with e f show ?thesis by simp
  qed (simp add: e)
qed

lemma consistent_step: "sched s s' \<Longrightarrow> consistent s \<Longrightarrow> consistent s'"
  by (induction rule: sched.induct)
    (auto simp: consistent_def faithful_started_round faithful_run intro!: faithful_update split: main_pc.splits)

section \<open>Every schedule ends as the sequential download\<close>

text \<open>What the sequential download makes of a state in which some threads have already run.\<close>

definition sequential :: "download_state \<Rightarrow> files result option" where
  "sequential s =
     (let ws = map fst (ds_workers s) in
      case ds_pc s of
        At_round \<Rightarrow> download_rounds (ds_pieces s) ws (ds_files s)
      | At_worker k \<Rightarrow>
          (case collect (drop k ws) (ds_pieces s) (ds_files s) of
             (Inl e, _) \<Rightarrow> Some (Inl e)
           | (Inr (pieces, files), ws') \<Rightarrow> download_rounds pieces (take k ws @ ws') files)
      | Ended r \<Rightarrow> Some r)"

lemma wait_ran:
  assumes "faithful (w, Some (r, w'))"
  shows "started w" "wait_piece_transfer w = (case r of Inl e \<Rightarrow> (Inl e, w') | Inr _ \<Rightarrow> (Inr (pw_complete w'), w'))"
proof -
  obtain j where j: "pw_thread w = Some j" "run_job j (w\<lparr>pw_thread := None\<rparr>) = (r, w')"
    using assms by (auto simp: faithful_def)
  then show "started w"
    and "wait_piece_transfer w = (case r of Inl e \<Rightarrow> (Inl e, w') | Inr _ \<Rightarrow> (Inr (pw_complete w'), w'))"
    by (simp_all add: started_def wait_piece_transfer_def join_thread_def act_bind_def split: sum.split)
qed

lemma drop_map_update:
  "k < length ws \<Longrightarrow> drop k (map fst ws) = fst (ws ! k) # drop (Suc k) (map fst ws)"
  using Cons_nth_drop_Suc [of k "map fst ws"] by simp

text \<open>The pass over the workers, at one whose thread has run.\<close>

lemma collect_ran:
  assumes "consistent s" "k < length (ds_workers s)" "ds_workers s ! k = (w, Some (r, w'))"
  shows "collect (drop k (map fst (ds_workers s))) pieces files =
    (case r of
       Inl e \<Rightarrow> (Inl e, w' # drop (Suc k) (map fst (ds_workers s)))
     | Inr _ \<Rightarrow>
         if \<not> pw_complete w' \<and> \<not> pw_have_mode w' then (Inl (raise w'), w' # drop (Suc k) (map fst (ds_workers s)))
         else if \<not> pw_complete w'
         then (case collect (drop (Suc k) (map fst (ds_workers s))) pieces files of (res, ws) \<Rightarrow> (res, w' # ws))
         else
           (case pop_piece pieces (pw_last_piece_idx w') of
              Inl e \<Rightarrow> (Inl e, w' # drop (Suc k) (map fst (ds_workers s)))
            | Inr pieces \<Rightarrow>
                (case collect (drop (Suc k) (map fst (ds_workers s))) pieces
                        (write_piece (pw_buffer w') (pw_last_piece_idx w') files) of
                   (res, ws) \<Rightarrow> (res, w' # ws))))"
proof -
  have "faithful (w, Some (r, w'))" using assms by (metis consistent_def list_all_length)
  from wait_ran [OF this] show ?thesis
    using assms(2,3) by (simp add: drop_map_update split: sum.split)
qed

lemma take_drop_update:
  "k < length ws \<Longrightarrow> take (Suc k) (map fst (ws[k := (w', x)])) = take k (map fst ws) @ [w']"
  "k < length ws \<Longrightarrow> drop (Suc k) (map fst (ws[k := (w', x)])) = drop (Suc k) (map fst ws)"
  by (simp_all add: map_update take_Suc_conv_app_nth)

lemma sequential_step: "sched s s' \<Longrightarrow> consistent s \<Longrightarrow> sequential s' = sequential s"
proof (induction rule: sched.induct)
  case (thread_runs k s w j)
  then have "map fst ((ds_workers s)[k := (w, Some (run_job j (w\<lparr>pw_thread := None\<rparr>)))]) = map fst (ds_workers s)"
    by (simp add: map_update list_update_same_conv)
  then show ?case by (simp add: sequential_def Let_def split: main_pc.split)
next
  case (no_pieces_left s)
  then show ?case by (simp add: sequential_def download_rounds_end)
next
  case (round_starts s)
  then show ?case
    by (simp add: sequential_def Let_def download_rounds.simps [of "ds_pieces s"]
        split: prod.split sum.split)
next
  case (round_ends s)
  then show ?case by (simp add: sequential_def)
next
  case (not_started s k)
  then show ?case
    by (simp add: sequential_def Let_def drop_map_update take_Suc_conv_app_nth split: prod.split sum.split)
qed (simp_all add: sequential_def Let_def collect_ran take_drop_update split: prod.split sum.split)

section \<open>No schedule blocks\<close>

lemma faithful_cases:
  assumes "faithful x" "started (fst x)"
  obtains (waiting) w j where "x = (w, None)" "pw_thread w = Some j"
  | (ran) w out where "x = (w, Some out)"
  using assms by (cases x; cases "snd x") (auto simp: started_def)

lemma sched_progress:
  assumes "consistent s" "\<forall>r. ds_pc s \<noteq> Ended r"
  shows "\<exists>s'. sched s s'"
proof (cases "ds_pc s")
  case At_round
  then show ?thesis by (cases "ds_pieces s = []") (blast intro: no_pieces_left round_starts)+
next
  case (At_worker k)
  then have le: "k \<le> length (ds_workers s)" using assms(1) by (simp add: consistent_def)
  show ?thesis
  proof (cases "k < length (ds_workers s) \<and> started (fst (ds_workers s ! k))")
    case True
    then have k: "k < length (ds_workers s)" and f: "faithful (ds_workers s ! k)"
      using assms(1) by (auto simp: consistent_def list_all_length)
    from True have "started (fst (ds_workers s ! k))" by simp
    with f show ?thesis
    proof (cases rule: faithful_cases)
      case waiting
      with k show ?thesis by (blast intro: thread_runs)
    next
      case (ran w out)
      obtain r w' where out: "out = (r, w')" by (cases out)
      note ran = ran [unfolded out]
      show ?thesis
      proof (cases r)
        case (Inl e)
        with ran k At_worker show ?thesis by (blast intro: join_fails)
      next
        case (Inr u)
        with ran have x: "ds_workers s ! k = (w, Some (Inr (), w'))" by simp
        show ?thesis
          using join_raises [OF At_worker k x] join_passed_over [OF At_worker k x]
            join_twice [OF At_worker k x] join_collected [OF At_worker k x]
          by (cases "pop_piece (ds_pieces s) (pw_last_piece_idx w')") blast+
      qed
    qed
  next
    case False
    with le At_worker show ?thesis
      using not_started [of s k] round_ends [of s] by (cases "k = length (ds_workers s)") auto
  qed
qed (use assms(2) in blast)

section \<open>No schedule runs for ever\<close>

definition unran :: "download_state \<Rightarrow> nat" where
  "unran s = length (filter (\<lambda>(w, out). out = None \<and> started w) (ds_workers s))"

text \<open>What the rest of a pass over the workers will make of the state.\<close>

definition rest_of_round :: "nat \<Rightarrow> download_state \<Rightarrow> (nat list \<times> files) result \<times> piece_worker list" where
  "rest_of_round k s =
     (let ws = map fst (ds_workers s) in
      case collect (drop k ws) (ds_pieces s) (ds_files s) of (r, ws') \<Rightarrow> (r, take k ws @ ws'))"

lemma length_filter_update:
  "k < length xs \<Longrightarrow> P (xs ! k) \<Longrightarrow> \<not> P x \<Longrightarrow> length (filter P (xs[k := x])) < length (filter P xs)"
  by (induction xs arbitrary: k) (auto split: nat.splits)

lemma thread_runs_unran:
  "k < length (ds_workers s) \<Longrightarrow> ds_workers s ! k = (w, None) \<Longrightarrow> pw_thread w = Some j \<Longrightarrow>
     unran (s\<lparr>ds_workers := (ds_workers s)[k := (w, Some r)]\<rparr>) < unran s"
  unfolding unran_def by (simp add: length_filter_update started_def)

lemma thread_runs_fst:
  "ds_workers s ! k = (w, None) \<Longrightarrow> map fst ((ds_workers s)[k := (w, out)]) = map fst (ds_workers s)"
  by (cases "k < length (ds_workers s)") (simp_all add: map_update list_update_same_conv list_update_beyond)

lemma round_step:
  "sched s s' \<Longrightarrow> ds_pc s = At_worker k \<Longrightarrow> consistent s \<Longrightarrow>
     (case ds_pc s' of
        At_worker k' \<Rightarrow> rest_of_round k' s' = rest_of_round k s \<and> length (ds_workers s') = length (ds_workers s) \<and>
          (k' = Suc k \<and> k < length (ds_workers s) \<or> k' = k \<and> unran s' < unran s)
      | At_round \<Rightarrow> rest_of_round k s = (Inr (ds_pieces s', ds_files s'), map fst (ds_workers s'))
      | Ended r \<Rightarrow> True)"
proof (induction rule: sched.induct)
  case (thread_runs k' s w j)
  then show ?case using thread_runs_unran [OF thread_runs(1-3)]
    by (simp add: rest_of_round_def Let_def thread_runs_fst)
next
  case (not_started s k')
  then show ?case
    by (simp add: rest_of_round_def Let_def drop_map_update take_Suc_conv_app_nth split: prod.split)
qed (simp_all add: rest_of_round_def Let_def collect_ran take_drop_update split: prod.split)

abbreviation returns :: "download_state \<Rightarrow> bool" where
  "returns \<equiv> Wellfounded.accp (\<lambda>s' s. sched s s')"

inductive_cases sched_EndedE: "sched s s'"

lemma returns_Ended: "ds_pc s = Ended r \<Longrightarrow> returns s"
proof (induction "unran s" arbitrary: s rule: less_induct)
  case less
  show ?case
  proof (rule accpI)
    fix s' assume "sched s s'"
    then show "returns s'"
      using less.prems less.hyps by cases (auto intro: less.hyps thread_runs_unran)
  qed
qed

lemma returns_round:
  "ds_pc s = At_worker k \<Longrightarrow> consistent s \<Longrightarrow>
     (\<And>s'. consistent s' \<Longrightarrow> ds_pc s' = At_round \<Longrightarrow>
        rest_of_round k s = (Inr (ds_pieces s', ds_files s'), map fst (ds_workers s')) \<Longrightarrow> returns s') \<Longrightarrow>
     returns s"
proof (induction "(length (ds_workers s) - k, unran s)" arbitrary: s k
    rule: wf_induct_rule [OF wf_lex_prod [OF wf_less wf_less]])
  case 1
  show ?case
  proof (rule accpI)
    fix s' assume st: "sched s s'"
    note step = round_step [OF st 1(2,3)] and con = consistent_step [OF st 1(3)]
    show "returns s'"
    proof (cases "ds_pc s'")
      case At_round
      with step con 1(4) show ?thesis by simp
    next
      case (At_worker k')
      with step have r: "rest_of_round k' s' = rest_of_round k s"
        "length (ds_workers s') = length (ds_workers s)"
        "k' = Suc k \<and> k < length (ds_workers s) \<or> k' = k \<and> unran s' < unran s"
        by simp_all
      then have "((length (ds_workers s') - k', unran s'), (length (ds_workers s) - k, unran s)) \<in>
          {(x, y). x < y} <*lex*> {(x, y). x < y}"
        by auto
      from 1(1) [OF this At_worker con] 1(4) r(1) show ?thesis by simp
    next
      case (Ended r)
      then show ?thesis by (rule returns_Ended)
    qed
  qed
qed

definition at_round :: "nat list \<Rightarrow> piece_worker list \<Rightarrow> files \<Rightarrow> download_state \<Rightarrow> bool" where
  "at_round pieces ws files s \<longleftrightarrow> consistent s \<and> ds_pc s = At_round \<and> ds_pieces s = pieces \<and>
     map fst (ds_workers s) = ws \<and> ds_files s = files"

text \<open>If every state after the next pass returns, so does one before it.\<close>

lemma returns_at_round:
  assumes "at_round pieces ws files s"
    and "\<And>s' pieces' files' ws'. pieces \<noteq> [] \<Longrightarrow>
      collect (fst (start_workers pieces ws)) pieces files = (Inr (pieces', files'), ws') \<Longrightarrow>
      at_round pieces' ws' files' s' \<Longrightarrow> returns s'"
  shows "returns s"
  using assms(1)
proof (induction "unran s" arbitrary: s rule: less_induct)
  case less
  show ?case
  proof (rule accpI)
    fix s' assume st: "sched s s'"
    have con: "consistent s'" by (rule consistent_step [OF st]) (use less.prems in \<open>simp add: at_round_def\<close>)
    from st show "returns s'"
    proof cases
      case (thread_runs k w j)
      then show ?thesis
        using con less.prems thread_runs_unran [OF thread_runs(2-4)]
        by (intro less.hyps) (simp_all add: at_round_def thread_runs_fst)
    next
      case no_pieces_left
      then show ?thesis by (intro returns_Ended) simp
    next
      case round_starts
      have "returns s2" if "consistent s2" "ds_pc s2 = At_round"
        "rest_of_round 0 s' = (Inr (ds_pieces s2, ds_files s2), map fst (ds_workers s2))" for s2
        using that round_starts less.prems
        by (intro assms(2) [of "ds_pieces s2" "ds_files s2" "map fst (ds_workers s2)"])
          (auto simp: at_round_def rest_of_round_def Let_def split: prod.splits)
      with con round_starts show ?thesis by (intro returns_round [of s' 0]) simp_all
    qed (use less.prems in \<open>simp_all add: at_round_def\<close>)
  qed
qed

lemma download_rounds_returns:
  assumes "download_rounds pieces ws files = Some r" "at_round pieces ws files s"
  shows "returns s"
proof -
  have "download_rounds ps ws fs = Some r \<Longrightarrow> \<forall>s. at_round ps ws fs s \<longrightarrow> returns s" for ps ws fs r
  proof (rule download_rounds.raw_induct [where P = "\<lambda>ps ws fs r. \<forall>s. at_round ps ws fs s \<longrightarrow> returns s"])
    fix dr :: "nat list \<Rightarrow> piece_worker list \<Rightarrow> files \<Rightarrow> files result option" and ps ws fs r
    assume ih: "\<And>ps ws fs r. dr ps ws fs = Some r \<Longrightarrow> \<forall>s. at_round ps ws fs s \<longrightarrow> returns s"
      and turn: "(if ps = [] then Some (Inr fs)
        else case collect (fst (start_workers ps ws)) ps fs of
               (Inl e, _) \<Rightarrow> Some (Inl e) | (Inr (ps, fs), ws) \<Rightarrow> dr ps ws fs) = Some r"
    show "\<forall>s. at_round ps ws fs s \<longrightarrow> returns s"
    proof (intro allI impI)
      fix s assume "at_round ps ws fs s"
      then show "returns s"
        by (rule returns_at_round) (use turn ih in auto)
    qed
  qed
  then show ?thesis using assms by blast
qed

section \<open>Properties\<close>

lemma consistent_initial: "consistent (initial_state pieces workers files)"
  by (simp add: consistent_def initial_state_def list_all_length)

lemma fst_initial: "map fst (ds_workers (initial_state pieces workers files)) = workers"
  by (simp add: initial_state_def comp_def)

lemma sched_steps:
  "sched\<^sup>*\<^sup>* s s' \<Longrightarrow> consistent s \<Longrightarrow> consistent s' \<and> sequential s' = sequential s"
  by (induction rule: rtranclp_induct) (auto simp: sequential_step consistent_step)

lemma sequential_initial: "sequential (initial_state pieces workers files) = download_rounds pieces workers files"
  using fst_initial [of pieces workers files] by (simp add: sequential_def initial_state_def)

text \<open>C8: in whatever order the threads of the workers run, between their start and the join that waits
  for them: the download can go on until it has ended, it ends with what the sequential
  download of the model ends with, and when that one returns no schedule runs for ever.\<close>

theorem threads_refine_rounds:
  assumes "sched\<^sup>*\<^sup>* (initial_state pieces workers files) s"
  shows "((\<exists>r. ds_pc s = Ended r) \<or> (\<exists>s'. sched s s')) \<and>
    (\<forall>r. ds_pc s = Ended r \<longrightarrow> download_rounds pieces workers files = Some r) \<and>
    (download_rounds pieces workers files \<noteq> None \<longrightarrow> returns s)"
proof (intro conjI allI impI)
  have s: "consistent s" "sequential s = download_rounds pieces workers files"
    using sched_steps [OF assms consistent_initial] sequential_initial by auto
  show "(\<exists>r. ds_pc s = Ended r) \<or> (\<exists>s'. sched s s')" using sched_progress [OF s(1)] by blast
  show "ds_pc s = Ended r \<Longrightarrow> download_rounds pieces workers files = Some r" for r
    using s(2) by (simp add: sequential_def Let_def)
  assume "download_rounds pieces workers files \<noteq> None"
  then have "returns (initial_state pieces workers files)"
    using download_rounds_returns [of pieces workers files] consistent_initial fst_initial
    by (auto simp: at_round_def initial_state_def)
  with assms show "returns s"
    by (induction rule: rtranclp_induct) (blast intro: accp_downward)+
qed

text \<open>Two workers and two pieces.\<close>

definition example_threads :: download_state where
  "example_threads =
     initial_state [1, 0]
       [example_worker (example_peer (answers_of example_plan [1]) [Wrote 3, Written]),
        example_worker (example_peer (answers_of example_plan [0]) [Written, Written])] (\<lambda>_. None)"

theorem threads_refine_rounds_witness: "(\<exists>s'. sched example_threads s') \<and> returns example_threads"
proof -
  let ?ws = "[example_worker (example_peer (answers_of example_plan [1]) [Wrote 3, Written]),
        example_worker (example_peer (answers_of example_plan [0]) [Written, Written])]"
  let ?hashes = "[replicate 20 (255 :: u8), replicate 20 255]"
  have stream: "delivers [Chunk (answers_of example_plan [i])] (answers_of example_plan [i]) []" for i
    by (rule delivers_chunk) (simp add: answers_of_def example_plan_def piece_answer_Cons)
  have serves: "serves example_plan example_metainfo (length ?hashes) [i]" if "i < 2" for i
    using that example_plan_serves by (auto simp: serves_def less_2_cases_iff)
  have "serving example_plan example_data ?hashes [1] (?ws ! 0)" "serving example_plan example_data ?hashes [0] (?ws ! 1)"
    using serves [of 1] serves [of 0] stream [of 1] stream [of 0]
    by (auto simp: serving_def example_worker_ready example_worker_def example_peer_def started_def example_pieces
        normal_mode_def example_data_def example_plan_def requests_of_def accepts.simps(2) write_some_def
        transfer_all_def MAX_TRANSFER_SIZE_def)
  moreover have "share 2 k [1, 0] = (if k = 0 then [1] else [0])" if "k < 2" for k
    using that share_short [of "[1, 0]" 2 k] by (auto simp: less_2_cases_iff)
  ultimately have "download_rounds [1, 0] ?ws (\<lambda>_. None) \<noteq> None"
    using download_rounds_shares [of ?ws "\<lambda>_. example_plan" example_data ?hashes "[1, 0]" "\<lambda>_. None"]
    by (auto simp: less_2_cases_iff numeral_2_eq_2)
  with threads_refine_rounds [OF rtranclp.rtrancl_refl, of "[1, 0]" ?ws "\<lambda>_. None"]
  show ?thesis by (auto simp: example_threads_def initial_state_def)
qed

end
